(* ===== verification/Kernel_Prelude.thy ===== *)
theory Kernel_Prelude
  imports Main "HOL-Library.Word"
begin

section \<open>Shared vocabulary of the kernel models\<close>

text \<open>
  Every component of the kernel that does not return does so in one of four ways, collected in
  \<open>kerror\<close>: it calls \<open>panic\<close> (the constructor keeps the message of the source), it
  follows a pointer that is null or leaves an array (\<open>Wild_pointer\<close>), one of its
  loops does not come back within its fuel (\<open>Diverges\<close>), or it sleeps for an event that the
  executing thread itself would have to bring about (\<open>Blocks\<close>). A computation that may fail has the result type \<open>'a res\<close>; \<open>rbind\<close>
  sequences two of them, stopping at the first failure, exactly as the C code stops at a
  panic. State is passed explicitly.

  The theory also fixes the machine types (\<open>u8\<close>, \<open>u16\<close>, \<open>u32\<close>), the collection
  \<open>res_simps\<close> of rewrite rules for results, and the generic lemmas on lists that several
  components share.
\<close>

unbundle bit_operations_syntax

subsection \<open>Machine types\<close>

type_synonym u8 = "8 word"
type_synonym u16 = "16 word"
type_synonym u32 = "32 word"

subsection \<open>Results\<close>

datatype kerror = Panic string | Wild_pointer | Diverges | Blocks

type_synonym 'a res = "kerror + 'a"

named_theorems res_simps \<open>rewrite rules that evaluate and invert results\<close>

definition rbind :: "'a res \<Rightarrow> ('a \<Rightarrow> 'b res) \<Rightarrow> 'b res" where
  "rbind m f = (case m of Inl e \<Rightarrow> Inl e | Inr x \<Rightarrow> f x)"

lemma rbind_Inr [simp]: "rbind (Inr x) f = f x"
  by (simp add: rbind_def)

lemma rbind_Inl [simp]: "rbind (Inl e) f = Inl e"
  by (simp add: rbind_def)

lemma rbind_eq_Inr [res_simps]: "(rbind m f = Inr y) = (\<exists>x. m = Inr x \<and> f x = Inr y)"
  by (cases m) auto

lemma rbind_eq_Inl [res_simps]:
  "(rbind m f = Inl e) = (m = Inl e \<or> (\<exists>x. m = Inr x \<and> f x = Inl e))"
  by (cases m) auto

lemma rbind_assoc: "rbind (rbind m f) g = rbind m (\<lambda>x. rbind (f x) g)"
  by (cases m) auto

lemma rbind_cong [fundef_cong]:
  "m = m' \<Longrightarrow> (\<And>x. m' = Inr x \<Longrightarrow> f x = f' x) \<Longrightarrow> rbind m f = rbind m' f'"
  by (cases m') auto

text \<open>The value of a computation that succeeds, with a default for the others.\<close>

definition res_or :: "'a \<Rightarrow> 'a res \<Rightarrow> 'a" where
  "res_or d r = (case r of Inr x \<Rightarrow> x | Inl _ \<Rightarrow> d)"

lemma res_or_Inr [simp]: "res_or d (Inr x) = x"
  by (simp add: res_or_def)

text \<open>Following a pointer: \<open>None\<close> is the null pointer of the source.\<close>

definition deref :: "'a option \<Rightarrow> 'a res" where
  "deref p = (case p of None \<Rightarrow> Inl Wild_pointer | Some a \<Rightarrow> Inr a)"

lemma deref_Some [simp]: "deref (Some a) = Inr a"
  by (simp add: deref_def)

lemma deref_None [simp]: "deref None = Inl Wild_pointer"
  by (simp add: deref_def)

lemma deref_eq_Inr [res_simps]: "(deref p = Inr a) = (p = Some a)"
  by (cases p) auto

text \<open>Reading and writing an array of fixed size: outside of it the access is wild.\<close>

definition aget :: "'a list \<Rightarrow> nat \<Rightarrow> 'a res" where
  "aget xs i = (if i < length xs then Inr (xs ! i) else Inl Wild_pointer)"

definition aset :: "'a list \<Rightarrow> nat \<Rightarrow> 'a \<Rightarrow> 'a list res" where
  "aset xs i v = (if i < length xs then Inr (xs[i := v]) else Inl Wild_pointer)"

lemma aget_in [simp]: "i < length xs \<Longrightarrow> aget xs i = Inr (xs ! i)"
  by (simp add: aget_def)

lemma aset_in [simp]: "i < length xs \<Longrightarrow> aset xs i v = Inr (xs[i := v])"
  by (simp add: aset_def)

lemma aget_eq_Inr [res_simps]: "(aget xs i = Inr a) = (i < length xs \<and> xs ! i = a)"
  by (auto simp: aget_def)

lemma aset_eq_Inr [res_simps]: "(aset xs i v = Inr ys) = (i < length xs \<and> ys = xs[i := v])"
  by (auto simp: aset_def)

text \<open>A loop over a sequence that stops at the first failure.\<close>

primrec rfold :: "('a \<Rightarrow> 's \<Rightarrow> 's res) \<Rightarrow> 'a list \<Rightarrow> 's \<Rightarrow> 's res" where
  "rfold f [] s = Inr s"
| "rfold f (x # xs) s = rbind (f x s) (rfold f xs)"

lemma rfold_append: "rfold f (xs @ ys) s = rbind (rfold f xs s) (rfold f ys)"
  by (induction xs arbitrary: s) (auto simp: rbind_assoc cong: rbind_cong)

text \<open>A loop whose body never fails is an ordinary fold.\<close>

lemma rfold_total: "(\<And>x s. f x s = Inr (g x s)) \<Longrightarrow> rfold f xs s = Inr (fold g xs s)"
  by (induction xs arbitrary: s) auto

lemma rfold_invariant:
  assumes "\<And>x s. x \<in> set xs \<Longrightarrow> P s \<Longrightarrow> \<exists>s'. f x s = Inr s' \<and> P s'" and "P s"
  shows "\<exists>s'. rfold f xs s = Inr s' \<and> P s'"
  using assms
proof (induction xs arbitrary: s)
  case (Cons x xs)
  then obtain s1 where "f x s = Inr s1" and "P s1" by (meson list.set_intros(1))
  with Cons show ?case by simp
qed simp

subsection \<open>Words\<close>

lemma unat_add_fits: "unat (x::u32) + unat y < 2 ^ 32 \<Longrightarrow> unat (x + y) = unat x + unat y"
  using unat_add_lem [of x y] by simp

lemma unat32_less: "unat (w::u32) < 2 ^ 32"
proof -
  have "unat w < 2 ^ LENGTH(32)" by (rule unsigned_less)
  then show ?thesis by simp
qed

lemma unat_of_nat32: "n < 2 ^ 32 \<Longrightarrow> unat (of_nat n :: u32) = n"
  by (simp add: unsigned_of_nat take_bit_nat_eq_self)

lemma uint_eq_iff: "uint a = uint b \<longleftrightarrow> a = b"
  by (simp add: word_uint_eq_iff)

subsection \<open>Indices of a ring\<close>

lemma mod_shift_inj: "i < m \<Longrightarrow> j < m \<Longrightarrow> (h + i) mod m = (h + j) mod m \<Longrightarrow> i = (j::nat)"
proof (induction i j rule: linorder_wlog)
  case (le i j)
  then have "m dvd (j - i)" using mod_eq_dvd_iff_nat [of "h + i" "h + j" m] by simp
  with le show ?case by (auto dest: dvd_imp_le)
qed simp

subsection \<open>Counting\<close>

text \<open>The number of threads whose program counter satisfies a condition, when one of them moves.\<close>

lemma card_where_upd:
  fixes p :: "'a \<Rightarrow> 'b"
  assumes "finite {u. P (p u)}"
  shows "finite {u. P ((p(t := r)) u)}"
    and "int (card {u. P ((p(t := r)) u)}) = int (card {u. P (p u)}) + of_bool (P r) - of_bool (P (p t))"
proof -
  define A where "A = {u. P (p u)} - {t}"
  have A: "finite A" "t \<notin> A" using assms by (auto simp: A_def)
  have old: "{u. P (p u)} = (if P (p t) then insert t A else A)" by (auto simp: A_def)
  have new: "{u. P ((p(t := r)) u)} = (if P r then insert t A else A)" by (auto simp: A_def)
  show "finite {u. P ((p(t := r)) u)}" unfolding new using A by simp
  show "int (card {u. P ((p(t := r)) u)}) = int (card {u. P (p u)}) + of_bool (P r) - of_bool (P (p t))"
    unfolding new old using A by simp
qed

subsection \<open>Lists\<close>

lemma remove1_split: "x \<notin> set xs \<Longrightarrow> remove1 x (xs @ x # ys) = xs @ ys"
  by (simp add: remove1_append)

lemma filter_split:
  "distinct (xs @ x # ys) \<Longrightarrow> filter (\<lambda>y. y \<noteq> x) (xs @ x # ys) = xs @ ys"
proof -
  assume "distinct (xs @ x # ys)"
  then have "filter (\<lambda>y. y \<noteq> x) xs = xs" and "filter (\<lambda>y. y \<noteq> x) ys = ys"
    by (auto simp: filter_id_conv)
  then show ?thesis by simp
qed

end
