(* ===== verification/Cstring.thy ===== *)
theory Cstring
  imports Kernel_Prelude
begin

section \<open>Memory and string routines (string.c)\<close>

text \<open>
  The routines of \<open>string.c\<close>. Memory is a function from 32-bit addresses to bytes.
  \<open>memset\<close> and \<open>memmove\<close> work on addresses, because what they do depends on alignment and
  on whether the two regions overlap. The string routines that only read take their
  pointers as array views (a function from offset to byte); those that write take the
  destination array as a list, and a write past its end is a wild access.

  Shown: \<open>memset\<close> fills exactly the region on both of its paths; \<open>memmove\<close> copies
  correctly for overlapping regions in either direction; \<open>strncmp\<close> decides equality of the
  bounded strings; \<open>strncpy\<close> fills the whole array with the string and zero bytes;
  \<open>safestrcpy\<close> always terminates the string.
\<close>

type_synonym mem = "u32 \<Rightarrow> u8"

text \<open>The string instructions of \<open>x86.h\<close> the routines are built on.\<close>

fun stosb :: "u32 \<Rightarrow> u8 \<Rightarrow> nat \<Rightarrow> mem \<Rightarrow> mem" where
  "stosb p c 0 m = m"
| "stosb p c (Suc n) m = stosb (p + 1) c n (m(p := c))"

definition write32 :: "u32 \<Rightarrow> u32 \<Rightarrow> mem \<Rightarrow> mem" where
  "write32 p w m = m(p := ucast w, p + 1 := ucast (drop_bit 8 w),
     p + 2 := ucast (drop_bit 16 w), p + 3 := ucast (drop_bit 24 w))"

definition read32 :: "u32 \<Rightarrow> mem \<Rightarrow> u32" where
  "read32 p m = ucast (m p) OR push_bit 8 (ucast (m (p + 1)))
     OR push_bit 16 (ucast (m (p + 2))) OR push_bit 24 (ucast (m (p + 3)))"

fun stosl :: "u32 \<Rightarrow> u32 \<Rightarrow> nat \<Rightarrow> mem \<Rightarrow> mem" where
  "stosl p w 0 m = m"
| "stosl p w (Suc n) m = stosl (p + 4) w n (write32 p w m)"

definition memset :: "u32 \<Rightarrow> u32 \<Rightarrow> u32 \<Rightarrow> mem \<Rightarrow> mem" where
  "memset dst c n m =
     (if dst mod 4 = 0 \<and> n mod 4 = 0 then
        let c = c AND 0xFF
        in stosl dst (push_bit 24 c OR push_bit 16 c OR push_bit 8 c OR c) (unat (n div 4)) m
      else stosb dst (ucast c) (unat n) m)"

fun memcmp :: "(nat \<Rightarrow> u8) \<Rightarrow> (nat \<Rightarrow> u8) \<Rightarrow> nat \<Rightarrow> int" where
  "memcmp s1 s2 0 = 0"
| "memcmp s1 s2 (Suc n) =
     (if s1 0 \<noteq> s2 0 then uint (s1 0) - uint (s2 0)
      else memcmp (\<lambda>i. s1 (Suc i)) (\<lambda>i. s2 (Suc i)) n)"

fun copy_down :: "u32 \<Rightarrow> u32 \<Rightarrow> nat \<Rightarrow> mem \<Rightarrow> mem" where
  "copy_down d s 0 m = m"
| "copy_down d s (Suc n) m = copy_down (d - 1) (s - 1) n (m(d - 1 := m (s - 1)))"

fun copy_up :: "u32 \<Rightarrow> u32 \<Rightarrow> nat \<Rightarrow> mem \<Rightarrow> mem" where
  "copy_up d s 0 m = m"
| "copy_up d s (Suc n) m = copy_up (d + 1) (s + 1) n (m(d := m s))"

definition memmove :: "u32 \<Rightarrow> u32 \<Rightarrow> u32 \<Rightarrow> mem \<Rightarrow> mem" where
  "memmove dst src n m =
     (if src < dst \<and> src + n > dst then copy_down (dst + n) (src + n) (unat n) m
      else copy_up dst src (unat n) m)"

fun strncmp :: "(nat \<Rightarrow> u8) \<Rightarrow> (nat \<Rightarrow> u8) \<Rightarrow> nat \<Rightarrow> int" where
  "strncmp p q 0 = 0"
| "strncmp p q (Suc n) =
     (if p 0 \<noteq> 0 \<and> p 0 = q 0 then strncmp (\<lambda>i. p (Suc i)) (\<lambda>i. q (Suc i)) n
      else uint (p 0) - uint (q 0))"

text \<open>
  \<open>strncpy\<close>: the first loop copies until it has written a zero byte or \<open>n\<close> bytes, the second
  writes zero bytes for what is left of \<open>n\<close>.
\<close>

fun strncpy_pad :: "nat \<Rightarrow> nat \<Rightarrow> u8 list \<Rightarrow> u8 list res" where
  "strncpy_pad i 0 s = Inr s"
| "strncpy_pad i (Suc n) s = rbind (aset s i 0) (strncpy_pad (Suc i) n)"

fun strncpy_from :: "nat \<Rightarrow> (nat \<Rightarrow> u8) \<Rightarrow> nat \<Rightarrow> u8 list \<Rightarrow> u8 list res" where
  "strncpy_from i t 0 s = Inr s"
| "strncpy_from i t (Suc n) s =
     rbind (aset s i (t i)) (\<lambda>s.
     if t i \<noteq> 0 then strncpy_from (Suc i) t n s else strncpy_pad (Suc i) n s)"

definition strncpy :: "u8 list \<Rightarrow> (nat \<Rightarrow> u8) \<Rightarrow> int \<Rightarrow> u8 list res" where
  "strncpy s t n = strncpy_from 0 t (nat n) s"

text \<open>
  \<open>safestrcpy\<close>: the loop pre-decrements \<open>n\<close>, so it copies at most \<open>n - 1\<close> bytes; it leaves
  \<open>s\<close> behind the last byte it wrote, and the final zero is written there.
\<close>

fun safestrcpy_from :: "nat \<Rightarrow> (nat \<Rightarrow> u8) \<Rightarrow> nat \<Rightarrow> u8 list \<Rightarrow> u8 list res" where
  "safestrcpy_from i t 0 s = aset s i 0"
| "safestrcpy_from i t (Suc n) s =
     rbind (aset s i (t i)) (\<lambda>s.
     if t i \<noteq> 0 then safestrcpy_from (Suc i) t n s else aset s (Suc i) 0)"

definition safestrcpy :: "u8 list \<Rightarrow> (nat \<Rightarrow> u8) \<Rightarrow> int \<Rightarrow> u8 list res" where
  "safestrcpy s t n = (if n \<le> 0 then Inr s else safestrcpy_from 0 t (nat (n - 1)) s)"

fun strlen_from :: "nat \<Rightarrow> nat \<Rightarrow> (nat \<Rightarrow> u8) \<Rightarrow> nat res" where
  "strlen_from 0 n s = Inl Diverges"
| "strlen_from (Suc fuel) n s = (if s n \<noteq> 0 then strlen_from fuel (Suc n) s else Inr n)"

definition strlen :: "nat \<Rightarrow> (nat \<Rightarrow> u8) \<Rightarrow> nat res" where
  "strlen fuel s = strlen_from fuel 0 s"

subsection \<open>Filling memory\<close>

lemma unat_minus_one_step: "(a::u32) \<noteq> p \<Longrightarrow> unat (a - (p + 1)) = unat (a - p) - 1"
proof -
  assume "a \<noteq> p"
  then have "a - p \<noteq> 0" by simp
  then have "unat (a - p - 1) = unat (a - p) - 1" by (rule unat_minus_one)
  then show ?thesis by (simp add: algebra_simps)
qed

lemma stosb_eq: "stosb p c n m a = (if unat (a - p) < n then c else m a)"
proof (induction n arbitrary: p m a)
  case (Suc n)
  show ?case
  proof (cases "a = p")
    case True
    then show ?thesis by (simp add: Suc)
  next
    case False
    then have "0 < unat (a - p)" by (simp add: unat_gt_0)
    then have "unat (a - p) - 1 < n \<longleftrightarrow> unat (a - p) < Suc n" by linarith
    with False show ?thesis by (simp add: Suc unat_minus_one_step)
  qed
qed simp

lemma stosb_add: "stosb p c (i + j) m = stosb (p + of_nat i) c j (stosb p c i m)"
  by (induction i arbitrary: p m) (simp_all add: algebra_simps)

text \<open>A word store of four equal bytes is four byte stores.\<close>

lemma stosl_eq:
  assumes "\<And>k. k \<in> {0, 8, 16, 24} \<Longrightarrow> ucast (drop_bit k w) = c"
  shows "stosl p w n m = stosb p c (4 * n) m"
proof (induction n arbitrary: p m)
  case (Suc n)
  have "write32 p w m = stosb p c 4 m"
    using assms [of 0] assms [of 8] assms [of 16] assms [of 24]
    by (simp add: write32_def numeral_eq_Suc add.assoc)
  then show ?case
    using stosb_add [of p c 4 "4 * n" m] Suc by simp
qed simp

lemma fill_word_bytes:
  fixes c :: u32
  assumes "k \<in> {0, 8, 16, 24}"
  shows "ucast (drop_bit k (push_bit 24 (c AND 0xFF) OR push_bit 16 (c AND 0xFF) OR
    push_bit 8 (c AND 0xFF) OR (c AND 0xFF))) = (ucast c :: u8)"
proof -
  have mask: "(0xFF :: u32) = mask 8" by (simp add: mask_eq_exp_minus_1)
  show ?thesis
    using assms unfolding mask
    by (elim insertE emptyE) (simp_all, (rule bit_word_eqI, simp add: bit_simps)+)
qed

lemma memset_eq: "memset dst c n m a = (if a - dst < n then ucast c else m a)"
proof -
  have "stosl dst (push_bit 24 (c AND 0xFF) OR push_bit 16 (c AND 0xFF) OR push_bit 8 (c AND 0xFF) OR (c AND 0xFF))
      (unat (n div 4)) m = stosb dst (ucast c) (4 * unat (n div 4)) m"
    by (rule stosl_eq) (rule fill_word_bytes)
  moreover have "4 * unat (n div 4) = unat n" if "n mod 4 = 0"
  proof -
    have "unat n mod 4 = 0" using that unat_mod [of n 4] by simp
    then show ?thesis using mult_div_mod_eq [of 4 "unat n"] by (simp add: unat_div)
  qed
  ultimately show ?thesis
    by (simp add: memset_def Let_def stosb_eq word_less_nat_alt)
qed

subsection \<open>Moving memory\<close>

lemma copy_up_eq:
  assumes "unat d + n \<le> 2 ^ 32" and "unat s + n \<le> 2 ^ 32" and "n < 2 ^ 32" and "d \<le> s \<or> unat s + n \<le> unat d"
  shows "copy_up d s n m a = (if unat (a - d) < n then m (s + (a - d)) else m a)"
  using assms
proof (induction n arbitrary: d s m a)
  case (Suc n)
  show ?case
  proof (cases "n = 0")
    case True
    then show ?thesis by (auto simp: unat_eq_0)
  next
    case False
    have d1: "unat (d + 1) = unat d + 1"
      using Suc.prems False unat_add_fits [of d 1] by simp
    have s1: "unat (s + 1) = unat s + 1"
      using Suc.prems False unat_add_fits [of s 1] by simp
    have IH: "copy_up (d + 1) (s + 1) n (m(d := m s)) a =
       (if unat (a - (d + 1)) < n then (m(d := m s)) (s + 1 + (a - (d + 1))) else (m(d := m s)) a)"
      using Suc.prems d1 s1 by (intro Suc.IH) (auto simp: word_le_nat_alt)
    show ?thesis
    proof (cases "a = d")
      case True
      have "unat (d - (d + 1)) = 2 ^ 32 - 1" by (simp add: unsigned_minus_1_eq_mask mask_eq_exp_minus_1)
      then show ?thesis using IH True Suc.prems(3) by simp
    next
      case False
      then have pos: "0 < unat (a - d)" by (simp add: unat_gt_0)
      have ne: "s + (a - d) \<noteq> d" if "unat (a - d) < Suc n"
      proof -
        have "unat (s + (a - d)) = unat s + unat (a - d)"
          using that Suc.prems by (intro unat_add_fits) simp
        then have "unat (s + (a - d)) \<noteq> unat d"
          using pos that Suc.prems(4) by (auto simp: word_le_nat_alt)
        then show ?thesis by metis
      qed
      have "unat (a - d) - 1 < n \<longleftrightarrow> unat (a - d) < Suc n" using pos by linarith
      then show ?thesis using IH False ne by (simp add: unat_minus_one_step)
    qed
  qed
qed simp

lemma copy_down_eq:
  assumes "unat d + n \<le> 2 ^ 32" and "unat s + n \<le> 2 ^ 32" and "n < 2 ^ 32" and "s \<le> d"
  shows "copy_down (d + of_nat n) (s + of_nat n) n m a = (if unat (a - d) < n then m (s + (a - d)) else m a)"
  using assms
proof (induction n arbitrary: m a)
  case (Suc n)
  let ?m = "m(d + of_nat n := m (s + of_nat n))"
  have IH: "copy_down (d + of_nat n) (s + of_nat n) n ?m a = (if unat (a - d) < n then ?m (s + (a - d)) else ?m a)"
    using Suc.prems by (intro Suc.IH) auto
  have n: "unat (of_nat n :: u32) = n" using Suc.prems by (simp add: unat_of_nat)
  have step: "copy_down (d + of_nat (Suc n)) (s + of_nat (Suc n)) (Suc n) m a = copy_down (d + of_nat n) (s + of_nat n) n ?m a"
    by (simp add: add.assoc [symmetric])
  have ne: "s + (a - d) \<noteq> d + of_nat n" if "unat (a - d) < n"
  proof -
    have "unat (s + (a - d)) = unat s + unat (a - d)" and "unat (d + of_nat n) = unat d + n"
      using that Suc.prems n by (simp_all add: unat_add_fits)
    then have "unat (s + (a - d)) \<noteq> unat (d + of_nat n)"
      using that Suc.prems(4) by (simp add: word_le_nat_alt)
    then show ?thesis by metis
  qed
  have eqn: "unat (a - d) = n \<longleftrightarrow> a = d + of_nat n"
    using n by (metis add.commute diff_add_cancel add_diff_cancel_left' word_unat_eq_iff)
  show ?case
    unfolding step IH using ne eqn by (auto simp: less_Suc_eq)
qed simp

lemma memmove_eq:
  assumes "unat dst + unat n \<le> 2 ^ 32" and "unat src + unat n < 2 ^ 32"
  shows "memmove dst src n m a = (if a - dst < n then m (src + (a - dst)) else m a)"
proof (cases "src < dst \<and> src + n > dst")
  case True
  then show ?thesis
    using copy_down_eq [of dst "unat n" src m a] assms
    by (auto simp: memmove_def word_less_nat_alt word_le_nat_alt)
next
  case False
  then have "dst \<le> src \<or> unat src + unat n \<le> unat dst"
    using assms(2) unat_add_fits [of src n] by (auto simp: word_less_nat_alt word_le_nat_alt)
  then have "copy_up dst src (unat n) m a = (if unat (a - dst) < unat n then m (src + (a - dst)) else m a)"
    using assms unat32_less [of n] by (intro copy_up_eq) auto
  with False show ?thesis unfolding memmove_def word_less_nat_alt by auto
qed

lemma byte_parts:
  "ucast (ucast (w::u32) :: u8) OR push_bit 8 (ucast (ucast (drop_bit 8 w) :: u8))
   OR push_bit 16 (ucast (ucast (drop_bit 16 w) :: u8)) OR push_bit 24 (ucast (ucast (drop_bit 24 w) :: u8)) = w"
  (is "?l = w")
proof (rule bit_word_eqI)
  fix n assume "n < LENGTH(32)"
  then consider "n < 8" | "8 \<le> n \<and> n < 16" | "16 \<le> n \<and> n < 24" | "24 \<le> n \<and> n < 32" by fastforce
  then show "bit ?l n = bit w n"
    by cases (auto simp: bit_simps)
qed

lemma read_write32: "read32 p (write32 p w m) = w"
  by (simp add: read32_def write32_def byte_parts)

lemma write32_outside: "4 \<le> unat (a - p) \<Longrightarrow> write32 p w m a = m a"
  by (auto simp: write32_def unat_word_ariths)

subsection \<open>Bounded strings\<close>

text \<open>The string at a view, cut off after \<open>n\<close> bytes.\<close>

fun cstr :: "(nat \<Rightarrow> u8) \<Rightarrow> nat \<Rightarrow> u8 list" where
  "cstr p 0 = []"
| "cstr p (Suc n) = (if p 0 = 0 then [] else p 0 # cstr (\<lambda>i. p (Suc i)) n)"

lemma cstr_nonzero: "0 \<notin> set (cstr p n)"
  by (induction p n rule: cstr.induct) auto

lemma length_cstr: "length (cstr p n) \<le> n"
  by (induction p n rule: cstr.induct) auto

lemma strncmp_0_iff: "strncmp p q n = 0 \<longleftrightarrow> cstr p n = cstr q n"
  by (induction p q n rule: strncmp.induct) (auto simp: uint_eq_iff uint_0_iff)

lemma memcmp_0_iff: "memcmp p q n = 0 \<longleftrightarrow> (\<forall>i<n. p i = q i)"
  by (induction p q n rule: memcmp.induct) (auto simp: less_Suc_eq_0_disj uint_eq_iff)

lemma cstr_of_list:
  "0 \<notin> set xs \<Longrightarrow> length xs \<le> n \<Longrightarrow> length xs < n \<longrightarrow> p (length xs) = 0 \<Longrightarrow>
   (\<And>i. i < length xs \<Longrightarrow> p i = xs ! i) \<Longrightarrow> cstr p n = xs"
proof (induction xs arbitrary: p n)
  case Nil
  then show ?case by (cases n) auto
next
  case (Cons x xs)
  then obtain k where n: "n = Suc k" by (cases n) auto
  have "p 0 = x" using Cons.prems(4) [of 0] by simp
  moreover have "cstr (\<lambda>i. p (Suc i)) k = xs"
    using Cons.prems Cons.prems(4) [of "Suc i" for i] n by (intro Cons.IH) auto
  ultimately show ?case using n Cons.prems(1) by auto
qed

lemma aset_append: "aset (pre @ x # rest) (length pre) v = Inr (pre @ v # rest)"
  by (simp add: aset_def)

lemma strncpy_pad_eq:
  "n \<le> length rest \<Longrightarrow>
   strncpy_pad (length pre) n (pre @ rest) = Inr (pre @ replicate n 0 @ drop n rest)"
proof (induction n arbitrary: pre rest)
  case (Suc n)
  then obtain x r where rest: "rest = x # r" by (cases rest) auto
  show ?case
    using Suc.IH [of r "pre @ [0]"] Suc.prems by (simp add: rest aset_append replicate_append_same)
qed simp

lemma strncpy_from_eq:
  "n \<le> length rest \<Longrightarrow>
   strncpy_from (length pre) t n (pre @ rest) =
     Inr (pre @ cstr (\<lambda>i. t (length pre + i)) n
       @ replicate (n - length (cstr (\<lambda>i. t (length pre + i)) n)) 0 @ drop n rest)"
proof (induction n arbitrary: pre rest)
  case (Suc n)
  then obtain x r where rest: "rest = x # r" by (cases rest) auto
  show ?case
    using Suc.IH [of r "pre @ [t (length pre)]"] Suc.prems strncpy_pad_eq [of n r "pre @ [0]"]
    by (simp add: rest aset_append)
qed simp

lemma strncpy_eq:
  assumes "0 \<le> n" and "nat n \<le> length s"
  shows "strncpy s t n = Inr (cstr t (nat n) @ replicate (nat n - length (cstr t (nat n))) 0 @ drop (nat n) s)"
  using strncpy_from_eq [of "nat n" s "[]" t] assms by (simp add: strncpy_def)

lemma strncpy_cstr:
  assumes "0 \<le> n" and "nat n \<le> length s" and "strncpy s t n = Inr s'"
  shows "cstr (\<lambda>i. s' ! i) (nat n) = cstr t (nat n)"
  using assms cstr_nonzero [of t "nat n"] length_cstr [of t "nat n"]
  by (intro cstr_of_list) (auto simp: strncpy_eq nth_append)

lemma safestrcpy_from_eq:
  "n < length rest \<Longrightarrow>
   \<exists>tail. safestrcpy_from (length pre) t n (pre @ rest) =
     Inr (pre @ cstr (\<lambda>i. t (length pre + i)) n @ 0 # tail @ drop (Suc n) rest) \<and>
     length tail = n - length (cstr (\<lambda>i. t (length pre + i)) n)"
proof (induction n arbitrary: pre rest)
  case 0
  then obtain x r where rest: "rest = x # r" by (cases rest) auto
  then show ?case by (simp add: aset_append)
next
  case (Suc n)
  then obtain x r where rest: "rest = x # r" by (cases rest) auto
  from Suc.prems rest obtain y r' where r: "r = y # r'" by (cases r) auto
  show ?case
  proof (cases "t (length pre) = 0")
    case True
    then show ?thesis
      using aset_append [of "pre @ [0]" y r' 0] Suc.prems
      by (auto simp: rest r aset_append intro!: exI [of _ "0 # take n r'"])
  next
    case False
    then show ?thesis
      using Suc.IH [of r "pre @ [t (length pre)]"] Suc.prems by (simp add: rest aset_append)
  qed
qed

subsection \<open>Properties\<close>

text \<open>
  C6. \<open>memmove\<close> is correct for every pair of regions that does not reach the end of the
  address space, overlapping or not: each byte of the destination receives the byte the
  source held before the call, and no other byte of memory changes.
\<close>

theorem memmove_copies:
  assumes "unat dst + unat n \<le> 2 ^ 32" and "unat src + unat n < 2 ^ 32"
  shows "(\<forall>i<unat n. memmove dst src n m (dst + of_nat i) = m (src + of_nat i)) \<and>
    (\<forall>a. (\<forall>i<unat n. a \<noteq> dst + of_nat i) \<longrightarrow> memmove dst src n m a = m a)"
proof (intro conjI allI impI)
  fix i assume i: "i < unat n"
  then have "unat (of_nat i :: u32) = i"
    using unat32_less [of n] by (simp add: unat_of_nat)
  with i show "memmove dst src n m (dst + of_nat i) = m (src + of_nat i)"
    using assms by (simp add: memmove_eq word_less_nat_alt)
next
  fix a assume "\<forall>i<unat n. a \<noteq> dst + of_nat i"
  then have "\<not> a - dst < n"
    by (metis add.commute diff_add_cancel word_less_nat_alt of_nat_unat ucast_id)
  then show "memmove dst src n m a = m a"
    using assms by (simp add: memmove_eq)
qed

theorem memmove_copies_witness:
  "memmove 102 100 4 (ucast :: u32 \<Rightarrow> u8) 105 = 103 \<and> memmove 102 100 4 (ucast :: u32 \<Rightarrow> u8) 102 = 100"
proof -
  have "memmove 102 100 4 (ucast :: u32 \<Rightarrow> u8) (102 + of_nat i) = ucast (100 + of_nat i :: u32)"
    if "i < 4" for i
    using memmove_copies [of 102 4 100 ucast] that by simp
  from this [of 3] this [of 0] show ?thesis by simp
qed

text \<open>
  C7. \<open>strncpy\<close> into an array of at least \<open>n\<close> bytes writes exactly the first \<open>n\<close> bytes of it,
  and comparing the result with the source by \<open>strncmp\<close> over \<open>n\<close> bytes gives 0: a directory
  entry whose name was written by \<open>strncpy\<close> is found again by its name.
\<close>

theorem strncpy_strncmp:
  assumes "0 \<le> n" and "nat n \<le> length s"
  shows "\<exists>s'. strncpy s t n = Inr s' \<and> length s' = length s \<and> drop (nat n) s' = drop (nat n) s \<and>
    strncmp (\<lambda>i. s' ! i) t (nat n) = 0"
proof -
  from strncpy_eq [OF assms] obtain s' where s': "strncpy s t n = Inr s'" by auto
  have "strncmp (\<lambda>i. s' ! i) t (nat n) = 0"
    using strncpy_cstr [OF assms s'] by (simp add: strncmp_0_iff)
  moreover have "length s' = length s" and "drop (nat n) s' = drop (nat n) s"
    using s' strncpy_eq [OF assms] assms(2) length_cstr [of t "nat n"] by auto
  ultimately show ?thesis using s' by blast
qed

theorem strncpy_strncmp_witness:
  "\<exists>s'. strncpy (replicate 4 7) (\<lambda>i. if i < 2 then 65 else 0) 3 = Inr s' \<and>
    strncmp (\<lambda>i. s' ! i) (\<lambda>i. if i < 2 then 65 else 0) 3 = 0"
  using strncpy_strncmp [of 3 "replicate 4 7" "\<lambda>i. if i < 2 then 65 else 0"] by auto

text \<open>
  C8. \<open>safestrcpy\<close> into an array of at least \<open>n > 0\<close> bytes always leaves a zero-terminated
  string in its first \<open>n\<close> bytes, namely the source cut off after \<open>n - 1\<close> bytes, and writes
  nothing behind them.
\<close>

theorem safestrcpy_terminates:
  assumes "0 < n" and "nat n \<le> length s"
  shows "\<exists>s'. safestrcpy s t n = Inr s' \<and> length s' = length s \<and> drop (nat n) s' = drop (nat n) s \<and>
    cstr (\<lambda>i. s' ! i) (nat n) = cstr t (nat n - 1) \<and> s' ! length (cstr t (nat n - 1)) = 0"
proof -
  let ?k = "nat n - 1" let ?c = "cstr t (nat n - 1)"
  have k: "Suc ?k = nat n" "nat (n - 1) = ?k" using assms(1) by auto
  have "?k < length s" using assms k(1) by linarith
  then obtain tail where t: "safestrcpy s t n = Inr (?c @ 0 # tail @ drop (nat n) s)" "length tail = ?k - length ?c"
    using safestrcpy_from_eq [of ?k s "[]" t] assms(1) k by (auto simp: safestrcpy_def)
  have c: "length ?c \<le> ?k" by (rule length_cstr)
  have "cstr (\<lambda>i. (?c @ 0 # tail @ drop (nat n) s) ! i) (nat n) = ?c"
    using cstr_nonzero [of t ?k] c k by (intro cstr_of_list) (auto simp: nth_append)
  moreover have l: "length (?c @ 0 # tail) = nat n" using t(2) c k(1) by simp
  moreover from l have "length ((?c @ 0 # tail) @ drop (nat n) s) = length s"
    using assms(2) by (simp only: length_append length_drop)
  moreover from l have "drop (nat n) ((?c @ 0 # tail) @ drop (nat n) s) = drop (nat n) s"
    by (simp only: drop_append) simp
  moreover have "(?c @ 0 # tail @ drop (nat n) s) ! length ?c = 0"
    by (simp add: nth_append)
  ultimately show ?thesis using t(1) by (metis append.assoc append_Cons)
qed

theorem safestrcpy_terminates_witness:
  "\<exists>s'. safestrcpy (replicate 16 1) (\<lambda>i. 65) 16 = Inr s' \<and> s' ! 15 = 0"
proof -
  have "cstr (\<lambda>i. 65) 15 = replicate 15 65"
    by (rule cstr_of_list) auto
  then show ?thesis
    using safestrcpy_terminates [of 16 "replicate 16 1" "\<lambda>i. 65"] by auto
qed

end
