(* ===== verification/Spinlock.thy ===== *)
theory Spinlock
  imports Kernel_Prelude
begin

section \<open>Spin locks and interrupt nesting (spinlock.c)\<close>

text \<open>
  \<open>pushcli\<close>/\<open>popcli\<close> on the state of one CPU, and \<open>acquire\<close>/\<open>release\<close> on a lock word and
  the CPU that executes them. Its index is the parameter \<open>me\<close>: what the search of \<open>mycpu\<close> for its
  APIC identifier in the table of CPUs finds, so that the panic for an unknown identifier is not a case
  here. The call-stack trace kept for debugging is left out. \<open>acquire\<close> is one step: spinning on a lock
  another CPU holds is the result \<open>Inl Diverges\<close>, the call does not return until that CPU releases it.

  The system is then any number of CPUs and locks, a step being one \<open>acquire\<close>, one
  \<open>release\<close> or one switch of the interrupt flag by a CPU outside all of its critical
  sections. The invariant ties the nesting counter of each CPU to the locks it holds; from
  it follow mutual exclusion and that the holder of a lock runs with interrupts off.

  \<open>take_lock\<close> and \<open>drop_lock\<close> are the view of one lock that a CPU has of its own
  critical sections (held by me, or free); the other components use them.
\<close>

record cpu =
  ncli :: int
  intena :: bool
  eflags_IF :: bool

record spinlock =
  locked :: bool
  lcpu :: "nat option"

definition initlock :: spinlock where
  "initlock = \<lparr>locked = False, lcpu = None\<rparr>"

definition mycpu :: "nat \<Rightarrow> cpu \<Rightarrow> nat res" where
  "mycpu me c = (if eflags_IF c then Inl (Panic ''mycpu called with interrupts enabled'') else Inr me)"

definition pushcli :: "nat \<Rightarrow> cpu \<Rightarrow> cpu res" where
  "pushcli me c =
     (let eflags = eflags_IF c;
          c = c\<lparr>eflags_IF := False\<rparr>
      in rbind (mycpu me c) (\<lambda>_.
         let c = (if ncli c = 0 then c\<lparr>intena := eflags\<rparr> else c)
         in Inr (c\<lparr>ncli := ncli c + 1\<rparr>)))"

definition popcli :: "nat \<Rightarrow> cpu \<Rightarrow> cpu res" where
  "popcli me c =
     (if eflags_IF c then Inl (Panic ''popcli - interruptible'')
      else rbind (mycpu me c) (\<lambda>_.
        let c = c\<lparr>ncli := ncli c - 1\<rparr>
        in if ncli c < 0 then Inl (Panic ''popcli'')
           else if ncli c = 0 \<and> intena c then Inr (c\<lparr>eflags_IF := True\<rparr>)
           else Inr c))"

definition holding :: "nat \<Rightarrow> spinlock \<Rightarrow> cpu \<Rightarrow> (bool \<times> cpu) res" where
  "holding me lk c =
     rbind (pushcli me c) (\<lambda>c.
     rbind (mycpu me c) (\<lambda>i.
     let r = (locked lk \<and> lcpu lk = Some i)
     in rbind (popcli me c) (\<lambda>c. Inr (r, c))))"

definition acquire :: "nat \<Rightarrow> spinlock \<Rightarrow> cpu \<Rightarrow> (spinlock \<times> cpu) res" where
  "acquire me lk c =
     rbind (pushcli me c) (\<lambda>c.
     rbind (holding me lk c) (\<lambda>(r, c).
     if r then Inl (Panic ''acquire'')
     else if locked lk then Inl Diverges
     else let lk = lk\<lparr>locked := True\<rparr>
          in rbind (mycpu me c) (\<lambda>i. Inr (lk\<lparr>lcpu := Some i\<rparr>, c))))"

definition release :: "nat \<Rightarrow> spinlock \<Rightarrow> cpu \<Rightarrow> (spinlock \<times> cpu) res" where
  "release me lk c =
     rbind (holding me lk c) (\<lambda>(r, c).
     if \<not> r then Inl (Panic ''release'')
     else let lk = lk\<lparr>lcpu := None\<rparr>;
              lk = lk\<lparr>locked := False\<rparr>
          in rbind (popcli me c) (\<lambda>c. Inr (lk, c)))"

subsection \<open>The view of the CPU that runs the critical section\<close>

definition take_lock :: "bool \<Rightarrow> bool res" where
  "take_lock held = (if held then Inl (Panic ''acquire'') else Inr True)"

definition drop_lock :: "bool \<Rightarrow> bool res" where
  "drop_lock held = (if held then Inr False else Inl (Panic ''release''))"

lemma take_lock_simps [simp]:
  "take_lock False = Inr True" "take_lock True = Inl (Panic ''acquire'')"
  "drop_lock True = Inr False" "drop_lock False = Inl (Panic ''release'')"
  by (simp_all add: take_lock_def drop_lock_def)

lemma take_lock_eq_Inr [res_simps]: "(take_lock h = Inr h') = (\<not> h \<and> h')"
  by (cases h; cases h') auto

lemma drop_lock_eq_Inr [res_simps]: "(drop_lock h = Inr h') = (h \<and> \<not> h')"
  by (cases h; cases h') auto

subsection \<open>Nesting\<close>

lemma pushcli_eq:
  "pushcli me c = Inr (c\<lparr>ncli := ncli c + 1, intena := (if ncli c = 0 then eflags_IF c else intena c),
     eflags_IF := False\<rparr>)"
  by (simp add: pushcli_def mycpu_def Let_def)

lemma holding_eq:
  "0 \<le> ncli c \<Longrightarrow> (0 < ncli c \<longrightarrow> \<not> eflags_IF c) \<Longrightarrow>
   holding me lk c = Inr (locked lk \<and> lcpu lk = Some me,
     c\<lparr>intena := (if ncli c = 0 then eflags_IF c else intena c)\<rparr>)"
  by (cases c) (auto simp: holding_def pushcli_eq popcli_def mycpu_def Let_def)

text \<open>A CPU state between two calls of the lock routines.\<close>

definition cpu_ok :: "cpu \<Rightarrow> bool" where
  "cpu_ok c = (0 \<le> ncli c \<and> (0 < ncli c \<longrightarrow> \<not> eflags_IF c))"

lemma acquire_free:
  assumes "cpu_ok c" and "\<not> locked lk"
  shows "acquire me lk c = Inr (lk\<lparr>locked := True, lcpu := Some me\<rparr>,
    c\<lparr>ncli := ncli c + 1, intena := (if ncli c = 0 then eflags_IF c else intena c), eflags_IF := False\<rparr>)"
  using assms by (cases c) (auto simp: acquire_def pushcli_eq holding_eq cpu_ok_def mycpu_def Let_def)

lemma acquire_again:
  "cpu_ok c \<Longrightarrow> locked lk \<Longrightarrow> lcpu lk = Some me \<Longrightarrow> acquire me lk c = Inl (Panic ''acquire'')"
  by (cases c) (auto simp: acquire_def pushcli_eq holding_eq cpu_ok_def)

lemma acquire_Inr:
  "acquire me lk c = Inr (lk', c') \<Longrightarrow> cpu_ok c \<Longrightarrow> \<not> locked lk"
  by (auto simp: acquire_def pushcli_eq holding_eq cpu_ok_def split: if_splits)

lemma release_held:
  assumes "cpu_ok c" and "0 < ncli c" and "locked lk" and "lcpu lk = Some me"
  shows "release me lk c = Inr (lk\<lparr>locked := False, lcpu := None\<rparr>,
    c\<lparr>ncli := ncli c - 1, eflags_IF := (ncli c = 1 \<and> intena c)\<rparr>)"
  using assms
  by (cases c) (auto simp: release_def holding_eq popcli_def cpu_ok_def mycpu_def Let_def)

lemma release_Inr:
  "release me lk c = Inr (lk', c') \<Longrightarrow> cpu_ok c \<Longrightarrow> locked lk \<and> lcpu lk = Some me"
  by (auto simp: release_def holding_eq cpu_ok_def split: if_splits)

subsection \<open>Many CPUs and locks\<close>

record machine =
  cpus :: "nat \<Rightarrow> cpu"
  locks :: "nat \<Rightarrow> spinlock"

inductive lock_step :: "machine \<Rightarrow> machine \<Rightarrow> bool" where
  step_acquire: "acquire i (locks s l) (cpus s i) = Inr (lk, c) \<Longrightarrow>
     lock_step s (s\<lparr>cpus := (cpus s)(i := c), locks := (locks s)(l := lk)\<rparr>)"
| step_release: "release i (locks s l) (cpus s i) = Inr (lk, c) \<Longrightarrow>
     lock_step s (s\<lparr>cpus := (cpus s)(i := c), locks := (locks s)(l := lk)\<rparr>)"
| step_flag: "ncli (cpus s i) = 0 \<Longrightarrow>
     lock_step s (s\<lparr>cpus := (cpus s)(i := (cpus s i)\<lparr>eflags_IF := b\<rparr>)\<rparr>)"

definition boot :: machine where
  "boot = \<lparr>cpus = (\<lambda>_. \<lparr>ncli = 0, intena = False, eflags_IF = False\<rparr>), locks = (\<lambda>_. initlock)\<rparr>"

inductive lock_reach :: "machine \<Rightarrow> bool" where
  reach_boot: "lock_reach boot"
| reach_step: "lock_reach s \<Longrightarrow> lock_step s t \<Longrightarrow> lock_reach t"

definition held_by :: "machine \<Rightarrow> nat \<Rightarrow> nat set" where
  "held_by s i = {l. locked (locks s l) \<and> lcpu (locks s l) = Some i}"

definition lock_inv :: "machine \<Rightarrow> bool" where
  "lock_inv s = (\<forall>i. cpu_ok (cpus s i) \<and> finite (held_by s i) \<and>
     ncli (cpus s i) = int (card (held_by s i)))"

lemma lock_inv_step:
  assumes "lock_step s t" and inv: "lock_inv s"
  shows "lock_inv t"
  using assms(1)
proof cases
  case (step_acquire i l lk c)
  have ok: "cpu_ok (cpus s i)" using inv by (simp add: lock_inv_def)
  with step_acquire(2) have free: "\<not> locked (locks s l)" by (rule acquire_Inr)
  have lk: "lk = (locks s l)\<lparr>locked := True, lcpu := Some i\<rparr>"
    and c: "ncli c = ncli (cpus s i) + 1" "\<not> eflags_IF c"
    using step_acquire(2) acquire_free [OF ok free] by auto
  have "held_by t j = (if j = i then insert l (held_by s i) else held_by s j)" for j
    using free by (auto simp: held_by_def step_acquire(1) lk)
  moreover have "l \<notin> held_by s i" using free by (simp add: held_by_def)
  ultimately show ?thesis
    using inv c by (auto simp: lock_inv_def step_acquire(1) cpu_ok_def)
next
  case (step_release i l lk c)
  have ok: "cpu_ok (cpus s i)" using inv by (simp add: lock_inv_def)
  with step_release(2) have own: "locked (locks s l)" "lcpu (locks s l) = Some i"
    by (auto dest: release_Inr)
  then have mem: "l \<in> held_by s i" by (simp add: held_by_def)
  then have pos: "0 < ncli (cpus s i)"
    using inv by (auto simp: lock_inv_def card_gt_0_iff)
  have lk: "lk = (locks s l)\<lparr>locked := False, lcpu := None\<rparr>"
    and c: "ncli c = ncli (cpus s i) - 1" "ncli c \<noteq> 0 \<longrightarrow> \<not> eflags_IF c"
    using step_release(2) release_held [OF ok pos own] by auto
  have "held_by t j = (if j = i then held_by s i - {l} else held_by s j)" for j
    using own by (auto simp: held_by_def step_release(1) lk)
  moreover have "int (card (held_by s i - {l})) = int (card (held_by s i)) - 1"
    using inv mem pos by (auto simp: lock_inv_def card_Diff_singleton)
  ultimately show ?thesis
    using inv c pos by (auto simp: lock_inv_def step_release(1) cpu_ok_def)
next
  case (step_flag i b)
  then have "held_by t j = held_by s j" for j by (simp add: held_by_def)
  then show ?thesis
    using inv step_flag by (auto simp: lock_inv_def cpu_ok_def)
qed

lemma lock_inv_reach: "lock_reach s \<Longrightarrow> lock_inv s"
proof (induction rule: lock_reach.induct)
  case reach_boot
  show ?case by (simp add: lock_inv_def boot_def held_by_def initlock_def cpu_ok_def)
next
  case (reach_step s t)
  then show ?case by (blast intro: lock_inv_step)
qed

subsection \<open>Properties\<close>

text \<open>
  C3. In every reachable state of the machine, the CPU that holds a lock runs with
  interrupts disabled, its nesting counter is the number of locks it holds, and a second
  attempt to acquire a lock it holds panics instead of spinning forever.
\<close>

theorem holder_not_interruptible:
  assumes "lock_reach s" and "locked (locks s l)" and "lcpu (locks s l) = Some i"
  shows "\<not> eflags_IF (cpus s i) \<and> ncli (cpus s i) = int (card (held_by s i)) \<and>
    acquire i (locks s l) (cpus s i) = Inl (Panic ''acquire'')"
proof -
  from assms(1) have inv: "lock_inv s" by (rule lock_inv_reach)
  have "l \<in> held_by s i" using assms by (simp add: held_by_def)
  with inv have "0 < ncli (cpus s i)" by (auto simp: lock_inv_def card_gt_0_iff)
  with inv assms show ?thesis
    by (auto simp: lock_inv_def cpu_ok_def intro: acquire_again)
qed

definition one_lock_taken :: machine where
  "one_lock_taken = boot\<lparr>cpus := (cpus boot)(0 := \<lparr>ncli = 1, intena = False, eflags_IF = False\<rparr>),
     locks := (locks boot)(7 := \<lparr>locked = True, lcpu = Some 0\<rparr>)\<rparr>"

lemma one_lock_taken_reach: "lock_reach one_lock_taken"
proof -
  have "acquire 0 (locks boot 7) (cpus boot 0) =
      Inr (\<lparr>locked = True, lcpu = Some 0\<rparr>, \<lparr>ncli = 1, intena = False, eflags_IF = False\<rparr>)"
    by (subst acquire_free) (simp_all add: boot_def initlock_def cpu_ok_def)
  from reach_step [OF reach_boot step_acquire [OF this]] show ?thesis
    by (simp add: one_lock_taken_def)
qed

theorem holder_not_interruptible_witness:
  "\<not> eflags_IF (cpus one_lock_taken 0) \<and>
    acquire 0 (locks one_lock_taken 7) (cpus one_lock_taken 0) = Inl (Panic ''acquire'')"
  using holder_not_interruptible [OF one_lock_taken_reach, of 7 0]
  by (simp add: one_lock_taken_def)

end
