(* ===== verification/List_Head.thy ===== *)
theory List_Head
  imports Kernel_Prelude
begin

section \<open>Intrusive doubly linked lists (list.h)\<close>

text \<open>
  The kernel keeps every process queue as a circular doubly linked list threaded through
  \<open>struct list_head\<close> members. The model keeps the pointers: a store maps the address of
  each \<open>list_head\<close> to its two links, and each operation of \<open>list.h\<close> performs the source's
  assignments in the source's order, failing where a null pointer is followed. The type
  variable \<open>'n\<close> is the type of addresses, chosen by the client.

  \<open>dlist lk h xs\<close> says that in the store \<open>lk\<close> the list whose head is at \<open>h\<close> holds the nodes
  \<open>xs\<close>, in order, with consistent back links. The lemmas show that every operation
  implements the list operation one expects under this abstraction and leaves every list
  that shares no node with it alone; the locale \<open>seq_store\<close> states that contract for
  the clients.
\<close>

record 'n list_head =
  prv :: "'n option"
  nxt :: "'n option"

type_synonym 'n lstore = "'n \<Rightarrow> 'n list_head"

subsection \<open>Operations\<close>

definition set_prv :: "'n \<Rightarrow> 'n option \<Rightarrow> 'n lstore \<Rightarrow> 'n lstore" where
  "set_prv a p lk = lk(a := (lk a)\<lparr>prv := p\<rparr>)"

definition set_nxt :: "'n \<Rightarrow> 'n option \<Rightarrow> 'n lstore \<Rightarrow> 'n lstore" where
  "set_nxt a p lk = lk(a := (lk a)\<lparr>nxt := p\<rparr>)"

definition list_head_init :: "'n \<Rightarrow> 'n lstore \<Rightarrow> 'n lstore" where
  "list_head_init l lk = set_prv l (Some l) (set_nxt l (Some l) lk)"

definition ll_list_add :: "'n \<Rightarrow> 'n option \<Rightarrow> 'n option \<Rightarrow> 'n lstore \<Rightarrow> 'n lstore res" where
  "ll_list_add new prev next lk =
     rbind (deref next) (\<lambda>n.
     let lk = set_prv n (Some new) lk;
         lk = set_nxt new next lk;
         lk = set_prv new prev lk
     in rbind (deref prev) (\<lambda>p. Inr (set_nxt p (Some new) lk)))"

definition list_add :: "'n \<Rightarrow> 'n \<Rightarrow> 'n lstore \<Rightarrow> 'n lstore res" where
  "list_add new head lk = ll_list_add new (Some head) (nxt (lk head)) lk"

definition list_add_tail :: "'n \<Rightarrow> 'n \<Rightarrow> 'n lstore \<Rightarrow> 'n lstore res" where
  "list_add_tail new head lk = ll_list_add new (prv (lk head)) (Some head) lk"

definition list_add_after :: "'n \<Rightarrow> 'n \<Rightarrow> 'n lstore \<Rightarrow> 'n lstore res" where
  "list_add_after new node lk = ll_list_add new (Some node) (nxt (lk node)) lk"

definition ll_list_del :: "'n option \<Rightarrow> 'n option \<Rightarrow> 'n lstore \<Rightarrow> 'n lstore res" where
  "ll_list_del prev next lk =
     rbind (deref prev) (\<lambda>p.
     let lk = set_nxt p next lk
     in rbind (deref next) (\<lambda>n. Inr (set_prv n prev lk)))"

definition ll_list_del_entry :: "'n \<Rightarrow> 'n lstore \<Rightarrow> 'n lstore res" where
  "ll_list_del_entry entry lk = ll_list_del (prv (lk entry)) (nxt (lk entry)) lk"

definition list_del :: "'n \<Rightarrow> 'n lstore \<Rightarrow> 'n lstore res" where
  "list_del entry lk =
     rbind (ll_list_del_entry entry lk) (\<lambda>lk.
     Inr (set_nxt entry None (set_prv entry None lk)))"

definition list_replace :: "'n \<Rightarrow> 'n \<Rightarrow> 'n lstore \<Rightarrow> 'n lstore res" where
  "list_replace old new lk =
     (let lk = set_nxt new (nxt (lk old)) lk
      in rbind (deref (nxt (lk new))) (\<lambda>n.
         let lk = set_prv n (Some new) lk;
             lk = set_prv new (prv (lk old)) lk
         in rbind (deref (prv (lk new))) (\<lambda>p. Inr (set_nxt p (Some new) lk))))"

definition list_empty :: "'n \<Rightarrow> 'n lstore \<Rightarrow> bool" where
  "list_empty head lk = (nxt (lk head) = Some head)"

definition list_is_first :: "'n \<Rightarrow> 'n \<Rightarrow> 'n lstore \<Rightarrow> bool" where
  "list_is_first l head lk = (prv (lk l) = Some head)"

definition list_is_last :: "'n \<Rightarrow> 'n \<Rightarrow> 'n lstore \<Rightarrow> bool" where
  "list_is_last l head lk = (nxt (lk l) = Some head)"

definition list_is_head :: "'n \<Rightarrow> 'n \<Rightarrow> bool" where
  "list_is_head l head = (l = head)"

definition list_bulk_move_tail :: "'n \<Rightarrow> 'n \<Rightarrow> 'n lstore \<Rightarrow> 'n lstore res" where
  "list_bulk_move_tail src dst lk =
     (if \<not> list_empty src lk then
        rbind (deref (prv (lk dst))) (\<lambda>dp.
        let lk = set_nxt dp (nxt (lk src)) lk in
        rbind (deref (nxt (lk src))) (\<lambda>sn.
        let lk = set_prv sn (prv (lk dst)) lk in
        rbind (deref (prv (lk src))) (\<lambda>sp.
        let lk = set_nxt sp (Some dst) lk;
            lk = set_prv dst (prv (lk src)) lk;
            lk = set_nxt src (Some src) lk
        in Inr (set_prv src (Some src) lk))))
      else Inr lk)"

text \<open>
  The iteration \<open>for(itr = head->next; itr != head; itr = itr->next)\<close>, as the list of nodes
  it visits. The fuel bounds the number of steps; a loop that has not come back to \<open>stop\<close> by
  then does not end on a store with fewer nodes.
\<close>

fun walk :: "nat \<Rightarrow> 'n \<Rightarrow> 'n option \<Rightarrow> 'n lstore \<Rightarrow> 'n list res" where
  "walk 0 stop itr lk = Inl Diverges"
| "walk (Suc fuel) stop itr lk =
     rbind (deref itr) (\<lambda>i.
     if i = stop then Inr []
     else rbind (walk fuel stop (nxt (lk i)) lk) (\<lambda>ns. Inr (i # ns)))"

subsection \<open>Segments and lists\<close>

primrec dseg :: "'n lstore \<Rightarrow> 'n \<Rightarrow> 'n list \<Rightarrow> 'n \<Rightarrow> bool" where
  "dseg lk a [] b = (nxt (lk a) = Some b \<and> prv (lk b) = Some a)"
| "dseg lk a (x # xs) b = (nxt (lk a) = Some x \<and> prv (lk x) = Some a \<and> dseg lk x xs b)"

definition dlist :: "'n lstore \<Rightarrow> 'n \<Rightarrow> 'n list \<Rightarrow> bool" where
  "dlist lk h xs = (distinct (h # xs) \<and> dseg lk h xs h)"

named_theorems link_simps \<open>unfolding of the single-link updates\<close>

lemmas link_updates [link_simps] = set_prv_def set_nxt_def

lemma set_link_fields [simp]:
  "nxt (set_prv a p lk n) = nxt (lk n)"
  "prv (set_nxt a p lk n) = prv (lk n)"
  "prv (set_prv a p lk n) = (if n = a then p else prv (lk n))"
  "nxt (set_nxt a p lk n) = (if n = a then p else nxt (lk n))"
  by (simp_all add: link_simps)

lemma dseg_append [simp]:
  "dseg lk a (xs @ x # ys) b = (dseg lk a xs x \<and> dseg lk x ys b)"
  by (induction xs arbitrary: a) auto

lemma dseg_cong:
  "(\<And>n. n \<in> set (a # xs) \<Longrightarrow> nxt (lk' n) = nxt (lk n)) \<Longrightarrow>
   (\<And>n. n \<in> set (b # xs) \<Longrightarrow> prv (lk' n) = prv (lk n)) \<Longrightarrow>
   dseg lk' a xs b = dseg lk a xs b"
  by (induction xs arbitrary: a) auto

lemma dseg_set_nxt [simp]: "n \<notin> set (a # xs) \<Longrightarrow> dseg (set_nxt n p lk) a xs b = dseg lk a xs b"
  by (rule dseg_cong) auto

lemma dseg_set_prv [simp]: "n \<notin> set (b # xs) \<Longrightarrow> dseg (set_prv n p lk) a xs b = dseg lk a xs b"
  by (rule dseg_cong) auto

lemma dlist_cong:
  "(\<And>n. n \<in> set (h # xs) \<Longrightarrow> lk' n = lk n) \<Longrightarrow> dlist lk' h xs = dlist lk h xs"
proof -
  assume "\<And>n. n \<in> set (h # xs) \<Longrightarrow> lk' n = lk n"
  then have "dseg lk' h xs h = dseg lk h xs h"
    by (intro dseg_cong) auto
  then show ?thesis by (simp add: dlist_def)
qed

lemma dseg_first: "dseg lk a xs b \<Longrightarrow> nxt (lk a) = Some (hd (xs @ [b]))"
  by (cases xs) auto

lemma dseg_last: "dseg lk a xs b \<Longrightarrow> prv (lk b) = Some (last (a # xs))"
  by (induction xs arbitrary: a) auto

lemma dseg_unique:
  "dseg lk a xs b \<Longrightarrow> dseg lk a ys b \<Longrightarrow> b \<notin> set xs \<Longrightarrow> b \<notin> set ys \<Longrightarrow> xs = ys"
proof (induction xs arbitrary: a ys)
  case Nil
  then show ?case by (cases ys) auto
next
  case (Cons x xs)
  then show ?case by (cases ys) auto
qed

lemma dlist_unique: "dlist lk h xs \<Longrightarrow> dlist lk h ys \<Longrightarrow> xs = ys"
  by (auto simp: dlist_def intro: dseg_unique)

lemma dlist_next: "dlist lk h xs \<Longrightarrow> nxt (lk h) = Some (hd (xs @ [h]))"
  by (auto simp: dlist_def dest: dseg_first)

lemma dlist_prev: "dlist lk h xs \<Longrightarrow> prv (lk h) = Some (last (h # xs))"
  unfolding dlist_def by (blast dest: dseg_last)

lemma dlist_empty_iff: "dlist lk h xs \<Longrightarrow> list_empty h lk \<longleftrightarrow> xs = []"
  by (cases xs) (auto simp: list_empty_def dlist_def)

text \<open>A circular list can be read from any of its nodes.\<close>

lemma dlist_rotate: "dlist lk h (xs @ x # ys) \<longleftrightarrow> dlist lk x (ys @ h # xs)"
  by (auto simp: dlist_def)

lemma dlist_split_links:
  assumes "dlist lk h (xs @ x # ys)"
  shows "prv (lk x) = Some (last (h # xs))" and "nxt (lk x) = Some (hd (ys @ [h]))"
proof -
  from assms have "dseg lk h xs x" and "dseg lk x ys h"
    by (simp_all add: dlist_def)
  then show "prv (lk x) = Some (last (h # xs))" and "nxt (lk x) = Some (hd (ys @ [h]))"
    by (blast dest: dseg_last dseg_first)+
qed

lemma walk_dseg:
  "dseg lk a xs b \<Longrightarrow> b \<notin> set xs \<Longrightarrow> length xs < fuel \<Longrightarrow> walk fuel b (nxt (lk a)) lk = Inr xs"
proof (induction xs arbitrary: a fuel)
  case Nil
  then show ?case by (cases fuel) auto
next
  case (Cons x xs)
  then show ?case by (cases fuel) auto
qed

lemma walk_dlist: "dlist lk h xs \<Longrightarrow> length xs < fuel \<Longrightarrow> walk fuel h (nxt (lk h)) lk = Inr xs"
  by (simp add: dlist_def walk_dseg)

subsection \<open>What each operation does to a list\<close>

text \<open>
  The frame of an operation on the list at \<open>h\<close> with nodes \<open>xs\<close>: no node outside of it is
  written.
\<close>

definition same_outside :: "'n set \<Rightarrow> 'n lstore \<Rightarrow> 'n lstore \<Rightarrow> bool" where
  "same_outside A lk lk' = (\<forall>n. n \<notin> A \<longrightarrow> lk' n = lk n)"

lemma same_outsideI [intro]: "(\<And>n. n \<notin> A \<Longrightarrow> lk' n = lk n) \<Longrightarrow> same_outside A lk lk'"
  by (simp add: same_outside_def)

lemma same_outsideD: "same_outside A lk lk' \<Longrightarrow> n \<notin> A \<Longrightarrow> lk' n = lk n"
  by (simp add: same_outside_def)

lemma same_outside_trans:
  "same_outside A lk lk' \<Longrightarrow> same_outside B lk' lk'' \<Longrightarrow> same_outside (A \<union> B) lk lk''"
  by (auto simp: same_outside_def)

lemma dlist_frame:
  "dlist lk k zs \<Longrightarrow> same_outside A lk lk' \<Longrightarrow> set (k # zs) \<inter> A = {} \<Longrightarrow> dlist lk' k zs"
  by (subst dlist_cong [of k zs lk' lk]) (auto dest: same_outsideD)

lemma dlists_kept:
  "same_outside A lk lk' \<Longrightarrow> \<forall>k zs. dlist lk k zs \<longrightarrow> set (k # zs) \<inter> A = {} \<longrightarrow> dlist lk' k zs"
  by (blast intro: dlist_frame)

definition link_in :: "'n \<Rightarrow> 'n \<Rightarrow> 'n \<Rightarrow> 'n lstore \<Rightarrow> 'n lstore" where
  "link_in x p n lk =
     set_nxt p (Some x) (set_prv x (Some p) (set_nxt x (Some n) (set_prv n (Some x) lk)))"

lemma ll_list_add_eq: "ll_list_add x (Some p) (Some n) lk = Inr (link_in x p n lk)"
  by (simp add: ll_list_add_def link_in_def Let_def)

lemma link_in_outside: "z \<noteq> x \<Longrightarrow> z \<noteq> p \<Longrightarrow> z \<noteq> n \<Longrightarrow> link_in x p n lk z = lk z"
  by (simp add: link_in_def link_simps)

lemma dseg_link_in:
  assumes "dseg lk a (xs @ ys) b" and "distinct (xs @ ys)" and "x \<notin> set (a # b # xs @ ys)"
    and "a \<notin> set (xs @ ys)" and "b \<notin> set (xs @ ys)"
  shows "dseg (link_in x (last (a # xs)) (hd (ys @ [b])) lk) a (xs @ x # ys) b"
  using assms
  by (cases xs rule: rev_cases; cases ys) (auto simp: link_in_def)

lemma dlist_link_in:
  assumes "dlist lk h (xs @ ys)" and "x \<notin> set (h # xs @ ys)"
  shows "dlist (link_in x (last (h # xs)) (hd (ys @ [h])) lk) h (xs @ x # ys)"
  using assms dseg_link_in [of lk h xs ys h x] by (auto simp: dlist_def)

lemma same_outside_link_in:
  "same_outside (set (h # x # xs @ ys)) lk (link_in x (last (h # xs)) (hd (ys @ [h])) lk)"
proof
  fix n assume n: "n \<notin> set (h # x # xs @ ys)"
  have "last (h # xs) \<in> set (h # xs)" and "hd (ys @ [h]) \<in> set (ys @ [h])"
    by (rule last_in_set, simp) (rule hd_in_set, simp)
  with n show "link_in x (last (h # xs)) (hd (ys @ [h])) lk n = lk n"
    by (intro link_in_outside) auto
qed

lemma list_add_dlist:
  assumes "dlist lk h xs" and "x \<notin> set (h # xs)"
  obtains lk' where "list_add x h lk = Inr lk'" and "dlist lk' h (x # xs)"
    and "same_outside (set (h # x # xs)) lk lk'"
proof
  show "list_add x h lk = Inr (link_in x h (hd (xs @ [h])) lk)"
    using assms(1) by (simp add: list_add_def dlist_next ll_list_add_eq)
  show "dlist (link_in x h (hd (xs @ [h])) lk) h (x # xs)"
    using dlist_link_in [of lk h "[]" xs x] assms by simp
  show "same_outside (set (h # x # xs)) lk (link_in x h (hd (xs @ [h])) lk)"
    using same_outside_link_in [of h x "[]" xs lk] by simp
qed

lemma list_add_tail_dlist:
  assumes "dlist lk h xs" and "x \<notin> set (h # xs)"
  obtains lk' where "list_add_tail x h lk = Inr lk'" and "dlist lk' h (xs @ [x])"
    and "same_outside (set (h # x # xs)) lk lk'"
proof
  show "list_add_tail x h lk = Inr (link_in x (last (h # xs)) h lk)"
    using assms(1) by (simp add: list_add_tail_def dlist_prev ll_list_add_eq)
  show "dlist (link_in x (last (h # xs)) h lk) h (xs @ [x])"
    using dlist_link_in [of lk h xs "[]" x] assms by simp
  show "same_outside (set (h # x # xs)) lk (link_in x (last (h # xs)) h lk)"
    using same_outside_link_in [of h x xs "[]" lk] by simp
qed

lemma list_add_after_dlist:
  assumes "dlist lk h (xs @ y # ys)" and "x \<notin> set (h # xs @ y # ys)"
  obtains lk' where "list_add_after x y lk = Inr lk'" and "dlist lk' h (xs @ y # x # ys)"
    and "same_outside (set (h # x # xs @ y # ys)) lk lk'"
proof
  show "list_add_after x y lk = Inr (link_in x y (hd (ys @ [h])) lk)"
    using assms(1) by (simp add: list_add_after_def dlist_split_links ll_list_add_eq)
  show "dlist (link_in x y (hd (ys @ [h])) lk) h (xs @ y # x # ys)"
    using dlist_link_in [of lk h "xs @ [y]" ys x] assms by simp
  show "same_outside (set (h # x # xs @ y # ys)) lk (link_in x y (hd (ys @ [h])) lk)"
    using same_outside_link_in [of h x "xs @ [y]" ys lk] by simp
qed

definition link_out :: "'n \<Rightarrow> 'n \<Rightarrow> 'n \<Rightarrow> 'n lstore \<Rightarrow> 'n lstore" where
  "link_out x p n lk =
     set_nxt x None (set_prv x None (set_prv n (Some p) (set_nxt p (Some n) lk)))"

lemma list_del_eq:
  "prv (lk x) = Some p \<Longrightarrow> nxt (lk x) = Some n \<Longrightarrow> list_del x lk = Inr (link_out x p n lk)"
  by (simp add: list_del_def ll_list_del_entry_def ll_list_del_def link_out_def Let_def)

lemma dseg_link_out:
  assumes "dseg lk a (xs @ x # ys) b" and "distinct (xs @ x # ys)"
    and "a \<notin> set (xs @ x # ys)" and "b \<notin> set (xs @ x # ys)"
  shows "dseg (link_out x (last (a # xs)) (hd (ys @ [b])) lk) a (xs @ ys) b"
  using assms
  by (cases xs rule: rev_cases; cases ys) (auto simp: link_out_def)

lemma list_del_dlist:
  assumes "dlist lk h (xs @ x # ys)"
  obtains lk' where "list_del x lk = Inr lk'" and "dlist lk' h (xs @ ys)"
    and "same_outside (set (h # xs @ x # ys)) lk lk'" and "prv (lk' x) = None" and "nxt (lk' x) = None"
proof
  let ?p = "last (h # xs)" and ?n = "hd (ys @ [h])"
  show "list_del x lk = Inr (link_out x ?p ?n lk)"
    using assms by (intro list_del_eq dlist_split_links)
  show "dlist (link_out x ?p ?n lk) h (xs @ ys)"
    using assms dseg_link_out [of lk h xs x ys h] by (auto simp: dlist_def)
  have "?p \<in> set (h # xs)" and "?n \<in> set (ys @ [h])"
    by (rule last_in_set, simp) (rule hd_in_set, simp)
  then show "same_outside (set (h # xs @ x # ys)) lk (link_out x ?p ?n lk)"
    by (intro same_outsideI) (auto simp: link_out_def link_simps)
  show "prv (link_out x ?p ?n lk x) = None" and "nxt (link_out x ?p ?n lk x) = None"
    by (simp_all add: link_out_def)
qed

lemma dseg_swap_end:
  assumes "dseg lk a xs b" and "distinct (a # xs)" and "c \<notin> set xs"
  shows "dseg (set_prv c (Some (last (a # xs))) (set_nxt (last (a # xs)) (Some c) lk)) a xs c"
  using assms by (cases xs rule: rev_cases) auto

lemma list_bulk_move_tail_dlist:
  assumes s: "dlist lk s xs" and d: "dlist lk d ys" and disj: "set (s # xs) \<inter> set (d # ys) = {}"
  obtains lk' where "list_bulk_move_tail s d lk = Inr lk'" and "dlist lk' s []"
    and "dlist lk' d (ys @ xs)" and "same_outside (set (s # xs) \<union> set (d # ys)) lk lk'"
proof (cases xs)
  case Nil
  with s d have "list_bulk_move_tail s d lk = Inr lk"
    by (simp add: list_bulk_move_tail_def dlist_empty_iff)
  with Nil s d show ?thesis by (intro that [of lk]) auto
next
  case (Cons f r)
  let ?l = "last (f # r)" and ?t = "last (d # ys)"
  let ?lk1 = "set_prv f (Some ?t) (set_nxt ?t (Some f) lk)"
  let ?lk2 = "set_prv d (Some ?l) (set_nxt ?l (Some d) ?lk1)"
  let ?lk3 = "set_prv s (Some s) (set_nxt s (Some s) ?lk2)"
  have l: "?l \<in> set (f # r)" and t: "?t \<in> set (d # ys)"
    by (rule last_in_set, simp)+
  have sn: "nxt (lk s) = Some f" and sp: "prv (lk s) = Some ?l" and dp: "prv (lk d) = Some ?t"
    using s d Cons by (auto simp: dlist_next dlist_prev)
  have ne: "?t \<noteq> s" "f \<noteq> s" "f \<noteq> d" "?l \<noteq> s" "s \<noteq> d" "?l \<notin> set (d # ys)"
    "d \<notin> set r" "?t \<notin> set (f # r)" "f \<notin> set (s # r)" "s \<notin> set (d # f # r @ ys)"
    using l t s disj Cons by (auto simp: dlist_def simp del: last.simps)
  show ?thesis
  proof
    show "list_bulk_move_tail s d lk = Inr ?lk3"
      using sn sp dp ne(1-5)
      by (simp add: list_bulk_move_tail_def list_empty_def Let_def del: last.simps)
    show "dlist ?lk3 s []" by (simp add: dlist_def)
    show "same_outside (set (s # xs) \<union> set (d # ys)) lk ?lk3"
      using l t Cons by (intro same_outsideI) (auto simp: link_simps simp del: last.simps)
    have "dseg ?lk1 d ys f"
      using d disj Cons by (intro dseg_swap_end [of _ _ _ d]) (auto simp: dlist_def)
    then have 1: "dseg ?lk2 d ys f"
      using ne d by (simp add: dlist_def del: last.simps)
    have "dseg ?lk1 f r s"
      using s Cons ne by (simp add: dlist_def del: last.simps)
    then have 2: "dseg ?lk2 f r d"
      using s Cons ne by (intro dseg_swap_end [of _ _ _ s]) (simp_all add: dlist_def del: last.simps)
    have "dseg ?lk3 d ys f \<and> dseg ?lk3 f r d"
      using 1 2 ne by (simp del: last.simps)
    then show "dlist ?lk3 d (ys @ xs)"
      using s d disj Cons by (auto simp: dlist_def)
  qed
qed

subsection \<open>The contract of the list operations\<close>

text \<open>
  What the clients of \<open>list.h\<close> rely on, as a locale: each operation succeeds on a
  well-formed list, has the expected effect on its sequence, and leaves every list with no
  common node unchanged. The lemmas inside are the combinations the process table uses:
  a loop of insertions, moving a node from one queue to another, taking back an insertion.
\<close>

locale seq_store =
  fixes rep :: "'s \<Rightarrow> 'n \<Rightarrow> 'n list \<Rightarrow> bool"
    and add :: "'n \<Rightarrow> 'n \<Rightarrow> 's \<Rightarrow> 's res"
    and add_tail :: "'n \<Rightarrow> 'n \<Rightarrow> 's \<Rightarrow> 's res"
    and del :: "'n \<Rightarrow> 's \<Rightarrow> 's res"
    and bulk_move :: "'n \<Rightarrow> 'n \<Rightarrow> 's \<Rightarrow> 's res"
  assumes rep_distinct: "rep s h xs \<Longrightarrow> distinct (h # xs)"
    and rep_add: "rep s h xs \<Longrightarrow> x \<notin> set (h # xs) \<Longrightarrow>
      \<exists>s'. add x h s = Inr s' \<and> rep s' h (x # xs) \<and>
        (\<forall>k zs. rep s k zs \<longrightarrow> set (k # zs) \<inter> set (h # x # xs) = {} \<longrightarrow> rep s' k zs)"
    and rep_add_tail: "rep s h xs \<Longrightarrow> x \<notin> set (h # xs) \<Longrightarrow>
      \<exists>s'. add_tail x h s = Inr s' \<and> rep s' h (xs @ [x]) \<and>
        (\<forall>k zs. rep s k zs \<longrightarrow> set (k # zs) \<inter> set (h # x # xs) = {} \<longrightarrow> rep s' k zs)"
    and rep_del: "rep s h (xs @ x # ys) \<Longrightarrow>
      \<exists>s'. del x s = Inr s' \<and> rep s' h (xs @ ys) \<and>
        (\<forall>k zs. rep s k zs \<longrightarrow> set (k # zs) \<inter> set (h # xs @ x # ys) = {} \<longrightarrow> rep s' k zs)"
    and rep_bulk_move: "rep s h xs \<Longrightarrow> rep s k ys \<Longrightarrow> set (h # xs) \<inter> set (k # ys) = {} \<Longrightarrow>
      \<exists>s'. bulk_move h k s = Inr s' \<and> rep s' h [] \<and> rep s' k (ys @ xs) \<and>
        (\<forall>j zs. rep s j zs \<longrightarrow> set (j # zs) \<inter> (set (h # xs) \<union> set (k # ys)) = {} \<longrightarrow> rep s' j zs)"
begin

lemma add_tail_all:
  "rep s h xs \<Longrightarrow> distinct (h # xs @ ns) \<Longrightarrow>
   \<exists>s'. rfold (\<lambda>x. add_tail x h) ns s = Inr s' \<and> rep s' h (xs @ ns) \<and>
     (\<forall>k zs. rep s k zs \<longrightarrow> set (k # zs) \<inter> set (h # xs @ ns) = {} \<longrightarrow> rep s' k zs)"
proof (induction ns arbitrary: s xs)
  case Nil
  then show ?case by auto
next
  case (Cons n ns)
  then obtain s1 where s1: "add_tail n h s = Inr s1" "rep s1 h (xs @ [n])"
    "\<And>k zs. rep s k zs \<Longrightarrow> set (k # zs) \<inter> set (h # n # xs) = {} \<Longrightarrow> rep s1 k zs"
    using rep_add_tail [of s h xs n] by auto
  from Cons.IH [OF s1(2)] Cons.prems(2) obtain s2 where s2:
    "rfold (\<lambda>x. add_tail x h) ns s1 = Inr s2" "rep s2 h (xs @ n # ns)"
    "\<And>k zs. rep s1 k zs \<Longrightarrow> set (k # zs) \<inter> set (h # xs @ n # ns) = {} \<Longrightarrow> rep s2 k zs"
    by auto
  have "rep s2 k zs" if "rep s k zs" "set (k # zs) \<inter> set (h # xs @ n # ns) = {}" for k zs
    using that by (intro s2(3) s1(3)) auto
  with s1(1) s2(1,2) show ?case by auto
qed

lemma add_del: "rep s h xs \<Longrightarrow> x \<notin> set (h # xs) \<Longrightarrow> \<exists>s1 s2. add x h s = Inr s1 \<and> del x s1 = Inr s2 \<and> rep s2 h xs"
  using rep_add [of s h xs x] rep_del [of _ h "[]" x xs] by fastforce

lemma requeue:
  assumes "rep s h (xs @ x # ys)" and "rep s k zs" and "set (h # xs @ x # ys) \<inter> set (k # zs) = {}"
  shows "\<exists>s1 s2. del x s = Inr s1 \<and> add_tail x k s1 = Inr s2 \<and>
    rep s2 h (xs @ ys) \<and> rep s2 k (zs @ [x])"
proof -
  from rep_del [OF assms(1)] obtain s1 where s1: "del x s = Inr s1" "rep s1 h (xs @ ys)"
    "\<And>j ws. rep s j ws \<Longrightarrow> set (j # ws) \<inter> set (h # xs @ x # ys) = {} \<Longrightarrow> rep s1 j ws" by auto
  have k: "rep s1 k zs" using assms by (intro s1(3)) auto
  have x: "x \<notin> set (k # zs)" using assms(3) by auto
  from rep_add_tail [OF k x] obtain s2 where s2: "add_tail x k s1 = Inr s2" "rep s2 k (zs @ [x])"
    "\<And>j ws. rep s1 j ws \<Longrightarrow> set (j # ws) \<inter> set (k # x # zs) = {} \<Longrightarrow> rep s2 j ws" by auto
  have "rep s2 h (xs @ ys)"
    using s1(2) rep_distinct [OF assms(1)] assms(3) by (intro s2(3)) auto
  with s1(1) s2(1,2) show ?thesis by auto
qed

end

interpretation lh: seq_store dlist list_add list_add_tail list_del list_bulk_move_tail
proof unfold_locales
  fix lk h and xs :: "'a list" assume "dlist lk h xs"
  then show "distinct (h # xs)" by (simp add: dlist_def)
next
  fix lk h x and xs :: "'a list" assume a: "dlist lk h xs" "x \<notin> set (h # xs)"
  show "\<exists>s'. list_add x h lk = Inr s' \<and> dlist s' h (x # xs) \<and>
    (\<forall>k zs. dlist lk k zs \<longrightarrow> set (k # zs) \<inter> set (h # x # xs) = {} \<longrightarrow> dlist s' k zs)"
    using a by (rule list_add_dlist) (blast dest: dlists_kept)
  show "\<exists>s'. list_add_tail x h lk = Inr s' \<and> dlist s' h (xs @ [x]) \<and>
    (\<forall>k zs. dlist lk k zs \<longrightarrow> set (k # zs) \<inter> set (h # x # xs) = {} \<longrightarrow> dlist s' k zs)"
    using a by (rule list_add_tail_dlist) (blast dest: dlists_kept)
next
  fix lk h x and xs ys :: "'a list" assume a: "dlist lk h (xs @ x # ys)"
  show "\<exists>s'. list_del x lk = Inr s' \<and> dlist s' h (xs @ ys) \<and>
    (\<forall>k zs. dlist lk k zs \<longrightarrow> set (k # zs) \<inter> set (h # xs @ x # ys) = {} \<longrightarrow> dlist s' k zs)"
    using a by (rule list_del_dlist) (blast dest: dlists_kept)
next
  fix lk h k and xs ys :: "'a list"
  assume a: "dlist lk h xs" "dlist lk k ys" "set (h # xs) \<inter> set (k # ys) = {}"
  show "\<exists>s'. list_bulk_move_tail h k lk = Inr s' \<and> dlist s' h [] \<and> dlist s' k (ys @ xs) \<and>
    (\<forall>j zs. dlist lk j zs \<longrightarrow> set (j # zs) \<inter> (set (h # xs) \<union> set (k # ys)) = {} \<longrightarrow> dlist s' j zs)"
    using a by (rule list_bulk_move_tail_dlist) (blast dest: dlists_kept)
qed

subsection \<open>All lists of a store at once\<close>

text \<open>
  A store seen as a map from list heads to sequences: \<open>lists lk L\<close> says that every head in the
  domain of \<open>L\<close> is a circular list with the given nodes and that no node is on two of
  them. The operations refine updates of the map.
\<close>

definition lists :: "'n lstore \<Rightarrow> ('n \<Rightarrow> 'n list option) \<Rightarrow> bool" where
  "lists lk L \<longleftrightarrow> (\<forall>h xs. L h = Some xs \<longrightarrow> dlist lk h xs) \<and>
     (\<forall>h xs k ys. L h = Some xs \<longrightarrow> L k = Some ys \<longrightarrow> h \<noteq> k \<longrightarrow> set (h # xs) \<inter> set (k # ys) = {})"

definition fresh_node :: "('n \<Rightarrow> 'n list option) \<Rightarrow> 'n \<Rightarrow> bool" where
  "fresh_node L x = (\<forall>h xs. L h = Some xs \<longrightarrow> x \<notin> set (h # xs))"

lemma listsD: "lists lk L \<Longrightarrow> L h = Some xs \<Longrightarrow> dlist lk h xs"
  by (simp add: lists_def)

lemma lists_disjoint:
  "lists lk L \<Longrightarrow> L h = Some xs \<Longrightarrow> L k = Some ys \<Longrightarrow> h \<noteq> k \<Longrightarrow> set (h # xs) \<inter> set (k # ys) = {}"
  unfolding lists_def by blast

lemma lists_distinct: "lists lk L \<Longrightarrow> L h = Some xs \<Longrightarrow> distinct (h # xs)"
  using listsD [of lk L h xs] by (simp add: dlist_def)

lemma lists_update:
  assumes "lists lk L" and "dlist lk' h ys" and "same_outside A lk lk'"
    and "\<And>k zs. L k = Some zs \<Longrightarrow> k \<noteq> h \<Longrightarrow> set (k # zs) \<inter> (A \<union> set (h # ys)) = {}"
  shows "lists lk' (L(h \<mapsto> ys))"
proof -
  have 1: "dlist lk' k zs" if "(L(h \<mapsto> ys)) k = Some zs" for k zs
  proof (cases "k = h")
    case True
    with that assms(2) show ?thesis by simp
  next
    case False
    with that have "L k = Some zs" by simp
    with False assms(4) [OF this False] show ?thesis
      using dlist_frame [OF listsD [OF assms(1)] assms(3), of k zs] by blast
  qed
  have 2: "set (j # xs) \<inter> set (k # zs) = {}"
    if "(L(h \<mapsto> ys)) j = Some xs" "(L(h \<mapsto> ys)) k = Some zs" "j \<noteq> k" for j xs k zs
    using that assms(4) [of k zs] assms(4) [of j xs] lists_disjoint [OF assms(1), of j xs k zs]
    by (auto split: if_splits)
  show ?thesis unfolding lists_def using 1 2 by blast
qed

lemma lists_add:
  assumes "lists lk L" and "L h = Some xs" and "fresh_node L x"
  obtains lk' where "list_add x h lk = Inr lk'" and "lists lk' (L(h \<mapsto> x # xs))"
    and "same_outside (set (h # x # xs)) lk lk'"
proof -
  have x: "x \<notin> set (h # xs)" using assms(2,3) unfolding fresh_node_def by blast
  obtain lk' where l: "list_add x h lk = Inr lk'" "dlist lk' h (x # xs)"
    "same_outside (set (h # x # xs)) lk lk'"
    using listsD [OF assms(1,2)] x by (rule list_add_dlist)
  have "lists lk' (L(h \<mapsto> x # xs))"
  proof (rule lists_update [OF assms(1) l(2,3)])
    fix k zs assume k: "L k = Some zs" "k \<noteq> h"
    have "x \<notin> set (k # zs)" using assms(3) k(1) unfolding fresh_node_def by blast
    with lists_disjoint [OF assms(1) k(1) assms(2) k(2)]
    show "set (k # zs) \<inter> (set (h # x # xs) \<union> set (h # x # xs)) = {}" by auto
  qed
  with l that show thesis by blast
qed

lemma lists_add_tail:
  assumes "lists lk L" and "L h = Some xs" and "fresh_node L x"
  obtains lk' where "list_add_tail x h lk = Inr lk'" and "lists lk' (L(h \<mapsto> xs @ [x]))"
    and "same_outside (set (h # x # xs)) lk lk'"
proof -
  have x: "x \<notin> set (h # xs)" using assms(2,3) unfolding fresh_node_def by blast
  obtain lk' where l: "list_add_tail x h lk = Inr lk'" "dlist lk' h (xs @ [x])"
    "same_outside (set (h # x # xs)) lk lk'"
    using listsD [OF assms(1,2)] x by (rule list_add_tail_dlist)
  have "lists lk' (L(h \<mapsto> xs @ [x]))"
  proof (rule lists_update [OF assms(1) l(2,3)])
    fix k zs assume k: "L k = Some zs" "k \<noteq> h"
    have "x \<notin> set (k # zs)" using assms(3) k(1) unfolding fresh_node_def by blast
    with lists_disjoint [OF assms(1) k(1) assms(2) k(2)]
    show "set (k # zs) \<inter> (set (h # x # xs) \<union> set (h # xs @ [x])) = {}" by auto
  qed
  with l that show thesis by blast
qed

lemma lists_add_after:
  assumes "lists lk L" and "L h = Some (xs @ y # ys)" and "fresh_node L x"
  obtains lk' where "list_add_after x y lk = Inr lk'" and "lists lk' (L(h \<mapsto> xs @ y # x # ys))"
    and "same_outside (set (h # x # xs @ y # ys)) lk lk'"
proof -
  have x: "x \<notin> set (h # xs @ y # ys)" using assms(2,3) unfolding fresh_node_def by blast
  obtain lk' where l: "list_add_after x y lk = Inr lk'" "dlist lk' h (xs @ y # x # ys)"
    "same_outside (set (h # x # xs @ y # ys)) lk lk'"
    using listsD [OF assms(1,2)] x by (rule list_add_after_dlist)
  have "lists lk' (L(h \<mapsto> xs @ y # x # ys))"
  proof (rule lists_update [OF assms(1) l(2,3)])
    fix k zs assume k: "L k = Some zs" "k \<noteq> h"
    have "x \<notin> set (k # zs)" using assms(3) k(1) unfolding fresh_node_def by blast
    with lists_disjoint [OF assms(1) k(1) assms(2) k(2)]
    show "set (k # zs) \<inter> (set (h # x # xs @ y # ys) \<union> set (h # xs @ y # x # ys)) = {}" by auto
  qed
  with l that show thesis by blast
qed

lemma lists_del:
  assumes "lists lk L" and "L h = Some (xs @ x # ys)"
  obtains lk' where "list_del x lk = Inr lk'" and "lists lk' (L(h \<mapsto> xs @ ys))"
    and "same_outside (set (h # xs @ x # ys)) lk lk'" and "fresh_node (L(h \<mapsto> xs @ ys)) x"
proof -
  obtain lk' where l: "list_del x lk = Inr lk'" "dlist lk' h (xs @ ys)"
    "same_outside (set (h # xs @ x # ys)) lk lk'"
    using listsD [OF assms] by (rule list_del_dlist)
  have disj: "set (k # zs) \<inter> set (h # xs @ x # ys) = {}" if "L k = Some zs" "k \<noteq> h" for k zs
    using lists_disjoint [OF assms(1) that(1) assms(2) that(2)] .
  have "lists lk' (L(h \<mapsto> xs @ ys))"
    using disj by (intro lists_update [OF assms(1) l(2,3)]) fastforce
  moreover have "fresh_node (L(h \<mapsto> xs @ ys)) x"
    using disj lists_distinct [OF assms] by (auto simp: fresh_node_def)
  ultimately show thesis using l that by blast
qed

lemma lists_bulk_move:
  assumes "lists lk L" and "L h = Some xs" and "L k = Some ys" and "h \<noteq> k"
  obtains lk' where "list_bulk_move_tail h k lk = Inr lk'" and "lists lk' (L(h \<mapsto> [], k \<mapsto> ys @ xs))"
    and "same_outside (set (h # xs) \<union> set (k # ys)) lk lk'"
proof -
  obtain lk' where l: "list_bulk_move_tail h k lk = Inr lk'" "dlist lk' h []" "dlist lk' k (ys @ xs)"
    "same_outside (set (h # xs) \<union> set (k # ys)) lk lk'"
    using listsD [OF assms(1,2)] listsD [OF assms(1,3)] lists_disjoint [OF assms(1-4)]
    by (rule list_bulk_move_tail_dlist)
  have disj: "set (j # zs) \<inter> (set (h # xs) \<union> set (k # ys)) = {}" if "L j = Some zs" "j \<noteq> h" "j \<noteq> k" for j zs
    using lists_disjoint [OF assms(1) that(1) assms(2) that(2)]
      lists_disjoint [OF assms(1) that(1) assms(3) that(3)] by blast
  let ?L = "L(h \<mapsto> [], k \<mapsto> ys @ xs)"
  have 1: "dlist lk' j zs" if "?L j = Some zs" for j zs
    using that l(2,3) disj [of j zs] dlist_frame [OF listsD [OF assms(1), of j zs] l(4)] assms(4)
    by (auto split: if_splits)
  have 2: "set (i # xs') \<inter> set (j # zs) = {}" if "?L i = Some xs'" "?L j = Some zs" "i \<noteq> j" for i xs' j zs
    using that disj [of i xs'] disj [of j zs] lists_disjoint [OF assms(1), of i xs' j zs]
      lists_disjoint [OF assms(1-4)] lists_distinct [OF assms(1,2)] lists_distinct [OF assms(1,3)]
    by (auto split: if_splits)
  have "lists lk' ?L" unfolding lists_def using 1 2 by blast
  with l that show thesis by blast
qed

lemma lists_init:
  assumes "lists lk L" and "fresh_node L h"
  shows "lists (list_head_init h lk) (L(h \<mapsto> []))"
proof (rule lists_update [OF assms(1), of _ _ _ "{h}"])
  show "dlist (list_head_init h lk) h []" by (simp add: dlist_def list_head_init_def)
  show "same_outside {h} lk (list_head_init h lk)" by (simp add: same_outside_def list_head_init_def link_simps)
  fix k zs assume "L k = Some zs"
  with assms(2) have "h \<notin> set (k # zs)" unfolding fresh_node_def by blast
  then show "set (k # zs) \<inter> ({h} \<union> set [h]) = {}" by auto
qed

end
