(* ===== verification/Kalloc.thy ===== *)
theory Kalloc
  imports Cstring Spinlock
begin

section \<open>The physical page allocator (kalloc.c)\<close>

text \<open>
  The allocator keeps its free list inside the free pages: the first word of a free page
  is the address of the next one. The model keeps that: the state has the memory (at
  kernel virtual addresses), the head of the list and the lock, and \<open>kalloc\<close> and \<open>kfree\<close>
  read and write the link in memory. \<open>kend\<close> is the linker's symbol \<open>end\<close>.

  \<open>free_list s ps\<close> says that the chain starting at the head runs through exactly the pages
  \<open>ps\<close>. The locale \<open>page_allocator\<close> is the contract the rest of the kernel relies on: an
  allocated page is not free, does not overlap a page allocated before, and can be given
  back; the lemmas inside are about sequences of allocations.
\<close>

abbreviation PGSIZE :: u32 where "PGSIZE \<equiv> 4096"
abbreviation KERNBASE :: u32 where "KERNBASE \<equiv> 0x80000000"
abbreviation PHYSTOP :: u32 where "PHYSTOP \<equiv> 0xE000000"

definition V2P :: "u32 \<Rightarrow> u32" where
  "V2P a = a - KERNBASE"

definition P2V :: "u32 \<Rightarrow> u32" where
  "P2V a = a + KERNBASE"

definition PGROUNDUP :: "u32 \<Rightarrow> u32" where
  "PGROUNDUP sz = (sz + PGSIZE - 1) AND NOT (PGSIZE - 1)"

definition PGROUNDDOWN :: "u32 \<Rightarrow> u32" where
  "PGROUNDDOWN a = a AND NOT (PGSIZE - 1)"

record kmem =
  pmem :: mem
  freelist :: u32
  use_lock :: bool
  kmem_lock :: bool
  kend :: u32

definition kmem_acquire :: "'a kmem_scheme \<Rightarrow> 'a kmem_scheme res" where
  "kmem_acquire s = (if use_lock s then rbind (take_lock (kmem_lock s)) (\<lambda>l. Inr (s\<lparr>kmem_lock := l\<rparr>)) else Inr s)"

definition kmem_release :: "'a kmem_scheme \<Rightarrow> 'a kmem_scheme res" where
  "kmem_release s = (if use_lock s then rbind (drop_lock (kmem_lock s)) (\<lambda>l. Inr (s\<lparr>kmem_lock := l\<rparr>)) else Inr s)"

definition kfree :: "u32 \<Rightarrow> 'a kmem_scheme \<Rightarrow> 'a kmem_scheme res" where
  "kfree v s =
     (if v mod PGSIZE \<noteq> 0 \<or> v < kend s \<or> V2P v \<ge> PHYSTOP then Inl (Panic ''kfree'')
      else let s = s\<lparr>pmem := memset v 1 PGSIZE (pmem s)\<rparr>
           in rbind (kmem_acquire s) (\<lambda>s.
              let s = s\<lparr>pmem := write32 v (freelist s) (pmem s)\<rparr>;
                  s = s\<lparr>freelist := v\<rparr>
              in kmem_release s))"

definition kalloc :: "'a kmem_scheme \<Rightarrow> (u32 \<times> 'a kmem_scheme) res" where
  "kalloc s =
     rbind (kmem_acquire s) (\<lambda>s.
     let r = freelist s;
         s = (if r \<noteq> 0 then s\<lparr>freelist := read32 r (pmem s)\<rparr> else s)
     in rbind (kmem_release s) (\<lambda>s. Inr (r, s)))"

text \<open>\<open>freerange\<close>: the loop runs over the whole pages of the region.\<close>

fun freerange_from :: "nat \<Rightarrow> u32 \<Rightarrow> u32 \<Rightarrow> 'a kmem_scheme \<Rightarrow> 'a kmem_scheme res" where
  "freerange_from 0 p vend s = Inl Diverges"
| "freerange_from (Suc fuel) p vend s =
     (if p + PGSIZE \<le> vend then rbind (kfree p s) (freerange_from fuel (p + PGSIZE) vend)
      else Inr s)"

definition freerange :: "u32 \<Rightarrow> u32 \<Rightarrow> 'a kmem_scheme \<Rightarrow> 'a kmem_scheme res" where
  "freerange vstart vend s = freerange_from (2 ^ 20 + 1) (PGROUNDUP vstart) vend s"

definition kinit1 :: "u32 \<Rightarrow> u32 \<Rightarrow> 'a kmem_scheme \<Rightarrow> 'a kmem_scheme res" where
  "kinit1 vstart vend s = freerange vstart vend (s\<lparr>kmem_lock := False, use_lock := False\<rparr>)"

definition kinit2 :: "u32 \<Rightarrow> u32 \<Rightarrow> 'a kmem_scheme \<Rightarrow> 'a kmem_scheme res" where
  "kinit2 vstart vend s = rbind (freerange vstart vend s) (\<lambda>s. Inr (s\<lparr>use_lock := True\<rparr>))"

subsection \<open>Pages\<close>

text \<open>The addresses of the page at \<open>p\<close>.\<close>

definition page :: "u32 \<Rightarrow> u32 set" where
  "page p = {a. a - p < PGSIZE}"

lemma page_base: "p mod PGSIZE = 0 \<Longrightarrow> a \<in> page p \<Longrightarrow> unat a div 4096 * 4096 = unat p"
proof -
  assume al: "p mod PGSIZE = 0" and a: "a \<in> page p"
  have m: "unat p mod 4096 = 0" using al unat_mod [of p PGSIZE] by simp
  have k: "unat (a - p) < 4096" using a by (simp add: page_def word_less_nat_alt)
  obtain q where q: "unat p = 4096 * q" using m by (auto simp: mod_eq_0_iff_dvd dvd_def)
  have "unat p < 2 ^ 32" by (rule unat32_less)
  then have "unat p + 4096 \<le> 2 ^ 32" using q by simp
  then have "unat (p + (a - p)) = unat p + unat (a - p)"
    using k by (intro unat_add_fits) simp
  then have "unat a = 4096 * q + unat (a - p)" using q by simp
  with k q show ?thesis by simp
qed

lemma page_disjoint:
  assumes "p mod PGSIZE = 0" and "q mod PGSIZE = 0" and "p \<noteq> q"
  shows "page p \<inter> page q = {}"
proof -
  have "unat p = unat q" if "a \<in> page p" "a \<in> page q" for a
    using page_base [OF assms(1) that(1)] page_base [OF assms(2) that(2)] by simp
  with assms(3) show ?thesis by (auto simp: word_unat_eq_iff)
qed

lemma page_word [simp]: "p \<in> page p" "p + 1 \<in> page p" "p + 2 \<in> page p" "p + 3 \<in> page p"
  by (simp_all add: page_def word_less_nat_alt)

lemma read32_cong: "(\<And>a. a \<in> page p \<Longrightarrow> m' a = m a) \<Longrightarrow> read32 p m' = read32 p m"
  by (simp add: read32_def)

lemma write32_page: "a \<notin> page p \<Longrightarrow> write32 p w m a = m a"
  by (auto simp: write32_def)

subsection \<open>The free list\<close>

definition page_ok :: "'a kmem_scheme \<Rightarrow> u32 \<Rightarrow> bool" where
  "page_ok s p = (p \<noteq> 0 \<and> p mod PGSIZE = 0 \<and> kend s \<le> p \<and> V2P p < PHYSTOP)"

primrec chain :: "mem \<Rightarrow> u32 \<Rightarrow> u32 list \<Rightarrow> bool" where
  "chain m r [] = (r = 0)"
| "chain m r (p # ps) = (r = p \<and> chain m (read32 p m) ps)"

definition free_list :: "'a kmem_scheme \<Rightarrow> u32 list \<Rightarrow> bool" where
  "free_list s ps = (chain (pmem s) (freelist s) ps \<and> distinct ps \<and> (\<forall>p \<in> set ps. page_ok s p))"

definition kmem_quiet :: "'a kmem_scheme \<Rightarrow> bool" where
  "kmem_quiet s = (use_lock s \<longrightarrow> \<not> kmem_lock s)"

lemma chain_cong: "(\<And>p a. p \<in> set ps \<Longrightarrow> a \<in> page p \<Longrightarrow> m' a = m a) \<Longrightarrow> chain m' r ps = chain m r ps"
proof (induction ps arbitrary: r)
  case (Cons p ps)
  have "read32 p m' = read32 p m" using Cons.prems by (intro read32_cong) auto
  moreover have "chain m' r' ps = chain m r' ps" for r' using Cons.prems by (intro Cons.IH) auto
  ultimately show ?case by simp
qed simp

text \<open>Memory of allocated pages may be written freely.\<close>

lemma free_list_frame:
  assumes "free_list s ps" and "\<And>a. a \<in> (\<Union>p \<in> set ps. page p) \<Longrightarrow> m a = pmem s a"
  shows "free_list (s\<lparr>pmem := m\<rparr>) ps"
  using assms chain_cong [of ps m "pmem s" "freelist s"]
  by (auto simp: free_list_def page_ok_def)

lemma kalloc_empty: "kmem_quiet s \<Longrightarrow> free_list s [] \<Longrightarrow> kalloc s = Inr (0, s)"
  by (auto simp: kalloc_def kmem_acquire_def kmem_release_def kmem_quiet_def free_list_def Let_def)

lemma kalloc_Cons:
  assumes "kmem_quiet s" and "free_list s (p # ps)"
  obtains s' where "kalloc s = Inr (p, s')" and "s' = s\<lparr>freelist := read32 p (pmem s)\<rparr>"
    and "free_list s' ps" and "kmem_quiet s'"
proof
  let ?s = "s\<lparr>freelist := read32 p (pmem s)\<rparr>"
  have "p \<noteq> 0" and "freelist s = p" using assms(2) by (auto simp: free_list_def page_ok_def)
  then show "kalloc s = Inr (p, ?s)"
    using assms(1)
    by (auto simp: kalloc_def kmem_acquire_def kmem_release_def kmem_quiet_def Let_def)
  show "free_list ?s ps" using assms(2) by (auto simp: free_list_def page_ok_def)
  show "kmem_quiet ?s" using assms(1) by (simp add: kmem_quiet_def)
qed (simp)

definition free_mem :: "u32 \<Rightarrow> u32 \<Rightarrow> mem \<Rightarrow> mem" where
  "free_mem p r m = write32 p r (memset p 1 PGSIZE m)"

lemma free_mem_outside: "a \<notin> page p \<Longrightarrow> free_mem p r m a = m a"
  by (simp add: free_mem_def write32_page memset_eq page_def)

lemma kfree_page:
  assumes "kmem_quiet s" and "free_list s ps" and "page_ok s p" and "p \<notin> set ps"
  obtains s' where "kfree p s = Inr s'" and "s' = s\<lparr>pmem := free_mem p (freelist s) (pmem s), freelist := p\<rparr>"
    and "free_list s' (p # ps)" and "kmem_quiet s'"
proof
  let ?s = "s\<lparr>pmem := free_mem p (freelist s) (pmem s), freelist := p\<rparr>"
  have "\<not> (p mod PGSIZE \<noteq> 0 \<or> p < kend s \<or> V2P p \<ge> PHYSTOP)"
    using assms(3) by (auto simp: page_ok_def)
  then show "kfree p s = Inr ?s"
    using assms(1)
    by (cases "use_lock s")
      (simp_all add: kfree_def free_mem_def kmem_acquire_def kmem_release_def kmem_quiet_def Let_def)
  have "free_mem p (freelist s) (pmem s) a = pmem s a" if "q \<in> set ps" "a \<in> page q" for q a
    using that assms page_disjoint [of p q]
    by (intro free_mem_outside) (auto simp: free_list_def page_ok_def)
  then have "chain (free_mem p (freelist s) (pmem s)) (freelist s) ps"
    using assms(2) by (subst chain_cong [of ps _ "pmem s"]) (auto simp: free_list_def)
  moreover have "read32 p (free_mem p (freelist s) (pmem s)) = freelist s"
    by (simp add: free_mem_def read_write32)
  ultimately show "free_list ?s (p # ps)"
    using assms(2-4) by (auto simp: free_list_def page_ok_def)
  show "kmem_quiet ?s" using assms(1) by (simp add: kmem_quiet_def)
qed (simp)

subsection \<open>The contract of the allocator\<close>

locale page_allocator =
  fixes inv :: "'s \<Rightarrow> u32 list \<Rightarrow> bool"
    and valid :: "'s \<Rightarrow> u32 \<Rightarrow> bool"
    and alloc :: "'s \<Rightarrow> (u32 \<times> 's) res"
    and dealloc :: "u32 \<Rightarrow> 's \<Rightarrow> 's res"
  assumes inv_distinct: "inv s ps \<Longrightarrow> distinct ps"
    and inv_valid: "inv s ps \<Longrightarrow> p \<in> set ps \<Longrightarrow> valid s p"
    and valid_nonzero: "valid s p \<Longrightarrow> p \<noteq> 0"
    and alloc_none: "inv s [] \<Longrightarrow> alloc s = Inr (0, s)"
    and alloc_some: "inv s (p # ps) \<Longrightarrow>
      \<exists>s'. alloc s = Inr (p, s') \<and> inv s' ps \<and> (\<forall>q. valid s' q = valid s q)"
    and dealloc_page: "inv s ps \<Longrightarrow> valid s p \<Longrightarrow> p \<notin> set ps \<Longrightarrow>
      \<exists>s'. dealloc p s = Inr s' \<and> inv s' (p # ps) \<and> (\<forall>q. valid s' q = valid s q)"
begin

lemma dealloc_alloc:
  "inv s ps \<Longrightarrow> valid s p \<Longrightarrow> p \<notin> set ps \<Longrightarrow>
   \<exists>s1 s2. dealloc p s = Inr s1 \<and> alloc s1 = Inr (p, s2) \<and> inv s2 ps"
  using dealloc_page [of s ps p] alloc_some by blast

lemma alloc_dealloc:
  assumes "inv s (p # ps)"
  shows "\<exists>s1 s2. alloc s = Inr (p, s1) \<and> p \<notin> set ps \<and> dealloc p s1 = Inr s2 \<and> inv s2 (p # ps)"
proof -
  obtain s1 where s1: "alloc s = Inr (p, s1)" "inv s1 ps" "\<And>q. valid s1 q = valid s q"
    using alloc_some [OF assms] by blast
  have "p \<notin> set ps" and "valid s1 p" using inv_distinct [OF assms] inv_valid [OF assms] s1(3) by auto
  with dealloc_page [OF s1(2)] s1(1) show ?thesis by blast
qed

lemma alloc_many:
  "inv s ps \<Longrightarrow> n \<le> length ps \<Longrightarrow>
   \<exists>s'. rfold (\<lambda>_ (got, s). rbind (alloc s) (\<lambda>(p, s). Inr (got @ [p], s))) [0..<n] (got, s) =
     Inr (got @ take n ps, s') \<and> inv s' (drop n ps)"
proof (induction n)
  case (Suc n)
  then obtain s1 where s1:
    "rfold (\<lambda>_ (got, s). rbind (alloc s) (\<lambda>(p, s). Inr (got @ [p], s))) [0..<n] (got, s) =
       Inr (got @ take n ps, s1)" "inv s1 (drop n ps)" by auto
  have d: "drop n ps = ps ! n # drop (Suc n) ps" using Suc.prems by (simp add: Cons_nth_drop_Suc)
  with s1(2) obtain s2 where "alloc s1 = Inr (ps ! n, s2)" "inv s2 (drop (Suc n) ps)"
    using alloc_some [of s1 "ps ! n"] by metis
  with s1 Suc.prems show ?case
    by (simp add: rfold_append take_Suc_conv_app_nth)
qed simp

lemma alloc_all_then_none:
  assumes "inv s ps"
  shows "\<exists>s'. rfold (\<lambda>_ (got, s). rbind (alloc s) (\<lambda>(p, s). Inr (got @ [p], s))) [0..<length ps] ([], s) =
      Inr (ps, s') \<and> distinct ps \<and> 0 \<notin> set ps \<and> alloc s' = Inr (0, s')"
proof -
  obtain s' where "rfold (\<lambda>_ (got, s). rbind (alloc s) (\<lambda>(p, s). Inr (got @ [p], s))) [0..<length ps] ([], s) =
      Inr (ps, s')" "inv s' []"
    using alloc_many [OF assms, of "length ps" "[]"] by auto
  moreover have "0 \<notin> set ps" using inv_valid [OF assms] valid_nonzero by blast
  ultimately show ?thesis using alloc_none inv_distinct [OF assms] by blast
qed

end

definition kmem_inv :: "'a kmem_scheme \<Rightarrow> u32 list \<Rightarrow> bool" where
  "kmem_inv s ps = (free_list s ps \<and> kmem_quiet s)"

interpretation km: page_allocator kmem_inv page_ok kalloc kfree
proof unfold_locales
  fix s :: "'a kmem_scheme" and ps p
  assume inv: "kmem_inv s ps"
  then show "distinct ps" by (simp add: kmem_inv_def free_list_def)
  show "p \<in> set ps \<Longrightarrow> page_ok s p" using inv by (simp add: kmem_inv_def free_list_def)
  assume p: "page_ok s p" "p \<notin> set ps"
  have "kmem_quiet s" "free_list s ps" using inv by (simp_all add: kmem_inv_def)
  from kfree_page [OF this p]
  show "\<exists>s'. kfree p s = Inr s' \<and> kmem_inv s' (p # ps) \<and> (\<forall>q. page_ok s' q = page_ok s q)"
    by (rule) (auto simp: kmem_inv_def page_ok_def)
next
  fix s :: "'a kmem_scheme" and ps p
  show "page_ok s p \<Longrightarrow> p \<noteq> 0" by (simp add: page_ok_def)
  show "kmem_inv s [] \<Longrightarrow> kalloc s = Inr (0, s)" by (simp add: kmem_inv_def kalloc_empty)
  assume "kmem_inv s (p # ps)"
  then have "kmem_quiet s" "free_list s (p # ps)" by (simp_all add: kmem_inv_def)
  from kalloc_Cons [OF this]
  show "\<exists>s'. kalloc s = Inr (p, s') \<and> kmem_inv s' ps \<and> (\<forall>q. page_ok s' q = page_ok s q)"
    by (rule) (auto simp: kmem_inv_def page_ok_def)
qed

text \<open>
  C4. Starting from any well-formed free list, repeated \<open>kalloc\<close> hands out each free page
  exactly once, never the null pointer, and returns the null pointer once they are used up.
\<close>

theorem kalloc_all_pages:
  assumes "kmem_inv s ps"
  shows "\<exists>s'. rfold (\<lambda>_ (got, s). rbind (kalloc s) (\<lambda>(p, s). Inr (got @ [p], s))) [0..<length ps] ([], s) =
      Inr (ps, s') \<and> distinct ps \<and> 0 \<notin> set ps \<and> kalloc s' = Inr (0, s')"
  using assms by (rule km.alloc_all_then_none)

text \<open>
  C5. Freeing an allocated page succeeds, makes it the next page to be handed out, and
  changes no byte of memory outside of the page; so the contents of every other page,
  allocated or free, survive a \<open>kfree\<close>.
\<close>

theorem kfree_then_kalloc:
  assumes "kmem_inv s ps" and "page_ok s p" and "p \<notin> set ps"
  shows "\<exists>s1 s2. kfree p s = Inr s1 \<and> kalloc s1 = Inr (p, s2) \<and> kmem_inv s2 ps \<and>
    (\<forall>a. a \<notin> page p \<longrightarrow> pmem s2 a = pmem s a)"
proof -
  have q: "kmem_quiet s" "free_list s ps" using assms(1) by (simp_all add: kmem_inv_def)
  obtain s1 where s1: "kfree p s = Inr s1" "s1 = s\<lparr>pmem := free_mem p (freelist s) (pmem s), freelist := p\<rparr>"
    "free_list s1 (p # ps)" "kmem_quiet s1" using kfree_page [OF q assms(2,3)] .
  obtain s2 where s2: "kalloc s1 = Inr (p, s2)" "s2 = s1\<lparr>freelist := read32 p (pmem s1)\<rparr>"
    "free_list s2 ps" "kmem_quiet s2" using kalloc_Cons [OF s1(4,3)] .
  show ?thesis using s1 s2 by (auto simp: kmem_inv_def free_mem_outside)
qed

definition one_page_kmem :: kmem where
  "one_page_kmem = \<lparr>pmem = (\<lambda>_. 0), freelist = 0x80400000, use_lock = True, kmem_lock = False,
     kend = 0x80100000\<rparr>"

lemma one_page_inv: "kmem_inv one_page_kmem [0x80400000]"
  by (simp add: kmem_inv_def free_list_def kmem_quiet_def page_ok_def one_page_kmem_def read32_def V2P_def)

theorem kalloc_all_pages_witness:
  "\<exists>s'. rfold (\<lambda>_ (got, s). rbind (kalloc s) (\<lambda>(p, s). Inr (got @ [p], s))) [0..<1] ([], one_page_kmem) =
      Inr ([0x80400000], s') \<and> kalloc s' = Inr (0, s')"
  using kalloc_all_pages [OF one_page_inv] by simp

theorem kfree_then_kalloc_witness:
  "\<exists>s1 s2. kfree 0x80500000 one_page_kmem = Inr s1 \<and> kalloc s1 = Inr (0x80500000, s2) \<and>
    kmem_inv s2 [0x80400000]"
proof -
  have "page_ok one_page_kmem 0x80500000"
    by (simp add: page_ok_def one_page_kmem_def V2P_def)
  with kfree_then_kalloc [OF one_page_inv, of "0x80500000"] show ?thesis by auto
qed

end
