(* ===== verification/Vm.thy ===== *)
theory Vm
  imports Kalloc
begin

section \<open>Page tables (vm.c, mmu.h)\<close>

text \<open>
  The two-level page tables of the x86, on the bytes of memory: a page directory is the kernel
  address of a page with 1024 entries, an entry is a physical page address with flags, and
  \<open>walkpgdir\<close> returns the kernel address of the page-table entry of a virtual address (0 for
  the null pointer). All of \<open>vm.c\<close> that does not touch segment registers is here, but for
  \<open>loaduvm\<close>, which reads files, and \<open>copyuvm\<close>, which iterates over threads; these are with their
  callers. \<open>kdata\<close>, \<open>trapret\<close> and \<open>forkret\<close> are
  the addresses of the symbols \<open>data\<close>, \<open>trapret\<close> and \<open>forkret\<close>; \<open>cr3\<close> is the page-table register
  and \<open>esp0\<close> the kernel stack pointer of the task state segment.

  The loops over pages have a fuel of \<open>2 ^ 20 + 1\<close>, the number of pages of the address
  space and one.
\<close>

subsection \<open>Constants and address arithmetic\<close>

abbreviation EXTMEM :: u32 where "EXTMEM \<equiv> 0x100000"
abbreviation DEVSPACE :: u32 where "DEVSPACE \<equiv> 0xFE000000"
abbreviation KERNLINK :: u32 where "KERNLINK \<equiv> 0x80100000"
abbreviation NPDENTRIES :: nat where "NPDENTRIES \<equiv> 1024"
abbreviation PTE_P :: u32 where "PTE_P \<equiv> 1"
abbreviation PTE_W :: u32 where "PTE_W \<equiv> 2"
abbreviation PTE_U :: u32 where "PTE_U \<equiv> 4"
abbreviation PAGES :: nat where "PAGES \<equiv> 1048577"

definition PDX :: "u32 \<Rightarrow> u32" where
  "PDX va = drop_bit 22 va AND 0x3FF"

definition PTX :: "u32 \<Rightarrow> u32" where
  "PTX va = drop_bit 12 va AND 0x3FF"

definition PGADDR :: "u32 \<Rightarrow> u32 \<Rightarrow> u32 \<Rightarrow> u32" where
  "PGADDR d t off = push_bit 22 d OR push_bit 12 t OR off"

definition PTE_ADDR :: "u32 \<Rightarrow> u32" where
  "PTE_ADDR pte = pte AND NOT 0xFFF"

definition PTE_FLAGS :: "u32 \<Rightarrow> u32" where
  "PTE_FLAGS pte = pte AND 0xFFF"

record vmem = kmem +
  kdata :: u32
  trapret :: u32
  forkret :: u32
  kpgdir :: u32
  cr3 :: u32
  esp0 :: u32

definition load32 :: "u32 \<Rightarrow> 'a kmem_scheme \<Rightarrow> u32" where
  "load32 p s = read32 p (pmem s)"

definition store32 :: "u32 \<Rightarrow> u32 \<Rightarrow> 'a kmem_scheme \<Rightarrow> 'a kmem_scheme" where
  "store32 p v s = s\<lparr>pmem := write32 p v (pmem s)\<rparr>"

definition kmemset :: "u32 \<Rightarrow> u32 \<Rightarrow> u32 \<Rightarrow> 'a kmem_scheme \<Rightarrow> 'a kmem_scheme" where
  "kmemset dst c n s = s\<lparr>pmem := memset dst c n (pmem s)\<rparr>"

definition kmemmove :: "u32 \<Rightarrow> u32 \<Rightarrow> u32 \<Rightarrow> 'a kmem_scheme \<Rightarrow> 'a kmem_scheme" where
  "kmemmove dst src n s = s\<lparr>pmem := memmove dst src n (pmem s)\<rparr>"

subsection \<open>Walking and mapping\<close>

definition walkpgdir :: "u32 \<Rightarrow> u32 \<Rightarrow> bool \<Rightarrow> 'a kmem_scheme \<Rightarrow> (u32 \<times> 'a kmem_scheme) res" where
  "walkpgdir pgdir va alloc s =
     (let pde = pgdir + 4 * PDX va
      in if load32 pde s AND PTE_P \<noteq> 0
         then Inr (P2V (PTE_ADDR (load32 pde s)) + 4 * PTX va, s)
         else if \<not> alloc then Inr (0, s)
         else rbind (kalloc s) (\<lambda>(pgtab, s).
              if pgtab = 0 then Inr (0, s)
              else let s = kmemset pgtab 0 PGSIZE s;
                       s = store32 pde (V2P pgtab OR PTE_P OR PTE_W OR PTE_U) s
                   in Inr (pgtab + 4 * PTX va, s)))"

fun mappages_loop :: "nat \<Rightarrow> u32 \<Rightarrow> u32 \<Rightarrow> u32 \<Rightarrow> u32 \<Rightarrow> u32 \<Rightarrow> 'a kmem_scheme \<Rightarrow> (int \<times> 'a kmem_scheme) res" where
  "mappages_loop 0 pgdir a lst pa perm s = Inl Diverges"
| "mappages_loop (Suc fuel) pgdir a lst pa perm s =
     rbind (walkpgdir pgdir a True s) (\<lambda>(pte, s).
     if pte = 0 then Inr (-1, s)
     else if load32 pte s AND PTE_P \<noteq> 0 then Inl (Panic ''remap'')
     else let s = store32 pte (pa OR perm OR PTE_P) s
          in if a = lst then Inr (0, s)
             else mappages_loop fuel pgdir (a + PGSIZE) lst (pa + PGSIZE) perm s)"

definition mappages :: "u32 \<Rightarrow> u32 \<Rightarrow> u32 \<Rightarrow> u32 \<Rightarrow> u32 \<Rightarrow> 'a kmem_scheme \<Rightarrow> (int \<times> 'a kmem_scheme) res" where
  "mappages pgdir va sz pa perm s =
     mappages_loop PAGES pgdir (PGROUNDDOWN va) (PGROUNDDOWN (va + sz - 1)) pa perm s"

subsection \<open>Growing and shrinking user memory\<close>

fun deallocuvm_loop :: "nat \<Rightarrow> u32 \<Rightarrow> u32 \<Rightarrow> u32 \<Rightarrow> 'a kmem_scheme \<Rightarrow> 'a kmem_scheme res" where
  "deallocuvm_loop 0 pgdir a oldsz s = Inl Diverges"
| "deallocuvm_loop (Suc fuel) pgdir a oldsz s =
     (if a < oldsz
      then rbind (walkpgdir pgdir a False s) (\<lambda>(pte, s).
           if pte = 0
           then deallocuvm_loop fuel pgdir (PGADDR (PDX a + 1) 0 0 - PGSIZE + PGSIZE) oldsz s
           else if load32 pte s AND PTE_P \<noteq> 0
           then let pa = PTE_ADDR (load32 pte s)
                in if pa = 0 then Inl (Panic ''kfree'')
                   else rbind (kfree (P2V pa) s) (\<lambda>s.
                        deallocuvm_loop fuel pgdir (a + PGSIZE) oldsz (store32 pte 0 s))
           else deallocuvm_loop fuel pgdir (a + PGSIZE) oldsz s)
      else Inr s)"

definition deallocuvm :: "u32 \<Rightarrow> u32 \<Rightarrow> u32 \<Rightarrow> 'a kmem_scheme \<Rightarrow> (u32 \<times> 'a kmem_scheme) res" where
  "deallocuvm pgdir oldsz newsz s =
     (if newsz \<ge> oldsz then Inr (oldsz, s)
      else rbind (deallocuvm_loop PAGES pgdir (PGROUNDUP newsz) oldsz s) (\<lambda>s. Inr (newsz, s)))"

fun allocuvm_loop :: "nat \<Rightarrow> u32 \<Rightarrow> u32 \<Rightarrow> u32 \<Rightarrow> u32 \<Rightarrow> 'a kmem_scheme \<Rightarrow> (u32 \<times> 'a kmem_scheme) res" where
  "allocuvm_loop 0 pgdir a oldsz newsz s = Inl Diverges"
| "allocuvm_loop (Suc fuel) pgdir a oldsz newsz s =
     (if a < newsz
      then rbind (kalloc s) (\<lambda>(mem, s).
           if mem = 0
           then rbind (deallocuvm pgdir newsz oldsz s) (\<lambda>(_, s). Inr (0, s))
           else rbind (mappages pgdir a PGSIZE (V2P mem) (PTE_W OR PTE_U) (kmemset mem 0 PGSIZE s)) (\<lambda>(r, s).
                if r < 0
                then rbind (deallocuvm pgdir newsz oldsz s) (\<lambda>(_, s).
                     rbind (kfree mem s) (\<lambda>s. Inr (0, s)))
                else allocuvm_loop fuel pgdir (a + PGSIZE) oldsz newsz s))
      else Inr (newsz, s))"

definition allocuvm :: "u32 \<Rightarrow> u32 \<Rightarrow> u32 \<Rightarrow> 'a kmem_scheme \<Rightarrow> (u32 \<times> 'a kmem_scheme) res" where
  "allocuvm pgdir oldsz newsz s =
     (if newsz \<ge> KERNBASE then Inr (0, s)
      else if newsz < oldsz then Inr (oldsz, s)
      else allocuvm_loop PAGES pgdir (PGROUNDUP oldsz) oldsz newsz s)"

fun freevm_loop :: "nat \<Rightarrow> u32 \<Rightarrow> nat \<Rightarrow> 'a kmem_scheme \<Rightarrow> 'a kmem_scheme res" where
  "freevm_loop 0 pgdir i s = Inr s"
| "freevm_loop (Suc n) pgdir i s =
     (let e = load32 (pgdir + 4 * of_nat i) s
      in rbind (if e AND PTE_P \<noteq> 0 then kfree (P2V (PTE_ADDR e)) s else Inr s)
           (freevm_loop n pgdir (Suc i)))"

definition freevm :: "u32 \<Rightarrow> 'a kmem_scheme \<Rightarrow> 'a kmem_scheme res" where
  "freevm pgdir s =
     (if pgdir = 0 then Inl (Panic ''freevm: no pgdir'')
      else rbind (deallocuvm pgdir KERNBASE 0 s) (\<lambda>(_, s).
           rbind (freevm_loop NPDENTRIES pgdir 0 s) (\<lambda>s.
           kfree pgdir s)))"

subsection \<open>The kernel part of a page table\<close>

definition kmap :: "'a vmem_scheme \<Rightarrow> (u32 \<times> u32 \<times> u32 \<times> u32) list" where
  "kmap s = [(KERNBASE, 0, EXTMEM, PTE_W),
             (KERNLINK, V2P KERNLINK, V2P (kdata s), 0),
             (kdata s, V2P (kdata s), PHYSTOP, PTE_W),
             (DEVSPACE, DEVSPACE, 0, PTE_W)]"

fun setupkvm_loop :: "(u32 \<times> u32 \<times> u32 \<times> u32) list \<Rightarrow> u32 \<Rightarrow> 'a vmem_scheme \<Rightarrow> (u32 \<times> 'a vmem_scheme) res" where
  "setupkvm_loop [] pgdir s = Inr (pgdir, s)"
| "setupkvm_loop ((virt, phys_start, phys_end, perm) # ks) pgdir s =
     rbind (mappages pgdir virt (phys_end - phys_start) phys_start perm s) (\<lambda>(r, s).
     if r < 0 then rbind (freevm pgdir s) (\<lambda>s. Inr (0, s))
     else setupkvm_loop ks pgdir s)"

definition setupkvm :: "'a vmem_scheme \<Rightarrow> (u32 \<times> 'a vmem_scheme) res" where
  "setupkvm s =
     rbind (kalloc s) (\<lambda>(pgdir, s).
     if pgdir = 0 then Inr (0, s)
     else let s = kmemset pgdir 0 PGSIZE s
          in if P2V PHYSTOP > DEVSPACE then Inl (Panic ''PHYSTOP too high'')
             else setupkvm_loop (kmap s) pgdir s)"

definition switchkvm :: "'a vmem_scheme \<Rightarrow> 'a vmem_scheme" where
  "switchkvm s = s\<lparr>cr3 := V2P (kpgdir s)\<rparr>"

definition kvmalloc :: "'a vmem_scheme \<Rightarrow> 'a vmem_scheme res" where
  "kvmalloc s = rbind (setupkvm s) (\<lambda>(pgdir, s). Inr (switchkvm (s\<lparr>kpgdir := pgdir\<rparr>)))"

definition inituvm :: "u32 \<Rightarrow> u32 \<Rightarrow> u32 \<Rightarrow> 'a kmem_scheme \<Rightarrow> 'a kmem_scheme res" where
  "inituvm pgdir init sz s =
     (if sz \<ge> PGSIZE then Inl (Panic ''inituvm: more than a page'')
      else rbind (kalloc s) (\<lambda>(mem, s).
           rbind (mappages pgdir 0 PGSIZE (V2P mem) (PTE_W OR PTE_U) (kmemset mem 0 PGSIZE s)) (\<lambda>(_, s).
           Inr (kmemmove mem init sz s))))"

subsection \<open>User addresses\<close>

definition clearpteu :: "u32 \<Rightarrow> u32 \<Rightarrow> 'a kmem_scheme \<Rightarrow> 'a kmem_scheme res" where
  "clearpteu pgdir uva s =
     rbind (walkpgdir pgdir uva False s) (\<lambda>(pte, s).
     if pte = 0 then Inl (Panic ''clearpteu'')
     else Inr (store32 pte (load32 pte s AND NOT PTE_U) s))"

text \<open>\<open>uva2ka\<close> does not check for a null entry: without a page table it reads through null.\<close>

definition uva2ka :: "u32 \<Rightarrow> u32 \<Rightarrow> 'a kmem_scheme \<Rightarrow> u32 res" where
  "uva2ka pgdir uva s =
     rbind (walkpgdir pgdir uva False s) (\<lambda>(pte, s).
     if pte = 0 then Inl Wild_pointer
     else if load32 pte s AND PTE_P = 0 then Inr 0
     else if load32 pte s AND PTE_U = 0 then Inr 0
     else Inr (P2V (PTE_ADDR (load32 pte s))))"

text \<open>
  \<open>copyout\<close> gets the \<open>len\<close> bytes at its argument \<open>p\<close> as a list: its callers pass kernel memory as well
  as user memory of the old address space.
\<close>

fun put_mem :: "u32 \<Rightarrow> u8 list \<Rightarrow> 'a kmem_scheme \<Rightarrow> 'a kmem_scheme" where
  "put_mem a [] s = s"
| "put_mem a (b # bs) s = put_mem (a + 1) bs (s\<lparr>pmem := (pmem s)(a := b)\<rparr>)"

fun copyout_loop :: "nat \<Rightarrow> u32 \<Rightarrow> u32 \<Rightarrow> u8 list \<Rightarrow> 'a kmem_scheme \<Rightarrow> (int \<times> 'a kmem_scheme) res" where
  "copyout_loop 0 pgdir va buf s = Inl Diverges"
| "copyout_loop (Suc fuel) pgdir va buf s =
     (if length buf > 0
      then let va0 = PGROUNDDOWN va
           in rbind (uva2ka pgdir va0 s) (\<lambda>pa0.
              if pa0 = 0 then Inr (-1, s)
              else let n = min (unat (PGSIZE - (va - va0))) (length buf);
                       s = put_mem (pa0 + (va - va0)) (take n buf) s
                   in copyout_loop fuel pgdir (va0 + PGSIZE) (drop n buf) s)
      else Inr (0, s))"

definition copyout :: "u32 \<Rightarrow> u32 \<Rightarrow> u8 list \<Rightarrow> 'a kmem_scheme \<Rightarrow> (int \<times> 'a kmem_scheme) res" where
  "copyout pgdir va p s = copyout_loop (Suc (length p)) pgdir va p s"

abbreviation USTACKSIZE :: u32 where "USTACKSIZE \<equiv> 4096"

definition allocustack :: "u32 \<Rightarrow> u32 \<Rightarrow> 'a kmem_scheme \<Rightarrow> (u32 \<times> 'a kmem_scheme) res" where
  "allocustack pgdir ustack s =
     (let sb = PGROUNDDOWN ustack
      in rbind (allocuvm pgdir (sb - PGSIZE) (ustack + USTACKSIZE) s) (\<lambda>(r, s).
         if r = 0 then Inr (0, s)
         else rbind (clearpteu pgdir (sb - PGSIZE) s) (\<lambda>s. Inr (ustack, s))))"

definition deallocustack :: "u32 \<Rightarrow> u32 \<Rightarrow> 'a kmem_scheme \<Rightarrow> 'a kmem_scheme res" where
  "deallocustack pgdir ustack s =
     rbind (deallocuvm pgdir (ustack + USTACKSIZE) (PGROUNDDOWN ustack - PGSIZE) s) (\<lambda>(_, s). Inr s)"

text \<open>
  A store by the kernel to a user address, through the current page table: it faults unless
  the page is present and writable. A word that crosses a page is not written by the kernel.
\<close>

definition user_store32 :: "u32 \<Rightarrow> u32 \<Rightarrow> u32 \<Rightarrow> 'a kmem_scheme \<Rightarrow> 'a kmem_scheme res" where
  "user_store32 pgdir va v s =
     rbind (walkpgdir pgdir va False s) (\<lambda>(pte, s).
     if pte = 0 \<or> load32 pte s AND PTE_P = 0 \<or> load32 pte s AND PTE_W = 0 then Inl (Panic ''trap'')
     else Inr (store32 (P2V (PTE_ADDR (load32 pte s)) + (va AND 0xFFF)) v s))"

text \<open>Loads by the kernel from user addresses, and the bytes of a user buffer one by one.\<close>

definition user_load32 :: "u32 \<Rightarrow> u32 \<Rightarrow> 'a kmem_scheme \<Rightarrow> u32 res" where
  "user_load32 pgdir va s =
     rbind (walkpgdir pgdir va False s) (\<lambda>(pte, s).
     if pte = 0 \<or> load32 pte s AND PTE_P = 0 then Inl (Panic ''trap'')
     else Inr (load32 (P2V (PTE_ADDR (load32 pte s)) + (va AND 0xFFF)) s))"

definition user_byte :: "u32 \<Rightarrow> u32 \<Rightarrow> 'a kmem_scheme \<Rightarrow> u8 res" where
  "user_byte pgdir va s =
     rbind (walkpgdir pgdir va False s) (\<lambda>(pte, s).
     if pte = 0 \<or> load32 pte s AND PTE_P = 0 then Inl (Panic ''trap'')
     else Inr (pmem s (P2V (PTE_ADDR (load32 pte s)) + (va AND 0xFFF))))"

fun user_bytes :: "u32 \<Rightarrow> u32 \<Rightarrow> nat \<Rightarrow> 'a kmem_scheme \<Rightarrow> u8 list res" where
  "user_bytes pgdir va 0 s = Inr []"
| "user_bytes pgdir va (Suc n) s =
     rbind (user_byte pgdir va s) (\<lambda>b. rbind (user_bytes pgdir (va + 1) n s) (\<lambda>bs. Inr (b # bs)))"

definition user_store_byte :: "u32 \<Rightarrow> u32 \<Rightarrow> u8 \<Rightarrow> 'a kmem_scheme \<Rightarrow> 'a kmem_scheme res" where
  "user_store_byte pgdir va b s =
     rbind (walkpgdir pgdir va False s) (\<lambda>(pte, s).
     if pte = 0 \<or> load32 pte s AND PTE_P = 0 \<or> load32 pte s AND PTE_W = 0 then Inl (Panic ''trap'')
     else Inr (s\<lparr>pmem := (pmem s)(P2V (PTE_ADDR (load32 pte s)) + (va AND 0xFFF) := b)\<rparr>))"

fun user_store_bytes :: "u32 \<Rightarrow> u32 \<Rightarrow> u8 list \<Rightarrow> 'a kmem_scheme \<Rightarrow> 'a kmem_scheme res" where
  "user_store_bytes pgdir va [] s = Inr s"
| "user_store_bytes pgdir va (b # bs) s =
     rbind (user_store_byte pgdir va b s) (user_store_bytes pgdir (va + 1) bs)"

end
