(* ===== verification/Proc_Table.thy ===== *)
theory Proc_Table
  imports List_Head Vm "HOL-Library.Signed_Division"
begin

section \<open>The process table (proc.h, scheduler.h) and thread groups (thread.c)\<close>

text \<open>
  The state the scheduler works on. A process (or thread) is a slot of the table, named by
  its index; a pointer to a process is an index, the null pointer \<open>None\<close>. Every
  \<open>struct list_head\<close> of the kernel has an address in \<open>node\<close>: the queue heads of the table
  and, for each slot, one node per list it can be on. The links live in one store, so the
  queues are the circular lists of \<open>List_Head\<close>.

  \<open>list_entry\<close> goes from a list node back to the structure around it; on a queue head it
  yields a pointer that is no process, and following it is a wild access.

  The second half models the iteration over the threads of a process
  (\<open>threads_apply0\<close>/\<open>threads_apply1\<close>) with the routines it is used with, \<open>main_thread\<close> and
  the thread searches. The thread group of \<open>p\<close> is a ring without a head; the main lemma
  says that the iteration visits the ring once, starting after \<open>p\<close> and ending with \<open>p\<close>.
\<close>

subsection \<open>Constants\<close>

abbreviation NPROC :: nat where "NPROC \<equiv> 256"
abbreviation QSIZE :: nat where "QSIZE \<equiv> 3"
abbreviation NOFILE :: nat where "NOFILE \<equiv> 16"
abbreviation RESERVE :: int where "RESERVE \<equiv> 20"
abbreviation BOOSTINTERVAL :: u32 where "BOOSTINTERVAL \<equiv> 200"
abbreviation KSTACKSIZE :: u32 where "KSTACKSIZE \<equiv> 4096"
abbreviation DTQ :: u32 where "DTQ \<equiv> 5"
abbreviation LARGENUM :: int where "LARGENUM \<equiv> 1000"
abbreviation MAXINT :: int where "MAXINT \<equiv> 0x7fffffff"
abbreviation BARRIER :: int where "BARRIER \<equiv> 0x6fffffff"

definition TQ :: "nat \<Rightarrow> u32" where
  "TQ l = (if l = 0 then 5 else 10 * of_nat l)"

definition TA :: "nat \<Rightarrow> u32" where
  "TA l = 4 * TQ l"

text \<open>\<open>STRD(t)\<close> divides by \<open>t\<close>: the processor traps when \<open>t\<close> is 0.\<close>

definition STRD :: "int \<Rightarrow> int res" where
  "STRD t = (if t = 0 then Inl (Panic ''divide error'') else Inr (LARGENUM sdiv t))"

subsection \<open>Processes\<close>

datatype procstate = UNUSED | EMBRYO | SLEEPING | RUNNABLE | RUNNING | ZOMBIE

datatype schedtype = MLFQ | STRIDE

text \<open>
  A sleep channel is an address that is only compared. The objects the kernel sleeps on are a
  process, a cached inode, the buffer of a disk block, the log, the two ends of a pipe (named by its
  page), the tick counter, and other addresses.
\<close>

datatype chan = Chan_proc nat | Chan_addr nat | Chan_inode nat | Chan_block "u32 \<times> u32" | Chan_log
  | Chan_nread u32 | Chan_nwrite u32 | Chan_ticks

record proc =
  sz :: u32
  pgdir :: u32
  kstack :: u32
  ustack :: u32
  state :: procstate
  pid :: int
  parent :: "nat option"
  tf :: u32
  kcontext :: u32
  chan :: "chan option"
  killed :: bool
  ofile :: "nat option list"
  cwd :: "nat option"
  pname :: "u8 list"
  type :: schedtype
  tickets :: int
  pass :: int
  ticks :: u32
  privlevel :: nat
  tid :: int
  thmain :: "nat option"
  retval :: u32

datatype node = Queue nat | Sleep_head | Free_head | Run_head
  | Children nat | Sibling nat | Sleep nat | Mlfq nat | Free nat | Run nat | Thgroup nat

record ptable = vmem +
  plock :: bool
  nheld :: int
  procs :: "nat \<Rightarrow> proc"
  links :: "node lstore"
  mlfq_tickets :: int
  mlfq_pass :: int
  mlfq_ticks :: u32
  pin :: "nat \<Rightarrow> node"
  stride_size :: int
  minheap :: "nat option list"
  nproc :: int
  nextpid :: int
  initproc :: "nat option"
  cur :: "nat option"

subsection \<open>The zeroed table\<close>

text \<open>
  The kernel's data before \<open>pinit\<close>: the table is in the zero-initialised segment, \<open>nproc\<close> and
  \<open>nextpid\<close> have their initialisers. The pins hold what \<open>pinit\<close> stores there; nothing reads
  them before.
\<close>

definition zero_proc :: proc where
  "zero_proc = \<lparr>sz = 0, pgdir = 0, kstack = 0, ustack = 0, state = UNUSED, pid = 0, parent = None,
     tf = 0, kcontext = 0, chan = None, killed = False, ofile = replicate NOFILE None, cwd = None,
     pname = replicate 16 0, type = MLFQ, tickets = 0, pass = 0, ticks = 0, privlevel = 0, tid = 0,
     thmain = None, retval = 0\<rparr>"

definition zero_ptable :: ptable where
  "zero_ptable = \<lparr>pmem = (\<lambda>_. 0), freelist = 0, use_lock = False, kmem_lock = False, kend = 0,
     kdata = 0x80108000,
     trapret = 0x80105f00, forkret = 0x80103d00, kpgdir = 0, cr3 = 0, esp0 = 0, plock = False, nheld = 0, procs = (\<lambda>_. zero_proc), links = (\<lambda>_. \<lparr>prv = None, nxt = None\<rparr>),
     mlfq_tickets = 0, mlfq_pass = 0, mlfq_ticks = 0, pin = (\<lambda>l. Queue l), stride_size = 0,
     minheap = replicate NPROC None, nproc = int NPROC, nextpid = 1, initproc = None, cur = None\<rparr>"

definition upd :: "nat \<Rightarrow> (proc \<Rightarrow> proc) \<Rightarrow> 'a ptable_scheme \<Rightarrow> 'a ptable_scheme" where
  "upd p f s = s\<lparr>procs := (procs s)(p := f (procs s p))\<rparr>"

definition on_links :: "(node lstore \<Rightarrow> node lstore res) \<Rightarrow> 'a ptable_scheme \<Rightarrow> 'a ptable_scheme res" where
  "on_links f s = rbind (f (links s)) (\<lambda>lk. Inr (s\<lparr>links := lk\<rparr>))"

fun entry_mlfq :: "node \<Rightarrow> nat res" where
  "entry_mlfq (Mlfq p) = Inr p"
| "entry_mlfq _ = Inl Wild_pointer"

fun entry_sleep :: "node \<Rightarrow> nat res" where
  "entry_sleep (Sleep p) = Inr p"
| "entry_sleep _ = Inl Wild_pointer"

fun entry_free :: "node \<Rightarrow> nat res" where
  "entry_free (Free p) = Inr p"
| "entry_free _ = Inl Wild_pointer"

fun entry_run :: "node \<Rightarrow> nat res" where
  "entry_run (Run p) = Inr p"
| "entry_run _ = Inl Wild_pointer"

fun entry_sibling :: "node \<Rightarrow> nat res" where
  "entry_sibling (Sibling p) = Inr p"
| "entry_sibling _ = Inl Wild_pointer"

fun entry_thgroup :: "node \<Rightarrow> nat res" where
  "entry_thgroup (Thgroup p) = Inr p"
| "entry_thgroup _ = Inl Wild_pointer"

text \<open>
  The table lock. \<open>nheld\<close> counts the spinlocks the current CPU holds (the nesting depth of
  \<open>pushcli\<close>; that interrupts are off while it is positive is shown in \<open>Spinlock\<close>).
\<close>

definition ptable_acquire :: "'a ptable_scheme \<Rightarrow> 'a ptable_scheme res" where
  "ptable_acquire s = rbind (take_lock (plock s)) (\<lambda>l. Inr (s\<lparr>plock := l, nheld := nheld s + 1\<rparr>))"

definition ptable_release :: "'a ptable_scheme \<Rightarrow> 'a ptable_scheme res" where
  "ptable_release s = rbind (drop_lock (plock s)) (\<lambda>l. Inr (s\<lparr>plock := l, nheld := nheld s - 1\<rparr>))"

subsection \<open>Main threads\<close>

fun main_thread_from :: "nat \<Rightarrow> nat \<Rightarrow> 'a ptable_scheme \<Rightarrow> nat res" where
  "main_thread_from 0 th s = Inl Diverges"
| "main_thread_from (Suc fuel) th s =
     (if Some th \<noteq> thmain (procs s th)
      then rbind (deref (thmain (procs s th))) (\<lambda>th. main_thread_from fuel th s)
      else Inr th)"

definition main_thread :: "nat \<Rightarrow> 'a ptable_scheme \<Rightarrow> nat res" where
  "main_thread th s = main_thread_from NPROC th s"

subsection \<open>Iterating over the threads of a process\<close>

fun threads_loop :: "nat \<Rightarrow> node \<Rightarrow> node option \<Rightarrow>
    (nat \<Rightarrow> 'a ptable_scheme \<Rightarrow> (bool \<times> 'a ptable_scheme) res) \<Rightarrow>
    'a ptable_scheme \<Rightarrow> (nat option \<times> 'a ptable_scheme) res" where
  "threads_loop 0 start itr routine s = Inl Diverges"
| "threads_loop (Suc fuel) start itr routine s =
     rbind (deref itr) (\<lambda>i.
     rbind (entry_thgroup i) (\<lambda>th.
     let itr = nxt (links s i)
     in rbind (routine th s) (\<lambda>(r, s).
        if r then Inr (Some th, s)
        else if itr \<noteq> Some start then threads_loop fuel start itr routine s
        else Inr (None, s))))"

definition threads_apply0 :: "nat \<Rightarrow> (nat \<Rightarrow> 'a ptable_scheme \<Rightarrow> (bool \<times> 'a ptable_scheme) res) \<Rightarrow>
    'a ptable_scheme \<Rightarrow> (nat option \<times> 'a ptable_scheme) res" where
  "threads_apply0 p routine s =
     rbind (deref (nxt (links s (Thgroup p)))) (\<lambda>start.
     threads_loop NPROC start (Some start) routine s)"

definition threads_apply1 :: "nat \<Rightarrow> (nat \<Rightarrow> 'b \<Rightarrow> 'a ptable_scheme \<Rightarrow> (bool \<times> 'a ptable_scheme) res) \<Rightarrow>
    'b \<Rightarrow> 'a ptable_scheme \<Rightarrow> (nat option \<times> 'a ptable_scheme) res" where
  "threads_apply1 p routine arg s =
     rbind (deref (nxt (links s (Thgroup p)))) (\<lambda>start.
     threads_loop NPROC start (Some start) (\<lambda>th. routine th arg) s)"

definition routine_get_thread :: "nat \<Rightarrow> int \<Rightarrow> 'a ptable_scheme \<Rightarrow> (bool \<times> 'a ptable_scheme) res" where
  "routine_get_thread th t s = Inr (tid (procs s th) = t, s)"

definition routine_is_ready :: "nat \<Rightarrow> 'a ptable_scheme \<Rightarrow> (bool \<times> 'a ptable_scheme) res" where
  "routine_is_ready th s = Inr (state (procs s th) = RUNNABLE, s)"

definition routine_is_sleeping :: "nat \<Rightarrow> 'a ptable_scheme \<Rightarrow> (bool \<times> 'a ptable_scheme) res" where
  "routine_is_sleeping th s = Inr (state (procs s th) = SLEEPING, s)"

definition routine_is_ready_or_running :: "nat \<Rightarrow> 'a ptable_scheme \<Rightarrow> (bool \<times> 'a ptable_scheme) res" where
  "routine_is_ready_or_running th s =
     Inr (state (procs s th) = RUNNABLE \<or> state (procs s th) = RUNNING, s)"

definition routine_kill_thread :: "nat \<Rightarrow> 'a ptable_scheme \<Rightarrow> (bool \<times> 'a ptable_scheme) res" where
  "routine_kill_thread th s = Inr (False, upd th (\<lambda>p. p\<lparr>killed := True\<rparr>) s)"

definition routine_usurp_proc :: "nat \<Rightarrow> nat \<Rightarrow> 'a ptable_scheme \<Rightarrow> (bool \<times> 'a ptable_scheme) res" where
  "routine_usurp_proc th main s = Inr (False, upd th (\<lambda>p. p\<lparr>thmain := Some main\<rparr>) s)"

definition routine_handle_orphan_thread ::
    "nat \<Rightarrow> nat \<Rightarrow> 'a ptable_scheme \<Rightarrow> (bool \<times> 'a ptable_scheme) res" where
  "routine_handle_orphan_thread th main s =
     (if thmain (procs s th) = Some main
      then rbind (main_thread main s) (\<lambda>m. Inr (False, upd th (\<lambda>p. p\<lparr>thmain := Some m\<rparr>) s))
      else Inr (False, s))"

text \<open>
  The searches do not change the state; the models return what is found.
\<close>

definition get_thread :: "nat \<Rightarrow> int \<Rightarrow> 'a ptable_scheme \<Rightarrow> nat option res" where
  "get_thread p thread s = rbind (threads_apply1 p routine_get_thread thread s) (\<lambda>(th, _). Inr th)"

definition ready_thread :: "nat \<Rightarrow> 'a ptable_scheme \<Rightarrow> nat option res" where
  "ready_thread th s = rbind (threads_apply0 th routine_is_ready s) (\<lambda>(th, _). Inr th)"

definition sleeping_thread :: "nat \<Rightarrow> 'a ptable_scheme \<Rightarrow> nat option res" where
  "sleeping_thread th s = rbind (threads_apply0 th routine_is_sleeping s) (\<lambda>(th, _). Inr th)"

definition ready_or_running_thread :: "nat \<Rightarrow> 'a ptable_scheme \<Rightarrow> nat option res" where
  "ready_or_running_thread th s =
     rbind (threads_apply0 th routine_is_ready_or_running s) (\<lambda>(th, _). Inr th)"

fun thread_size_loop :: "nat \<Rightarrow> node \<Rightarrow> node \<Rightarrow> int \<Rightarrow> 'a ptable_scheme \<Rightarrow> int res" where
  "thread_size_loop 0 start itr n s = Inl Diverges"
| "thread_size_loop (Suc fuel) start itr n s =
     rbind (deref (nxt (links s itr))) (\<lambda>itr.
     if itr \<noteq> start then thread_size_loop fuel start itr (n + 1) s else Inr (n + 1))"

definition thread_size :: "nat \<Rightarrow> 'a ptable_scheme \<Rightarrow> int res" where
  "thread_size p s = thread_size_loop NPROC (Thgroup p) (Thgroup p) 0 s"

definition terminate_proc :: "nat \<Rightarrow> 'a ptable_scheme \<Rightarrow> 'a ptable_scheme res" where
  "terminate_proc p s = rbind (threads_apply0 p routine_kill_thread s) (\<lambda>(_, s). Inr s)"

subsection \<open>What the iteration does\<close>

text \<open>The threads of the group of \<open>p\<close> other than \<open>p\<close>, in ring order after \<open>p\<close>.\<close>

definition tgroup :: "node lstore \<Rightarrow> nat \<Rightarrow> nat list \<Rightarrow> bool" where
  "tgroup lk p ts = (dlist lk (Thgroup p) (map Thgroup ts) \<and> length ts < NPROC)"

lemma main_thread_from_cong: "procs s' = procs s \<Longrightarrow> main_thread_from n p s' = main_thread_from n p s"
  by (induction n arbitrary: p) simp_all

lemma main_thread_cong: "procs s' = procs s \<Longrightarrow> main_thread p s' = main_thread p s"
  unfolding main_thread_def by (rule main_thread_from_cong)

lemma main_thread_self: "thmain (procs s p) = Some p \<Longrightarrow> main_thread p s = Inr p"
  using main_thread_from.simps(2) [of 255 p s] by (simp add: main_thread_def)

lemma main_thread_step:
  "thmain (procs s p) = Some m \<Longrightarrow> thmain (procs s m) = Some m \<Longrightarrow> main_thread p s = Inr m"
  using main_thread_from.simps(2) [of 255 p s] main_thread_from.simps(2) [of 254 m s]
  by (simp add: main_thread_def split: if_splits)

lemma main_thread_other [simp]:
  "main_thread p (s\<lparr>links := x1\<rparr>) = main_thread p s"
  "main_thread p (s\<lparr>mlfq_tickets := x2\<rparr>) = main_thread p s"
  "main_thread p (s\<lparr>mlfq_pass := x3\<rparr>) = main_thread p s"
  "main_thread p (s\<lparr>mlfq_ticks := x4\<rparr>) = main_thread p s"
  "main_thread p (s\<lparr>pin := x5\<rparr>) = main_thread p s"
  "main_thread p (s\<lparr>stride_size := x6\<rparr>) = main_thread p s"
  "main_thread p (s\<lparr>minheap := x7\<rparr>) = main_thread p s"
  "main_thread p (s\<lparr>nproc := x8\<rparr>) = main_thread p s"
  "main_thread p (s\<lparr>nextpid := x9\<rparr>) = main_thread p s"
  "main_thread p (s\<lparr>initproc := x10\<rparr>) = main_thread p s"
  "main_thread p (s\<lparr>cur := x11\<rparr>) = main_thread p s"
  "main_thread p (s\<lparr>plock := x12\<rparr>) = main_thread p s"
  by (rule main_thread_cong, simp)+

text \<open>Apply a routine to threads until one returns a non-null value.\<close>

fun apply_until :: "(nat \<Rightarrow> 's \<Rightarrow> (bool \<times> 's) res) \<Rightarrow> nat list \<Rightarrow> 's \<Rightarrow> (nat option \<times> 's) res" where
  "apply_until routine [] s = Inr (None, s)"
| "apply_until routine (th # ths) s =
     rbind (routine th s) (\<lambda>(r, s). if r then Inr (Some th, s) else apply_until routine ths s)"

definition keeps_groups :: "(nat \<Rightarrow> 'a ptable_scheme \<Rightarrow> (bool \<times> 'a ptable_scheme) res) \<Rightarrow> bool" where
  "keeps_groups routine =
     (\<forall>th s r s' n. routine th s = Inr (r, s') \<longrightarrow> links s' (Thgroup n) = links s (Thgroup n))"

fun thchain :: "node lstore \<Rightarrow> nat list \<Rightarrow> nat \<Rightarrow> bool" where
  "thchain lk [] st = True"
| "thchain lk [x] st = (nxt (lk (Thgroup x)) = Some (Thgroup st))"
| "thchain lk (x # y # r) st = (nxt (lk (Thgroup x)) = Some (Thgroup y) \<and> thchain lk (y # r) st)"

lemma thchain_cong:
  "(\<And>n. lk' (Thgroup n) = lk (Thgroup n)) \<Longrightarrow> thchain lk' xs st = thchain lk xs st"
  by (induction lk xs st rule: thchain.induct) auto

lemma dseg_thchain:
  "dseg lk a (map Thgroup ts) (Thgroup p) \<Longrightarrow> nxt (lk (Thgroup p)) = Some (Thgroup st) \<Longrightarrow>
   thchain lk (ts @ [p]) st"
proof (induction ts arbitrary: a)
  case (Cons t ts)
  then show ?case by (cases ts) auto
qed simp

text \<open>
  The iteration reads the ring while the routine runs. It is enough that the routine keeps the
  rings in the states it is called in.
\<close>

fun groups_kept :: "(nat \<Rightarrow> 'a ptable_scheme \<Rightarrow> (bool \<times> 'a ptable_scheme) res) \<Rightarrow> nat list \<Rightarrow>
    'a ptable_scheme \<Rightarrow> bool" where
  "groups_kept routine [] s = True"
| "groups_kept routine (th # ths) s =
     (\<forall>s'. routine th s = Inr (False, s') \<longrightarrow>
        (\<forall>n. links s' (Thgroup n) = links s (Thgroup n)) \<and> groups_kept routine ths s')"

lemma keeps_groups_kept: "keeps_groups routine \<Longrightarrow> groups_kept routine ths s"
  by (induction ths arbitrary: s) (auto simp: keeps_groups_def)

lemma threads_loop_kept:
  "groups_kept routine (th # rest) s \<Longrightarrow> thchain (links s) (th # rest) st \<Longrightarrow> st \<notin> set rest \<Longrightarrow>
   length rest < fuel \<Longrightarrow>
   threads_loop fuel (Thgroup st) (Some (Thgroup th)) routine s = apply_until routine (th # rest) s"
proof (induction rest arbitrary: th s fuel)
  case Nil
  then obtain f where "fuel = Suc f" by (cases fuel) auto
  with Nil show ?case by (auto simp: Let_def split: prod.splits intro!: rbind_cong)
next
  case (Cons x rest)
  then obtain f where f: "fuel = Suc f" by (cases fuel) auto
  have "threads_loop f (Thgroup st) (Some (Thgroup x)) routine s' = apply_until routine (x # rest) s'"
    if "routine th s = Inr (False, s')" for s'
  proof (rule Cons.IH)
    have "links s' (Thgroup n) = links s (Thgroup n)" for n
      using Cons.prems(1) that by simp
    then show "thchain (links s') (x # rest) st"
      using Cons.prems(2) thchain_cong [of "links s'" "links s" "x # rest" st] by simp
    show "groups_kept routine (x # rest) s'" using Cons.prems(1) that by simp
  qed (use Cons.prems f in auto)
  with Cons.prems f show ?case
    by (auto simp: Let_def split: prod.splits intro!: rbind_cong)
qed

lemma threads_apply0_kept:
  assumes "tgroup (links s) p ts" and "groups_kept routine (ts @ [p]) s"
  shows "threads_apply0 p routine s = apply_until routine (ts @ [p]) s"
proof -
  let ?st = "hd (ts @ [p])"
  have seg: "dseg (links s) (Thgroup p) (map Thgroup ts) (Thgroup p)"
    and dis: "distinct (p # ts)"
    using assms(1) by (auto simp: tgroup_def dlist_def distinct_map)
  have n: "nxt (links s (Thgroup p)) = Some (Thgroup ?st)"
    using dseg_first [OF seg] by (cases ts) auto
  have e: "ts @ [p] = ?st # tl (ts @ [p])" by (cases ts) auto
  have "thchain (links s) (?st # tl (ts @ [p])) ?st"
    using dseg_thchain [OF seg n] e by simp
  moreover have "groups_kept routine (?st # tl (ts @ [p])) s" using assms(2) e by simp
  moreover have "?st \<notin> set (tl (ts @ [p]))" "length (tl (ts @ [p])) < NPROC"
    using assms(1) dis by (cases ts; auto simp: tgroup_def)+
  ultimately have "threads_loop NPROC (Thgroup ?st) (Some (Thgroup ?st)) routine s =
      apply_until routine (?st # tl (ts @ [p])) s"
    by (intro threads_loop_kept)
  then show ?thesis
    using e by (simp add: threads_apply0_def n del: apply_until.simps)
qed

lemma threads_apply1_kept:
  assumes "tgroup (links s) p ts" and "groups_kept (\<lambda>th. routine th arg) (ts @ [p]) s"
  shows "threads_apply1 p routine arg s = apply_until (\<lambda>th. routine th arg) (ts @ [p]) s"
  using threads_apply0_kept [OF assms] by (simp add: threads_apply0_def threads_apply1_def)

lemmas threads_apply0_eq = threads_apply0_kept [OF _ keeps_groups_kept]
lemmas threads_apply1_eq = threads_apply1_kept [OF _ keeps_groups_kept]

text \<open>Searches: the routine is a test on the state.\<close>

lemma apply_until_find:
  "(\<And>th. th \<in> set ths \<Longrightarrow> routine th s = Inr (P th, s)) \<Longrightarrow> apply_until routine ths s = Inr (find P ths, s)"
  by (induction ths) auto

text \<open>Updates: the routine never stops the iteration.\<close>

lemma apply_until_all:
  "(\<And>th s. th \<in> set ths \<Longrightarrow> routine th s = rbind (f th s) (\<lambda>s. Inr (False, s))) \<Longrightarrow>
   apply_until routine ths s = rbind (rfold f ths s) (\<lambda>s. Inr (None, s))"
proof (induction ths arbitrary: s)
  case (Cons th ths)
  then show ?case by (simp add: rbind_assoc cong: rbind_cong)
qed simp

named_theorems routine_defs \<open>the routines of the thread iteration\<close>

lemmas routines [routine_defs] = routine_get_thread_def routine_is_ready_def routine_is_sleeping_def
  routine_is_ready_or_running_def routine_kill_thread_def routine_usurp_proc_def
  routine_handle_orphan_thread_def upd_def

lemma keeps_groups_routines [simp]:
  "keeps_groups routine_is_ready" "keeps_groups routine_is_sleeping"
  "keeps_groups routine_is_ready_or_running" "keeps_groups routine_kill_thread"
  "keeps_groups (\<lambda>th. routine_get_thread th t)" "keeps_groups (\<lambda>th. routine_usurp_proc th m)"
  "keeps_groups (\<lambda>th. routine_handle_orphan_thread th m)"
  by (auto simp: keeps_groups_def routine_defs res_simps split: if_splits)

lemma get_thread_eq:
  "tgroup (links s) p ts \<Longrightarrow> get_thread p t s = Inr (find (\<lambda>th. tid (procs s th) = t) (ts @ [p]))"
  unfolding get_thread_def
  by (subst threads_apply1_eq, assumption, simp, subst apply_until_find) (simp_all add: routine_defs)

lemma ready_thread_eq:
  "tgroup (links s) p ts \<Longrightarrow> ready_thread p s = Inr (find (\<lambda>th. state (procs s th) = RUNNABLE) (ts @ [p]))"
  unfolding ready_thread_def
  by (subst threads_apply0_eq, assumption, simp, subst apply_until_find) (simp_all add: routine_defs)

lemma sleeping_thread_eq:
  "tgroup (links s) p ts \<Longrightarrow> sleeping_thread p s = Inr (find (\<lambda>th. state (procs s th) = SLEEPING) (ts @ [p]))"
  unfolding sleeping_thread_def
  by (subst threads_apply0_eq, assumption, simp, subst apply_until_find) (simp_all add: routine_defs)

definition active :: "proc \<Rightarrow> bool" where
  "active p = (state p = RUNNABLE \<or> state p = RUNNING)"

lemma ready_or_running_thread_eq:
  "tgroup (links s) p ts \<Longrightarrow>
   ready_or_running_thread p s = Inr (find (\<lambda>th. active (procs s th)) (ts @ [p]))"
  unfolding ready_or_running_thread_def
  by (subst threads_apply0_eq, assumption, simp, subst apply_until_find)
    (simp_all add: routine_defs active_def)

lemma thread_size_loop_eq:
  "dseg (links s) a xs b \<Longrightarrow> b \<notin> set xs \<Longrightarrow> length xs < fuel \<Longrightarrow>
   thread_size_loop fuel b a n s = Inr (n + int (length xs) + 1)"
proof (induction xs arbitrary: a fuel n)
  case Nil
  then show ?case by (cases fuel) auto
next
  case (Cons x xs)
  then show ?case by (cases fuel) auto
qed

lemma thread_size_eq: "tgroup (links s) p ts \<Longrightarrow> thread_size p s = Inr (int (length ts) + 1)"
  by (auto simp: thread_size_def tgroup_def dlist_def thread_size_loop_eq)

lemma terminate_proc_eq:
  assumes "tgroup (links s) p ts"
  shows "terminate_proc p s =
    Inr (s\<lparr>procs := (\<lambda>q. if q \<in> set (p # ts) then (procs s q)\<lparr>killed := True\<rparr> else procs s q)\<rparr>)"
proof -
  let ?kill = "\<lambda>th s. upd th (\<lambda>p. p\<lparr>killed := True\<rparr>) s"
  have "fold ?kill ths s = s\<lparr>procs := (\<lambda>q. if q \<in> set ths then (procs s q)\<lparr>killed := True\<rparr> else procs s q)\<rparr>" for ths s
    by (induction ths arbitrary: s) (auto simp: upd_def fun_eq_iff)
  from this [of "ts @ [p]" s]
  have 1: "fold ?kill (ts @ [p]) s =
      s\<lparr>procs := (\<lambda>q. if q \<in> set (p # ts) then (procs s q)\<lparr>killed := True\<rparr> else procs s q)\<rparr>"
    by simp
  have 2: "rfold (\<lambda>th s. Inr (?kill th s)) (ts @ [p]) s = Inr (fold ?kill (ts @ [p]) s)"
    by (rule rfold_total) simp
  have 3: "apply_until routine_kill_thread (ts @ [p]) s =
      rbind (rfold (\<lambda>th s. Inr (?kill th s)) (ts @ [p]) s) (\<lambda>s. Inr (None, s))"
    by (rule apply_until_all) (simp add: routine_kill_thread_def)
  show ?thesis
    unfolding terminate_proc_def threads_apply0_eq [OF assms keeps_groups_routines(4)] 3 2 1 by simp
qed

end
