(* ===== verification/Stride_Heap.thy ===== *)
theory Stride_Heap
  imports Proc_Table "HOL-Library.Multiset"
begin

section \<open>The stride heap (proc.c: getminpass, pushheap, popheap)\<close>

text \<open>
  The stride scheduler keeps the processes with a guaranteed share in a binary min-heap,
  an array indexed from 1 and ordered by the pass of the main thread. The kernel functions
  are modelled on the array of the table, with every index checked. They are shown equal
  to a pure array heap (\<open>sift_up\<close>, \<open>sift_down\<close> over a function from indices), whose
  operations keep the heap order and the multiset of entries. The contract a scheduler needs
  from a priority queue is the locale \<open>prio_queue\<close>; it is interpreted on the array heap.
\<close>

subsection \<open>The kernel functions\<close>

definition pass_of :: "nat \<Rightarrow> 'a ptable_scheme \<Rightarrow> int res" where
  "pass_of p s = rbind (main_thread p s) (\<lambda>m. Inr (pass (procs s m)))"

definition heap_entry :: "'a ptable_scheme \<Rightarrow> nat \<Rightarrow> nat res" where
  "heap_entry s i = rbind (aget (minheap s) i) deref"

definition getminpass :: "'a ptable_scheme \<Rightarrow> int res" where
  "getminpass s = (if stride_size s > 0 then rbind (heap_entry s 1) (\<lambda>p. pass_of p s) else Inr MAXINT)"

text \<open>
  The loop of \<open>pushheap\<close>. At index 0 a further round would repeat the same state forever.
\<close>

function pushheap_loop :: "int \<Rightarrow> nat \<Rightarrow> 'a ptable_scheme \<Rightarrow> (nat \<times> 'a ptable_scheme) res" where
  "pushheap_loop x i s =
     (if i \<noteq> 1
      then rbind (heap_entry s (i div 2)) (\<lambda>q.
           rbind (pass_of q s) (\<lambda>y.
           if x < y
           then if i = 0 then Inl Diverges
                else rbind (aset (minheap s) i (Some q)) (\<lambda>h.
                     pushheap_loop x (i div 2) (s\<lparr>minheap := h\<rparr>))
           else Inr (i, s)))
      else Inr (i, s))"
  by pat_completeness auto
termination
  by (relation "measure (\<lambda>(x, i, s). i)") auto

declare pushheap_loop.simps [simp del]

definition pushheap :: "nat \<Rightarrow> 'a ptable_scheme \<Rightarrow> 'a ptable_scheme res" where
  "pushheap p s =
     (let i = stride_size s + 1; s = s\<lparr>stride_size := i\<rparr>
      in rbind (pass_of p s) (\<lambda>x.
         if i < 0 then Inl Wild_pointer
         else rbind (pushheap_loop x (nat i) s) (\<lambda>(i, s).
              rbind (aset (minheap s) i (Some p)) (\<lambda>h.
              Inr (s\<lparr>minheap := h\<rparr>)))))"

text \<open>
  The loop of \<open>popheap\<close>, started at child 2; \<open>lst\<close> is what the array holds at the old size, null on a heap
  that was empty.
\<close>

function popheap_loop :: "nat option \<Rightarrow> nat \<Rightarrow> nat \<Rightarrow> 'a ptable_scheme \<Rightarrow> (nat \<times> 'a ptable_scheme) res" where
  "popheap_loop lst par child s =
     (if int child \<le> stride_size s
      then rbind (heap_entry s child) (\<lambda>c.
           rbind (pass_of c s) (\<lambda>y.
           rbind (if int child < stride_size s
                  then rbind (heap_entry s (child + 1)) (\<lambda>d. rbind (pass_of d s) (\<lambda>z.
                       Inr (if y > z then (child + 1, d, z) else (child, c, y))))
                  else Inr (child, c, y)) (\<lambda>(child, c, y).
           rbind (deref lst) (\<lambda>l.
           rbind (pass_of l s) (\<lambda>x.
           if x \<le> y then Inr (par, s)
           else rbind (aset (minheap s) par (Some c)) (\<lambda>h.
                if child = 0 then Inl Diverges
                else popheap_loop lst child (child * 2) (s\<lparr>minheap := h\<rparr>)))))))
      else Inr (par, s))"
  by pat_completeness auto
termination
  by (relation "measure (\<lambda>(l, p, c, s). nat (stride_size s + 1) - c)") (auto split: if_splits simp: res_simps)

declare popheap_loop.simps [simp del]

definition popheap :: "'a ptable_scheme \<Rightarrow> (nat option \<times> 'a ptable_scheme) res" where
  "popheap s =
     rbind (aget (minheap s) 1) (\<lambda>min.
     if stride_size s < 0 then Inl Wild_pointer
     else rbind (aget (minheap s) (nat (stride_size s))) (\<lambda>lst.
          rbind (popheap_loop lst 1 2 (s\<lparr>stride_size := stride_size s - 1\<rparr>)) (\<lambda>(par, s).
          rbind (aset (minheap s) par lst) (\<lambda>h.
          Inr (min, s\<lparr>minheap := h\<rparr>)))))"

subsection \<open>The array heap\<close>

text \<open>
  A heap of size \<open>n\<close> is a function from the indices \<open>1..n\<close>. The sifting functions carry
  the element to place and move the others, as the loops of the kernel do.
\<close>

function sift_up :: "('e \<Rightarrow> int) \<Rightarrow> (nat \<Rightarrow> 'e) \<Rightarrow> nat \<Rightarrow> 'e \<Rightarrow> (nat \<Rightarrow> 'e)" where
  "sift_up key h i x =
     (if i \<le> 1 then h(i := x)
      else if key x < key (h (i div 2)) then sift_up key (h(i := h (i div 2))) (i div 2) x
      else h(i := x))"
  by pat_completeness auto
termination
  by (relation "measure (\<lambda>(key, h, i, x). i)") auto

function sift_down :: "('e \<Rightarrow> int) \<Rightarrow> nat \<Rightarrow> (nat \<Rightarrow> 'e) \<Rightarrow> nat \<Rightarrow> 'e \<Rightarrow> (nat \<Rightarrow> 'e)" where
  "sift_down key n h i x =
     (if 0 < i \<and> 2 * i \<le> n
      then let c = (if 2 * i < n \<and> key (h (2 * i)) > key (h (2 * i + 1)) then 2 * i + 1 else 2 * i)
           in if key x \<le> key (h c) then h(i := x)
              else sift_down key n (h(i := h c)) c x
      else h(i := x))"
  by pat_completeness auto
termination
  by (relation "measure (\<lambda>(key, n, h, i, x). n - i)") (auto split: if_splits)

declare sift_up.simps [simp del] sift_down.simps [simp del]

definition heap_ord :: "('e \<Rightarrow> int) \<Rightarrow> nat \<Rightarrow> (nat \<Rightarrow> 'e) \<Rightarrow> bool" where
  "heap_ord key n h = (\<forall>k\<in>{2..n}. key (h (k div 2)) \<le> key (h k))"

definition heap_mset :: "nat \<Rightarrow> (nat \<Rightarrow> 'e) \<Rightarrow> 'e multiset" where
  "heap_mset n h = image_mset h (mset_set {1..n})"

text \<open>The order with a hole at index \<open>i\<close>, whose parent is below its children.\<close>

definition heap_hole :: "('e \<Rightarrow> int) \<Rightarrow> nat \<Rightarrow> (nat \<Rightarrow> 'e) \<Rightarrow> nat \<Rightarrow> bool" where
  "heap_hole key n h i \<longleftrightarrow>
     (\<forall>k\<in>{2..n}. k \<noteq> i \<longrightarrow> k div 2 \<noteq> i \<longrightarrow> key (h (k div 2)) \<le> key (h k)) \<and>
     (2 \<le> i \<longrightarrow> (\<forall>k\<in>{2..n}. k div 2 = i \<longrightarrow> key (h (i div 2)) \<le> key (h k)))"

lemma heap_holeI:
  "(\<And>k. k \<in> {2..n} \<Longrightarrow> k \<noteq> i \<Longrightarrow> k div 2 \<noteq> i \<Longrightarrow> key (h (k div 2)) \<le> key (h k)) \<Longrightarrow>
   (\<And>k. 2 \<le> i \<Longrightarrow> k \<in> {2..n} \<Longrightarrow> k div 2 = i \<Longrightarrow> key (h (i div 2)) \<le> key (h k)) \<Longrightarrow>
   heap_hole key n h i"
  unfolding heap_hole_def by blast

lemma heap_holeD:
  "heap_hole key n h i \<Longrightarrow> k \<in> {2..n} \<Longrightarrow> k \<noteq> i \<Longrightarrow> k div 2 \<noteq> i \<Longrightarrow> key (h (k div 2)) \<le> key (h k)"
  "heap_hole key n h i \<Longrightarrow> 2 \<le> i \<Longrightarrow> k \<in> {2..n} \<Longrightarrow> k div 2 = i \<Longrightarrow> key (h (i div 2)) \<le> key (h k)"
  unfolding heap_hole_def by blast+

lemma heap_mset_move:
  assumes "i \<in> {1..n}" "j \<in> {1..n}" "i \<noteq> j"
  shows "heap_mset n (h(i := h j, j := x)) = heap_mset n (h(i := x))"
proof -
  have "mset_set {1..n} = add_mset i (add_mset j (mset_set ({1..n} - {i} - {j})))"
    using assms mset_set.remove [of "{1..n}" i] mset_set.remove [of "{1..n} - {i}" j] by simp
  moreover have "image_mset (h(i := h j, j := x)) (mset_set ({1..n} - {i} - {j})) =
      image_mset (h(i := x)) (mset_set ({1..n} - {i} - {j}))"
    by (intro image_mset_cong) auto
  ultimately show ?thesis using assms by (simp add: heap_mset_def)
qed

lemma sift_up_mset: "1 \<le> i \<Longrightarrow> i \<le> n \<Longrightarrow> heap_mset n (sift_up key h i x) = heap_mset n (h(i := x))"
proof (induction key h i x rule: sift_up.induct)
  case (1 key h i x)
  show ?case
  proof (cases "i \<le> 1 \<or> \<not> key x < key (h (i div 2))")
    case True
    then show ?thesis by (subst sift_up.simps) auto
  next
    case False
    then have eq: "sift_up key h i x = sift_up key (h(i := h (i div 2))) (i div 2) x"
      by (subst sift_up.simps) auto
    have "heap_mset n (sift_up key h i x) = heap_mset n (h(i := h (i div 2), i div 2 := x))"
      unfolding eq using False "1.prems" by (intro "1.IH") auto
    also have "\<dots> = heap_mset n (h(i := x))"
      using False "1.prems" by (intro heap_mset_move) auto
    finally show ?thesis .
  qed
qed

lemma heap_hole_up:
  assumes "heap_hole key n h i" "\<forall>k\<in>{2..n}. k div 2 = i \<longrightarrow> key x \<le> key (h k)" "2 \<le> i"
    "key x < key (h (i div 2))" "i \<le> n"
  shows "heap_hole key n (h(i := h (i div 2))) (i div 2)"
    and "\<forall>k\<in>{2..n}. k div 2 = i div 2 \<longrightarrow> key x \<le> key ((h(i := h (i div 2))) k)"
proof -
  show "\<forall>k\<in>{2..n}. k div 2 = i div 2 \<longrightarrow> key x \<le> key ((h(i := h (i div 2))) k)"
  proof (intro ballI impI)
    fix k assume k: "k \<in> {2..n}" "k div 2 = i div 2"
    have "k \<noteq> i \<Longrightarrow> k div 2 \<noteq> i" using k assms(3) by auto
    then have "k \<noteq> i \<Longrightarrow> key (h (i div 2)) \<le> key (h k)"
      using assms(1) k by (auto simp: heap_hole_def)
    then show "key x \<le> key ((h(i := h (i div 2))) k)" using assms(4) by auto
  qed
  have "key ((h(i := h (i div 2))) (k div 2)) \<le> key ((h(i := h (i div 2))) k)"
    if "k \<in> {2..n}" "k \<noteq> i div 2" "k div 2 \<noteq> i div 2" for k
  proof (cases "k div 2 = i")
    case True
    then have "k \<noteq> i" using assms(3) by auto
    with True heap_holeD(2) [OF assms(1,3) that(1)] that show ?thesis by simp
  next
    case False
    with heap_holeD(1) [OF assms(1) that(1)] that show ?thesis by simp
  qed
  moreover have "key ((h(i := h (i div 2))) (i div 2 div 2)) \<le> key ((h(i := h (i div 2))) k)"
    if "2 \<le> i div 2" "k \<in> {2..n}" "k div 2 = i div 2" for k
  proof -
    have a: "i div 2 div 2 \<noteq> i" "i div 2 div 2 \<noteq> i div 2" "i div 2 \<noteq> i" using that(1) by auto
    have *: "key (h (i div 2 div 2)) \<le> key (h (i div 2))"
      using assms(1,5) that(1) a by (simp add: heap_hole_def)
    have "k \<noteq> i \<Longrightarrow> key (h (i div 2)) \<le> key (h k)"
      using heap_holeD(1) [OF assms(1) that(2)] that(3) a by simp
    with * a show ?thesis by (cases "k = i") simp_all
  qed
  ultimately show "heap_hole key n (h(i := h (i div 2))) (i div 2)"
    by (rule heap_holeI)
qed

lemma heap_hole_fill:
  assumes "heap_hole key n h i" "\<forall>k\<in>{2..n}. k div 2 = i \<longrightarrow> key x \<le> key (h k)"
    "2 \<le> i \<longrightarrow> key (h (i div 2)) \<le> key x" "1 \<le> i"
  shows "heap_ord key n (h(i := x))"
proof -
  have "key ((h(i := x)) (k div 2)) \<le> key ((h(i := x)) k)" if "k \<in> {2..n}" for k
  proof (cases "k = i")
    case True
    then show ?thesis using that assms(3) by auto
  next
    case False
    then show ?thesis using that assms(1,2) by (auto simp: heap_hole_def)
  qed
  then show ?thesis by (simp add: heap_ord_def)
qed

lemma sift_up_ord:
  "heap_hole key n h i \<Longrightarrow> \<forall>k\<in>{2..n}. k div 2 = i \<longrightarrow> key x \<le> key (h k) \<Longrightarrow> 1 \<le> i \<Longrightarrow> i \<le> n \<Longrightarrow>
   heap_ord key n (sift_up key h i x)"
proof (induction key h i x rule: sift_up.induct)
  case (1 key h i x)
  show ?case
  proof (cases "i \<le> 1 \<or> \<not> key x < key (h (i div 2))")
    case True
    then have eq: "sift_up key h i x = h(i := x)" by (subst sift_up.simps) auto
    show ?thesis unfolding eq using True "1.prems" by (intro heap_hole_fill) auto
  next
    case False
    then have 2: "2 \<le> i" "key x < key (h (i div 2))" by auto
    then have eq: "sift_up key h i x = sift_up key (h(i := h (i div 2))) (i div 2) x"
      by (subst sift_up.simps) auto
    show ?thesis
      unfolding eq
    proof (rule "1.IH")
      show "heap_hole key n (h(i := h (i div 2))) (i div 2)"
        by (rule heap_hole_up(1) [OF "1.prems"(1,2) 2 "1.prems"(4)])
      show "\<forall>k\<in>{2..n}. k div 2 = i div 2 \<longrightarrow> key x \<le> key ((h(i := h (i div 2))) k)"
        by (rule heap_hole_up(2) [OF "1.prems"(1,2) 2 "1.prems"(4)])
    qed (use False "1.prems" in auto)
  qed
qed

lemma child_cases:
  "k div 2 = i \<Longrightarrow> (k::nat) = 2 * i \<or> k = 2 * i + 1"
  by auto

lemma sift_down_mset: "1 \<le> i \<Longrightarrow> i \<le> n \<Longrightarrow> heap_mset n (sift_down key n h i x) = heap_mset n (h(i := x))"
proof (induction key n h i x rule: sift_down.induct)
  case (1 key n h i x)
  define c where "c = (if 2 * i < n \<and> key (h (2 * i)) > key (h (2 * i + 1)) then 2 * i + 1 else 2 * i)"
  show ?case
  proof (cases "2 * i \<le> n \<and> \<not> key x \<le> key (h c)")
    case False
    then show ?thesis using "1.prems" by (subst sift_down.simps) (auto simp: Let_def c_def)
  next
    case True
    have eq: "sift_down key n h i x = sift_down key n (h(i := h c)) c x"
      using True "1.prems" by (subst sift_down.simps) (auto simp: Let_def c_def)
    have c: "c \<in> {1..n}" "c \<noteq> i" using True "1.prems" by (auto simp: c_def)
    have "heap_mset n (sift_down key n h i x) = heap_mset n (h(i := h c, c := x))"
      unfolding eq using True "1.prems" c by (intro "1.IH" [OF _ c_def]) auto
    also have "\<dots> = heap_mset n (h(i := x))"
      using "1.prems" c by (intro heap_mset_move) auto
    finally show ?thesis .
  qed
qed

lemma heap_hole_down:
  assumes "heap_hole key n h i" "1 \<le> i" "c \<in> {2..n}" "c div 2 = i"
    "\<forall>k\<in>{2..n}. k div 2 = i \<longrightarrow> key (h c) \<le> key (h k)"
  shows "heap_hole key n (h(i := h c)) c"
proof -
  have ci: "c \<noteq> i" "i \<noteq> i div 2" "c \<noteq> i div 2" using assms(2,3,4) by auto
  have "key ((h(i := h c)) (k div 2)) \<le> key ((h(i := h c)) k)"
    if "k \<in> {2..n}" "k \<noteq> c" "k div 2 \<noteq> c" for k
  proof (cases "k div 2 = i")
    case True
    then have "k \<noteq> i" using assms(2) by auto
    with True that assms(5) show ?thesis by simp
  next
    case False
    show ?thesis
    proof (cases "k = i")
      case True
      with heap_holeD(2) [OF assms(1) _ assms(3,4)] that ci show ?thesis by simp
    next
      case False
      with heap_holeD(1) [OF assms(1) that(1)] \<open>k div 2 \<noteq> i\<close> show ?thesis by simp
    qed
  qed
  moreover have "key ((h(i := h c)) (c div 2)) \<le> key ((h(i := h c)) k)"
    if "k \<in> {2..n}" "k div 2 = c" for k
  proof -
    have "k \<noteq> c" "k \<noteq> i" "c \<noteq> i" using that assms(2,3,4) ci by auto
    then have "key (h c) \<le> key (h k)" using heap_holeD(1) [OF assms(1) that(1)] that(2) by simp
    with \<open>k \<noteq> i\<close> assms(4) show ?thesis by simp
  qed
  ultimately show ?thesis by (rule heap_holeI)
qed

lemma sift_down_ord:
  "heap_hole key n h i \<Longrightarrow> (2 \<le> i \<longrightarrow> key (h (i div 2)) \<le> key x) \<Longrightarrow> 1 \<le> i \<Longrightarrow>
   heap_ord key n (sift_down key n h i x)"
proof (induction key n h i x rule: sift_down.induct)
  case (1 key n h i x)
  define c where "c = (if 2 * i < n \<and> key (h (2 * i)) > key (h (2 * i + 1)) then 2 * i + 1 else 2 * i)"
  have least: "\<forall>k\<in>{2..n}. k div 2 = i \<longrightarrow> key (h c) \<le> key (h k)"
  proof (intro ballI impI)
    fix k assume "k \<in> {2..n}" "k div 2 = i"
    with child_cases [OF this(2)] show "key (h c) \<le> key (h k)" by (auto simp: c_def)
  qed
  show ?case
  proof (cases "2 * i \<le> n \<and> \<not> key x \<le> key (h c)")
    case False
    then have eq: "sift_down key n h i x = h(i := x)"
      using "1.prems" by (subst sift_down.simps) (auto simp: Let_def c_def)
    have "\<forall>k\<in>{2..n}. k div 2 = i \<longrightarrow> key x \<le> key (h k)"
    proof (intro ballI impI)
      fix k assume k: "k \<in> {2..n}" "k div 2 = i"
      with child_cases [OF k(2)] False have "key x \<le> key (h c)" by auto
      moreover have "key (h c) \<le> key (h k)" using least k by simp
      ultimately show "key x \<le> key (h k)" by simp
    qed
    with "1.prems" show ?thesis unfolding eq by (intro heap_hole_fill) auto
  next
    case True
    have eq: "sift_down key n h i x = sift_down key n (h(i := h c)) c x"
      using True "1.prems" by (subst sift_down.simps) (auto simp: Let_def c_def)
    have c: "c \<in> {2..n}" "c div 2 = i" using True "1.prems" by (auto simp: c_def)
    have "heap_hole key n (h(i := h c)) c"
      using "1.prems" c least by (intro heap_hole_down) auto
    moreover have "2 \<le> c \<longrightarrow> key ((h(i := h c)) (c div 2)) \<le> key x" using True c by simp
    moreover have "0 < i \<and> 2 * i \<le> n" "\<not> key x \<le> key (h c)" "1 \<le> c"
      using True "1.prems"(3) c(1) by simp_all
    ultimately show ?thesis unfolding eq by (intro "1.IH" [OF _ c_def])
  qed
qed

subsection \<open>The contract of a priority queue\<close>

locale prio_queue =
  fixes key :: "'e \<Rightarrow> int"
    and push :: "'e \<Rightarrow> 'q \<Rightarrow> 'q"
    and top :: "'q \<Rightarrow> 'e"
    and pop :: "'q \<Rightarrow> 'q"
    and invar :: "'q \<Rightarrow> bool"
    and elems :: "'q \<Rightarrow> 'e multiset"
  assumes elems_push: "invar q \<Longrightarrow> elems (push x q) = add_mset x (elems q)"
    and invar_push: "invar q \<Longrightarrow> invar (push x q)"
    and elems_pop: "invar q \<Longrightarrow> elems q \<noteq> {#} \<Longrightarrow> elems q = add_mset (top q) (elems (pop q))"
    and invar_pop: "invar q \<Longrightarrow> elems q \<noteq> {#} \<Longrightarrow> invar (pop q)"
    and top_least: "invar q \<Longrightarrow> x \<in># elems q \<Longrightarrow> key (top q) \<le> key x"
begin

lemma in_pop: "invar q \<Longrightarrow> elems q \<noteq> {#} \<Longrightarrow> x = top q \<or> x \<in># elems (pop q) \<Longrightarrow> x \<in># elems q"
proof -
  assume q: "invar q" "elems q \<noteq> {#}" and "x = top q \<or> x \<in># elems (pop q)"
  from this(3) have "x \<in># add_mset (top q) (elems (pop q))" by simp
  then show "x \<in># elems q" unfolding elems_pop [OF q, symmetric] .
qed

lemma top_in: "invar q \<Longrightarrow> elems q \<noteq> {#} \<Longrightarrow> top q \<in># elems q"
  by (rule in_pop) simp_all

lemma pop_mono: "invar q \<Longrightarrow> elems q \<noteq> {#} \<Longrightarrow> elems (pop q) \<noteq> {#} \<Longrightarrow> key (top q) \<le> key (top (pop q))"
proof -
  assume q: "invar q" "elems q \<noteq> {#}" and "elems (pop q) \<noteq> {#}"
  then have "top (pop q) \<in># elems (pop q)" by (intro top_in invar_pop)
  then have "top (pop q) \<in># elems q" by (rule in_pop [OF q disjI2])
  then show ?thesis by (rule top_least [OF q(1)])
qed

lemma push_top: "invar q \<Longrightarrow> elems q \<noteq> {#} \<Longrightarrow> key (top (push x q)) = min (key x) (key (top q))"
proof -
  assume a: "invar q" "elems q \<noteq> {#}"
  let ?t = "top (push x q)"
  have e: "elems (push x q) = add_mset x (elems q)" and i: "invar (push x q)"
    using a elems_push invar_push by simp_all
  have "?t = x \<or> ?t \<in># elems q" using top_in [OF i] e by simp
  moreover have "key ?t \<le> key x" "key ?t \<le> key (top q)"
    using top_least [OF i] e top_in [OF a] by simp_all
  ultimately show ?thesis using top_least [OF a(1), of ?t] by (auto simp: min_def)
qed

end

type_synonym 'e aheap = "nat \<times> (nat \<Rightarrow> 'e)"

definition aheap_push :: "('e \<Rightarrow> int) \<Rightarrow> 'e \<Rightarrow> 'e aheap \<Rightarrow> 'e aheap" where
  "aheap_push key x q = (fst q + 1, sift_up key (snd q) (fst q + 1) x)"

definition aheap_top :: "'e aheap \<Rightarrow> 'e" where
  "aheap_top q = snd q 1"

definition aheap_pop :: "('e \<Rightarrow> int) \<Rightarrow> 'e aheap \<Rightarrow> 'e aheap" where
  "aheap_pop key q = (fst q - 1, sift_down key (fst q - 1) (snd q) 1 (snd q (fst q)))"

definition aheap_ok :: "('e \<Rightarrow> int) \<Rightarrow> 'e aheap \<Rightarrow> bool" where
  "aheap_ok key q = heap_ord key (fst q) (snd q)"

definition aheap_elems :: "'e aheap \<Rightarrow> 'e multiset" where
  "aheap_elems q = heap_mset (fst q) (snd q)"

lemmas aheap_defs = aheap_push_def aheap_top_def aheap_pop_def aheap_ok_def aheap_elems_def

lemma heap_mset_0 [simp]: "heap_mset 0 h = {#}"
  by (simp add: heap_mset_def)

lemma heap_mset_Suc: "heap_mset (Suc n) h = add_mset (h (Suc n)) (heap_mset n h)"
  by (simp add: heap_mset_def atLeastAtMostSuc_conv)

lemma heap_mset_cong: "(\<And>k. k \<in> {1..n} \<Longrightarrow> h k = h' k) \<Longrightarrow> heap_mset n h = heap_mset n h'"
  unfolding heap_mset_def by (intro image_mset_cong) auto

lemma heap_mset_first: "0 < n \<Longrightarrow> add_mset (h 1) (heap_mset n (h(1 := x))) = add_mset x (heap_mset n h)"
  by (induction n) (auto simp: heap_mset_Suc add_mset_commute gr0_conv_Suc)

lemma heap_ord_root: "heap_ord key n h \<Longrightarrow> k \<in> {1..n} \<Longrightarrow> key (h 1) \<le> key (h k)"
proof (induction k rule: less_induct)
  case (less k)
  show ?case
  proof (cases "k = 1")
    case False
    then have "key (h 1) \<le> key (h (k div 2))" using less by auto
    moreover have "key (h (k div 2)) \<le> key (h k)" using less.prems False by (simp add: heap_ord_def)
    ultimately show ?thesis by simp
  qed simp
qed

lemma in_heap_mset: "x \<in># heap_mset n h \<longleftrightarrow> (\<exists>k\<in>{1..n}. x = h k)"
  by (auto simp: heap_mset_def)

lemma heap_mset_empty: "heap_mset n h = {#} \<longleftrightarrow> n = 0"
  by (cases n) (simp_all add: heap_mset_Suc)

lemma heap_ord_hole: "heap_ord key (Suc n) h \<Longrightarrow> heap_hole key n h 1"
  by (rule heap_holeI) (auto simp: heap_ord_def)

interpretation hq: prio_queue key "aheap_push key" aheap_top "aheap_pop key" "aheap_ok key" aheap_elems
  for key :: "'e \<Rightarrow> int"
proof unfold_locales
  fix q :: "'e aheap" and x :: 'e
  obtain n h where q: "q = (n, h)" by force
  show "aheap_elems (aheap_push key x q) = add_mset x (aheap_elems q)"
    using sift_up_mset [of "n + 1" "n + 1" key h x]
      heap_mset_cong [of n "h(Suc n := x)" h]
    by (simp add: q aheap_defs heap_mset_Suc)
  show "key (aheap_top q) \<le> key x" if "aheap_ok key q" "x \<in># aheap_elems q"
    using that heap_ord_root [of key n h] by (auto simp: q aheap_defs in_heap_mset simp del: One_nat_def)
  show "aheap_ok key (aheap_push key x q)" if "aheap_ok key q"
  proof -
    have "heap_hole key (Suc n) h (Suc n)"
      using that by (intro heap_holeI) (auto simp: q aheap_defs heap_ord_def)
    then show ?thesis by (auto simp: q aheap_defs intro!: sift_up_ord)
  qed
  assume ok: "aheap_ok key q" and ne: "aheap_elems q \<noteq> {#}"
  then obtain m where n: "n = Suc m" by (cases n) (auto simp: q aheap_defs heap_mset_empty)
  have ord: "heap_ord key (Suc m) h" using ok by (simp add: q n aheap_defs)
  show "aheap_ok key (aheap_pop key q)"
    using heap_ord_hole [OF ord] by (auto simp: q n aheap_defs intro!: sift_down_ord)
  show "aheap_elems q = add_mset (aheap_top q) (aheap_elems (aheap_pop key q))"
    using sift_down_mset [of 1 m key h "h (Suc m)"] heap_mset_first [of m h "h (Suc m)"]
    by (cases "m = 0") (simp_all add: q n aheap_defs heap_mset_Suc heap_mset_empty)
qed

subsection \<open>The kernel heap is the array heap\<close>

lemma pass_of_heap [simp]:
  "pass_of q (s\<lparr>minheap := h\<rparr>) = pass_of q s" "pass_of q (s\<lparr>stride_size := n\<rparr>) = pass_of q s"
  by (simp_all add: pass_of_def)

definition pass_key :: "'a ptable_scheme \<Rightarrow> nat \<Rightarrow> int" where
  "pass_key s q = (case pass_of q s of Inr x \<Rightarrow> x | Inl _ \<Rightarrow> 0)"

lemma pass_key_eq: "pass_of q s = Inr x \<Longrightarrow> pass_key s q = x"
  by (simp add: pass_key_def)

definition stored :: "nat set \<Rightarrow> nat option list \<Rightarrow> (nat \<Rightarrow> nat) \<Rightarrow> bool" where
  "stored A hl h = (\<forall>k\<in>A. hl ! k = Some (h k))"

lemma heap_entry_stored:
  "stored A (minheap s) h \<Longrightarrow> k \<in> A \<Longrightarrow> k < length (minheap s) \<Longrightarrow> heap_entry s k = Inr (h k)"
  by (simp add: heap_entry_def stored_def)

lemma pushheap_loop_eq:
  "stored ({1..n} - {i}) (minheap s) h \<Longrightarrow> i \<in> {1..n} \<Longrightarrow> n < length (minheap s) \<Longrightarrow>
   \<forall>k\<in>{1..n} - {i}. pass_of (h k) s = Inr (key (h k)) \<Longrightarrow>
   \<exists>j hl. pushheap_loop (key p) i s = Inr (j, s\<lparr>minheap := hl\<rparr>) \<and> j < length hl \<and>
     length hl = length (minheap s) \<and> stored {1..n} (hl[j := Some p]) (sift_up key h i p)"
proof (induction key h i p arbitrary: s rule: sift_up.induct)
  case (1 key h i p)
  show ?case
  proof (cases "i = 1")
    case True
    have eq: "sift_up key h i p = h(i := p)" using True by (subst sift_up.simps) simp
    have "stored {1..n} ((minheap s)[i := Some p]) (h(i := p))"
      using "1.prems" True by (auto simp: stored_def nth_list_update)
    then show ?thesis using "1.prems" True unfolding eq
      by (intro exI [of _ i] exI [of _ "minheap s"]) (subst pushheap_loop.simps, simp)
  next
    case False
    then have i: "i div 2 \<in> {1..n} - {i}" "\<not> i \<le> 1" using "1.prems"(2) by auto
    then have e: "heap_entry s (i div 2) = Inr (h (i div 2))"
      using "1.prems"(1,3) by (intro heap_entry_stored) auto
    have p: "pass_of (h (i div 2)) s = Inr (key (h (i div 2)))" using "1.prems"(4) i by blast
    show ?thesis
    proof (cases "key p < key (h (i div 2))")
      case lt: False
      have eq: "sift_up key h i p = h(i := p)" using lt by (subst sift_up.simps) simp
      have "stored {1..n} ((minheap s)[i := Some p]) (h(i := p))"
        using "1.prems" by (auto simp: stored_def nth_list_update)
      then show ?thesis using "1.prems" False lt unfolding eq
        by (intro exI [of _ i] exI [of _ "minheap s"]) (subst pushheap_loop.simps, simp add: e p)
    next
      case True
      let ?h = "h(i := h (i div 2))"
      define s1 where "s1 = s\<lparr>minheap := (minheap s)[i := Some (h (i div 2))]\<rparr>"
      have s1: "minheap s1 = (minheap s)[i := Some (h (i div 2))]" "\<And>q. pass_of q s1 = pass_of q s"
        "\<And>hl. s1\<lparr>minheap := hl\<rparr> = s\<lparr>minheap := hl\<rparr>" by (simp_all add: s1_def)
      have "stored ({1..n} - {i div 2}) (minheap s1) ?h"
        using "1.prems" by (auto simp: stored_def nth_list_update s1)
      moreover have "\<forall>k\<in>{1..n} - {i div 2}. pass_of (?h k) s1 = Inr (key (?h k))"
        using "1.prems"(4) p by (auto simp: s1)
      moreover have "i div 2 \<in> {1..n}" "n < length (minheap s1)"
        using i "1.prems"(3) by (simp_all add: s1)
      ultimately obtain j hl where "pushheap_loop (key p) (i div 2) s1 = Inr (j, s\<lparr>minheap := hl\<rparr>)"
        "j < length hl" "length hl = length (minheap s)"
        "stored {1..n} (hl[j := Some p]) (sift_up key ?h (i div 2) p)"
        using "1.IH" [OF i(2) True, of s1] unfolding s1 length_list_update by blast
      moreover have eq: "sift_up key h i p = sift_up key ?h (i div 2) p"
        using True i by (subst sift_up.simps) simp
      ultimately show ?thesis using True False i "1.prems" unfolding eq
        by (intro exI [of _ j] exI [of _ hl]) (subst pushheap_loop.simps, simp add: e p flip: s1_def)
    qed
  qed
qed

lemma popheap_loop_eq:
  "stored ({1..n} - {i}) (minheap s) h \<Longrightarrow> 1 \<le> i \<Longrightarrow> i < length (minheap s) \<Longrightarrow> n < length (minheap s) \<Longrightarrow>
   stride_size s = int n \<Longrightarrow> pass_of p s = Inr (key p) \<Longrightarrow>
   \<forall>k\<in>{1..n} - {i}. pass_of (h k) s = Inr (key (h k)) \<Longrightarrow>
   \<exists>j hl. popheap_loop (Some p) i (i * 2) s = Inr (j, s\<lparr>minheap := hl\<rparr>) \<and> j < length hl \<and>
     length hl = length (minheap s) \<and> stored {1..n} (hl[j := Some p]) (sift_down key n h i p)"
proof (induction key n h i p arbitrary: s rule: sift_down.induct)
  case (1 key n h i p)
  define c where "c = (if 2 * i < n \<and> key (h (2 * i)) > key (h (2 * i + 1)) then 2 * i + 1 else 2 * i)"
  have fill: "stored {1..n} ((minheap s)[i := Some p]) (h(i := p))"
    using "1.prems"(1,3) by (auto simp: stored_def nth_list_update)
  have hs: "heap_entry s k = Inr (h k)" "pass_of (h k) s = Inr (key (h k))"
    if "k \<in> {1..n} - {i}" for k
    using that heap_entry_stored [OF "1.prems"(1)] "1.prems"(4,7) by auto
  show ?case
  proof (cases "2 * i \<le> n")
    case False
    then have eq: "sift_down key n h i p = h(i := p)" by (subst sift_down.simps) auto
    have "popheap_loop (Some p) i (i * 2) s = Inr (i, s\<lparr>minheap := minheap s\<rparr>)"
      using False "1.prems"(5) by (subst popheap_loop.simps) simp
    then show ?thesis using fill "1.prems"(3) unfolding eq by blast
  next
    case True
    have i2: "2 * i \<in> {1..n} - {i}" "Suc (2 * i) \<le> n \<Longrightarrow> Suc (2 * i) \<in> {1..n} - {i}"
      using True "1.prems"(2) by auto
    have c: "c \<in> {1..n} - {i}" "0 < c" using i2 True by (auto simp: c_def)
    have step: "popheap_loop (Some p) i (i * 2) s =
        (if key p \<le> key (h c) then Inr (i, s)
         else popheap_loop (Some p) c (c * 2) (s\<lparr>minheap := (minheap s)[i := Some (h c)]\<rparr>))"
    proof (cases "2 * i < n")
      case lt: True
      then show ?thesis
        using "1.prems"(2,3,5,6) hs [OF i2(1)] hs [OF i2(2)]
        by (subst popheap_loop.simps) (auto simp: c_def mult.commute)
    next
      case False
      then have "n = 2 * i" using True by simp
      then show ?thesis
        using "1.prems"(2,3,5,6) hs [OF i2(1)]
        by (subst popheap_loop.simps) (auto simp: c_def mult.commute)
    qed
    show ?thesis
    proof (cases "key p \<le> key (h c)")
      case le: True
      then have eq: "sift_down key n h i p = h(i := p)"
        by (subst sift_down.simps) (auto simp: Let_def c_def)
      have "popheap_loop (Some p) i (i * 2) s = Inr (i, s\<lparr>minheap := minheap s\<rparr>)"
        using le by (simp add: step)
      then show ?thesis using fill "1.prems"(3) unfolding eq by blast
    next
      case gt: False
      let ?h = "h(i := h c)"
      define s1 where "s1 = s\<lparr>minheap := (minheap s)[i := Some (h c)]\<rparr>"
      have s1: "minheap s1 = (minheap s)[i := Some (h c)]" "\<And>q. pass_of q s1 = pass_of q s"
        "\<And>hl. s1\<lparr>minheap := hl\<rparr> = s\<lparr>minheap := hl\<rparr>" "stride_size s1 = stride_size s"
        by (simp_all add: s1_def)
      have "stored ({1..n} - {c}) (minheap s1) ?h"
        using "1.prems"(1,3) by (auto simp: stored_def nth_list_update s1)
      moreover have "\<forall>k\<in>{1..n} - {c}. pass_of (?h k) s1 = Inr (key (?h k))"
        using "1.prems"(7) hs(2) [OF c(1)] by (auto simp: s1)
      moreover have "1 \<le> c" "c < length (minheap s1)" "n < length (minheap s1)"
        "stride_size s1 = int n" "pass_of p s1 = Inr (key p)"
        using c "1.prems"(4,5,6) by (simp_all add: s1)
      moreover have "0 < i \<and> 2 * i \<le> n" using True "1.prems"(2) by simp
      ultimately obtain j hl where "popheap_loop (Some p) c (c * 2) s1 = Inr (j, s\<lparr>minheap := hl\<rparr>)"
        "j < length hl" "length hl = length (minheap s)"
        "stored {1..n} (hl[j := Some p]) (sift_down key n ?h c p)"
        using "1.IH" [OF _ c_def gt, of s1] unfolding s1 length_list_update by blast
      moreover have eq: "sift_down key n h i p = sift_down key n ?h c p"
        using True gt "1.prems"(2) by (subst sift_down.simps) (auto simp: Let_def c_def)
      ultimately show ?thesis using gt unfolding eq step
        by (intro exI [of _ j] exI [of _ hl]) (simp flip: s1_def)
    qed
  qed
qed

text \<open>
  The heap of the table: its entries are processes with a main thread, in heap order of pass.
\<close>

definition heap_of :: "'a ptable_scheme \<Rightarrow> nat aheap" where
  "heap_of s = (nat (stride_size s), \<lambda>i. the (minheap s ! i))"

definition stride_procs :: "'a ptable_scheme \<Rightarrow> nat multiset" where
  "stride_procs s = aheap_elems (heap_of s)"

definition stride_ok :: "'a ptable_scheme \<Rightarrow> bool" where
  "stride_ok s \<longleftrightarrow> 0 \<le> stride_size s \<and> stride_size s < int NPROC \<and> length (minheap s) = NPROC \<and>
     (\<forall>i\<in>{1..nat (stride_size s)}. minheap s ! i \<noteq> None \<and>
        pass_of (the (minheap s ! i)) s = Inr (pass_key s (the (minheap s ! i)))) \<and>
     aheap_ok (pass_key s) (heap_of s)"

lemma aheap_cong:
  "(\<And>k. k \<in> {1..n} \<Longrightarrow> h k = h' k) \<Longrightarrow> aheap_ok key (n, h) = aheap_ok key (n, h')"
  "(\<And>k. k \<in> {1..n} \<Longrightarrow> h k = h' k) \<Longrightarrow> aheap_elems (n, h) = aheap_elems (n, h')"
proof -
  assume a: "\<And>k. k \<in> {1..n} \<Longrightarrow> h k = h' k"
  have "k \<in> {2..n} \<Longrightarrow> h k = h' k \<and> h (k div 2) = h' (k div 2)" for k
  proof -
    assume k: "k \<in> {2..n}"
    then have "k \<in> {1..n}" "k div 2 \<in> {1..n}" by auto
    then show ?thesis using a by blast
  qed
  then show "aheap_ok key (n, h) = aheap_ok key (n, h')" by (simp add: aheap_defs heap_ord_def)
  show "aheap_elems (n, h) = aheap_elems (n, h')" using heap_mset_cong [OF a] by (simp add: aheap_defs)
qed

lemma pass_key_heap [simp]:
  "pass_key (s\<lparr>minheap := h\<rparr>) = pass_key s" "pass_key (s\<lparr>stride_size := n\<rparr>) = pass_key s"
  by (simp_all add: pass_key_def fun_eq_iff)

lemma stride_ok_stored:
  assumes "stored {1..n} hl h" "length hl = NPROC" "n < NPROC" "aheap_ok (pass_key s) (n, h)"
    "\<forall>q \<in># aheap_elems (n, h). pass_of q s = Inr (pass_key s q)"
  shows "stride_ok (s\<lparr>stride_size := int n, minheap := hl\<rparr>)"
    and "stride_procs (s\<lparr>stride_size := int n, minheap := hl\<rparr>) = aheap_elems (n, h)"
proof -
  have h: "k \<in> {1..n} \<Longrightarrow> hl ! k = Some (h k)" for k
    using assms(1) unfolding stored_def by blast
  have e: "aheap_ok (pass_key s) (n, \<lambda>i. the (hl ! i)) = aheap_ok (pass_key s) (n, h)"
    "aheap_elems (n, \<lambda>i. the (hl ! i)) = aheap_elems (n, h)"
    by (rule aheap_cong, simp add: h)+
  have "k \<in> {1..n} \<Longrightarrow> pass_of (h k) s = Inr (pass_key s (h k))" for k
    using assms(5) in_heap_mset [of "h k" n h] by (auto simp: aheap_defs)
  then show "stride_ok (s\<lparr>stride_size := int n, minheap := hl\<rparr>)"
    using assms(2-4) h by (simp add: stride_ok_def heap_of_def e)
  show "stride_procs (s\<lparr>stride_size := int n, minheap := hl\<rparr>) = aheap_elems (n, h)"
    by (simp add: stride_procs_def heap_of_def e)
qed

lemma stride_okD:
  assumes "stride_ok s"
  obtains n h where "heap_of s = (n, h)" "stride_size s = int n" "n < NPROC" "length (minheap s) = NPROC"
    "stored {1..n} (minheap s) h" "\<forall>k\<in>{1..n}. pass_of (h k) s = Inr (pass_key s (h k))"
    "aheap_ok (pass_key s) (n, h)" "stride_procs s = aheap_elems (n, h)"
proof
  let ?n = "nat (stride_size s)" and ?h = "\<lambda>i. the (minheap s ! i)"
  show "heap_of s = (?n, ?h)" by (simp add: heap_of_def)
  show "stride_procs s = aheap_elems (?n, ?h)" by (simp add: stride_procs_def heap_of_def)
qed (use assms in \<open>auto simp: stride_ok_def heap_of_def stored_def\<close>)


lemma pushheap_ok:
  assumes "stride_ok s" "stride_size s < int NPROC - 1" "pass_of p s = Inr x"
  obtains hl where "pushheap p s = Inr (s\<lparr>stride_size := stride_size s + 1, minheap := hl\<rparr>)"
    "stride_ok (s\<lparr>stride_size := stride_size s + 1, minheap := hl\<rparr>)"
    "stride_procs (s\<lparr>stride_size := stride_size s + 1, minheap := hl\<rparr>) = add_mset p (stride_procs s)"
proof -
  obtain n h where n: "heap_of s = (n, h)" "stride_size s = int n" "n < NPROC"
    "length (minheap s) = NPROC" "stored {1..n} (minheap s) h"
    "\<forall>k\<in>{1..n}. pass_of (h k) s = Inr (pass_key s (h k))"
    "aheap_ok (pass_key s) (n, h)" "stride_procs s = aheap_elems (n, h)"
    using assms(1) by (rule stride_okD)
  define s1 where "s1 = s\<lparr>stride_size := stride_size s + 1\<rparr>"
  have s1: "minheap s1 = minheap s" "\<And>q. pass_of q s1 = pass_of q s" by (simp_all add: s1_def)
  have x: "pass_of p s = Inr (pass_key s p)" "x = pass_key s p"
    using assms(3) pass_key_eq by fastforce+
  have "stored ({1..Suc n} - {Suc n}) (minheap s1) h"
    using n(5) by (auto simp: s1 stored_def)
  moreover have "\<forall>k\<in>{1..Suc n} - {Suc n}. pass_of (h k) s1 = Inr (pass_key s (h k))"
    using n(6) by (auto simp: s1)
  moreover have "Suc n \<in> {1..Suc n}" "Suc n < length (minheap s1)" using n assms(2) by (simp_all add: s1)
  ultimately obtain j hl where l: "pushheap_loop (pass_key s p) (Suc n) s1 = Inr (j, s1\<lparr>minheap := hl\<rparr>)"
    "j < length hl" "length hl = length (minheap s1)"
    "stored {1..Suc n} (hl[j := Some p]) (sift_up (pass_key s) h (Suc n) p)"
    using pushheap_loop_eq [of "Suc n" "Suc n" s1 h "pass_key s" p] by blast
  let ?q = "aheap_push (pass_key s) p (n, h)" and ?hl = "hl[j := Some p]"
  have q: "?q = (Suc n, sift_up (pass_key s) h (Suc n) p)"
    by (simp add: aheap_defs)
  have e: "aheap_elems ?q = add_mset p (aheap_elems (n, h))"
    using n(7) by (rule hq.elems_push)
  have "\<forall>q\<in>#aheap_elems ?q. pass_of q s = Inr (pass_key s q)"
    unfolding e using x(1) n(6) by (auto simp: aheap_defs in_heap_mset)
  moreover have "length ?hl = NPROC" "Suc n < NPROC" "aheap_ok (pass_key s) ?q"
    using hq.invar_push [OF n(7)] n l(3) assms(2) s1 by simp_all
  moreover have sz: "int (Suc n) = stride_size s + 1" using n(2) by simp
  ultimately
  have "stride_ok (s\<lparr>stride_size := stride_size s + 1, minheap := ?hl\<rparr>)"
    "stride_procs (s\<lparr>stride_size := stride_size s + 1, minheap := ?hl\<rparr>) = add_mset p (stride_procs s)"
    using stride_ok_stored [OF l(4), of s] unfolding q [symmetric] e n(8) sz by blast+
  moreover have "pushheap p s = Inr (s\<lparr>stride_size := stride_size s + 1, minheap := ?hl\<rparr>)"
  proof -
    have "nat (stride_size s + 1) = Suc n" "\<not> stride_size s + 1 < 0" using n(2) by simp_all
    then show ?thesis
      using l x by (simp add: pushheap_def Let_def s1_def [symmetric] s1(2))
  qed
  ultimately show thesis using that by blast
qed

lemma popheap_ok:
  assumes "stride_ok s" "0 < stride_size s"
  obtains p hl where "popheap s = Inr (Some p, s\<lparr>stride_size := stride_size s - 1, minheap := hl\<rparr>)"
    "stride_ok (s\<lparr>stride_size := stride_size s - 1, minheap := hl\<rparr>)"
    "stride_procs s = add_mset p (stride_procs (s\<lparr>stride_size := stride_size s - 1, minheap := hl\<rparr>))"
    "getminpass s = Inr (pass_key s p)"
    "\<forall>q\<in>#stride_procs s. pass_key s p \<le> pass_key s q"
proof -
  obtain N h where N: "heap_of s = (N, h)" "stride_size s = int N" "N < NPROC"
    "length (minheap s) = NPROC" "stored {1..N} (minheap s) h"
    "\<forall>k\<in>{1..N}. pass_of (h k) s = Inr (pass_key s (h k))"
    "aheap_ok (pass_key s) (N, h)" "stride_procs s = aheap_elems (N, h)"
    using assms(1) by (rule stride_okD)
  obtain n where n: "N = Suc n" using assms(2) N(2) by (cases N) auto
  define s1 where "s1 = s\<lparr>stride_size := stride_size s - 1\<rparr>"
  have s1: "minheap s1 = minheap s" "\<And>q. pass_of q s1 = pass_of q s" "stride_size s1 = int n"
    using N(2) n by (simp_all add: s1_def)
  let ?l = "h N" and ?key = "pass_key s"
  have st: "minheap s ! k = Some (h k)" "pass_of (h k) s = Inr (?key (h k))" if "k \<in> {1..N}" for k
    using that N(5,6) unfolding stored_def by blast+
  have "stored ({1..n} - {1}) (minheap s1) h" "\<forall>k\<in>{1..n} - {1}. pass_of (h k) s1 = Inr (?key (h k))"
    using st by (auto simp: s1 stored_def n)
  moreover have "pass_of ?l s1 = Inr (?key ?l)" using st [of N] n by (simp add: s1)
  moreover have "1 < length (minheap s1)" "n < length (minheap s1)" using N n by (simp_all add: s1)
  ultimately obtain j hl where l: "popheap_loop (Some ?l) 1 (1 * 2) s1 = Inr (j, s1\<lparr>minheap := hl\<rparr>)"
    "j < length hl" "length hl = length (minheap s1)"
    "stored {1..n} (hl[j := Some ?l]) (sift_down ?key n h 1 ?l)"
    using popheap_loop_eq [of n 1 s1 h ?l ?key] s1(3) by blast
  let ?q = "aheap_pop ?key (N, h)" and ?hl = "hl[j := Some ?l]"
  have q: "?q = (n, sift_down ?key n h 1 ?l)" by (simp add: aheap_defs n)
  have ne: "aheap_elems (N, h) \<noteq> {#}" by (simp add: aheap_defs n heap_mset_empty)
  have e: "aheap_elems (N, h) = add_mset (h 1) (aheap_elems ?q)"
    using hq.elems_pop [OF N(7) ne] by (simp add: aheap_top_def)
  have "\<forall>q\<in>#aheap_elems (N, h). pass_of q s = Inr (?key q)"
    using N(6) by (auto simp: aheap_defs in_heap_mset)
  then have "\<forall>q\<in>#aheap_elems ?q. pass_of q s = Inr (?key q)" unfolding e by simp
  moreover have "length ?hl = NPROC" "n < NPROC" "aheap_ok ?key ?q"
    using hq.invar_pop [OF N(7) ne] N n l(3) s1 by simp_all
  moreover have sz: "int n = stride_size s - 1" using N(2) n by simp
  ultimately
  have "stride_ok (s\<lparr>stride_size := stride_size s - 1, minheap := ?hl\<rparr>)"
    "stride_procs s = add_mset (h 1) (stride_procs (s\<lparr>stride_size := stride_size s - 1, minheap := ?hl\<rparr>))"
    using stride_ok_stored [OF l(4), of s] unfolding q [symmetric] sz e N(8) by simp_all
  moreover have "popheap s = Inr (Some (h 1), s\<lparr>stride_size := stride_size s - 1, minheap := ?hl\<rparr>)"
  proof -
    have "nat (stride_size s) = N" "\<not> stride_size s < 0" using N(2) by simp_all
    then show ?thesis
      using l st [of 1] st [of N] N(3,4) n
      by (simp add: popheap_def s1_def [symmetric])
  qed
  moreover have "getminpass s = Inr (?key (h 1))"
    using st [of 1] N n by (simp add: getminpass_def heap_entry_def)
  moreover have "\<forall>q\<in>#stride_procs s. ?key (h 1) \<le> ?key q"
    using hq.top_least [OF N(7)] by (auto simp: N(8) aheap_top_def)
  ultimately show thesis using that by blast
qed

subsection \<open>Push and pop\<close>

text \<open>
  C2. On a well-formed stride heap with room, \<open>pushheap\<close> of a process that has a main thread
  succeeds: the heap stays well-formed (indices in range, no null entry, ordered by the pass of
  the main threads), its processes are the old ones and the new one, and the process structures
  are unchanged.
\<close>

theorem pushheap_adds:
  assumes "stride_ok s" and "stride_size s < int NPROC - 1" and "pass_of p s = Inr x"
  shows "\<exists>s'. pushheap p s = Inr s' \<and> stride_ok s' \<and>
    stride_procs s' = add_mset p (stride_procs s) \<and> procs s' = procs s"
proof -
  obtain hl where "pushheap p s = Inr (s\<lparr>stride_size := stride_size s + 1, minheap := hl\<rparr>)"
    "stride_ok (s\<lparr>stride_size := stride_size s + 1, minheap := hl\<rparr>)"
    "stride_procs (s\<lparr>stride_size := stride_size s + 1, minheap := hl\<rparr>) = add_mset p (stride_procs s)"
    using assms by (rule pushheap_ok)
  then show ?thesis by simp
qed

text \<open>
  C1. On a non-empty well-formed stride heap, \<open>popheap\<close> returns a process whose pass is the least
  of the heap and is what \<open>getminpass\<close> reports; the heap stays well-formed and loses exactly
  that process.
\<close>

theorem popheap_least:
  assumes "stride_ok s" and "0 < stride_size s"
  shows "\<exists>p s'. popheap s = Inr (Some p, s') \<and> stride_ok s' \<and>
    stride_procs s = add_mset p (stride_procs s') \<and> procs s' = procs s \<and>
    getminpass s = pass_of p s \<and> (\<forall>q\<in>#stride_procs s. pass_key s p \<le> pass_key s q)"
proof -
  obtain p hl where "popheap s = Inr (Some p, s\<lparr>stride_size := stride_size s - 1, minheap := hl\<rparr>)"
    and ok: "stride_ok (s\<lparr>stride_size := stride_size s - 1, minheap := hl\<rparr>)"
    "stride_procs s = add_mset p (stride_procs (s\<lparr>stride_size := stride_size s - 1, minheap := hl\<rparr>))"
    and m: "getminpass s = Inr (pass_key s p)" "\<forall>q\<in>#stride_procs s. pass_key s p \<le> pass_key s q"
    using assms by (rule popheap_ok)
  moreover have "pass_of p s = Inr (pass_key s p)"
  proof -
    obtain n h where "\<forall>k\<in>{1..n}. pass_of (h k) s = Inr (pass_key s (h k))" "stride_procs s = aheap_elems (n, h)"
      using assms(1) by (rule stride_okD)
    moreover have "p \<in># stride_procs s" by (simp add: ok(2))
    ultimately show ?thesis by (auto simp: aheap_defs in_heap_mset)
  qed
  ultimately show ?thesis by simp
qed

text \<open>Two stride processes, 1 with pass 30 and 2 with pass 20; 2 is at the root.\<close>

definition two_stride :: ptable where
  "two_stride = zero_ptable\<lparr>stride_size := 2, minheap := [None, Some 2, Some 1] @ replicate 253 None,
     procs := (\<lambda>p. zero_proc\<lparr>thmain := Some p, pass := 10 * (4 - int p)\<rparr>)\<rparr>"

lemma two_stride_ok: "stride_ok two_stride"
proof -
  have k: "pass_of p two_stride = Inr (10 * (4 - int p))" for p
    by (simp add: pass_of_def main_thread_self two_stride_def)
  have i: "{Suc 0..2} = {Suc 0, 2}" "{2..2::nat} = {2}" by auto
  have "stride_size two_stride = 2" "minheap two_stride = [None, Some 2, Some 1] @ replicate 253 None"
    by (simp_all add: two_stride_def)
  with k pass_key_eq [OF k] show ?thesis
    by (simp add: stride_ok_def aheap_ok_def heap_ord_def heap_of_def i)
qed

theorem pushheap_adds_witness:
  "\<exists>s'. pushheap 3 two_stride = Inr s' \<and> stride_ok s' \<and>
    stride_procs s' = add_mset 3 (stride_procs two_stride) \<and> procs s' = procs two_stride"
  by (rule pushheap_adds [OF two_stride_ok, of 3 10])
    (simp_all add: pass_of_def main_thread_self two_stride_def)

theorem popheap_least_witness:
  "\<exists>p s'. popheap two_stride = Inr (Some p, s') \<and> stride_ok s' \<and>
    stride_procs two_stride = add_mset p (stride_procs s') \<and> getminpass two_stride = pass_of p two_stride"
proof -
  have "0 < stride_size two_stride" by (simp add: two_stride_def)
  with popheap_least [OF two_stride_ok] show ?thesis by blast
qed

end
