(* ===== verification/Mlfq.thy ===== *)
theory Mlfq
  imports Stride_Heap
begin

section \<open>The multi-level feedback queue (proc.c)\<close>

text \<open>
  The MLFQ half of the scheduler: three queues of threads that are \<open>RUNNABLE\<close> or \<open>RUNNING\<close>, with
  the threads of a process side by side, and one pin per queue that remembers where the
  scheduler is. The definitions follow \<open>ready_proc\<close>, \<open>pin_next_thread\<close>, \<open>pin_next_proc\<close>, the
  enqueue and dequeue functions, \<open>concatqueue\<close>, \<open>mlfqselect\<close>, \<open>priority_boost\<close> and \<open>mlfqlogic\<close>.
  The lemmas read them on the abstract queues of \<open>lists\<close>: enqueueing places a thread next to
  its process, dequeueing removes exactly the threads of a process, the boost concatenates
  the queues in order, and what the selection returns is given by one equation for every state of the threads.
\<close>

subsection \<open>Routines applied to the threads of a process\<close>

definition routine_set_stride :: "nat \<Rightarrow> 'a ptable_scheme \<Rightarrow> (bool \<times> 'a ptable_scheme) res" where
  "routine_set_stride th s = Inr (False, upd th (\<lambda>p. p\<lparr>type := STRIDE\<rparr>) s)"

definition routine_is_pinned :: "nat \<Rightarrow> node \<Rightarrow> 'a ptable_scheme \<Rightarrow> (bool \<times> 'a ptable_scheme) res" where
  "routine_is_pinned th pn s = Inr (Mlfq th = pn, s)"

definition routine_enqueue_remain :: "nat \<Rightarrow> nat \<Rightarrow> 'a ptable_scheme \<Rightarrow> (bool \<times> 'a ptable_scheme) res" where
  "routine_enqueue_remain th pivot s =
     (if th \<noteq> pivot \<and> (state (procs s th) = RUNNABLE \<or> state (procs s th) = RUNNING)
      then rbind (on_links (list_add_after (Mlfq th) (Mlfq pivot)) s) (\<lambda>s. Inr (False, s))
      else Inr (False, s))"

definition routine_dequeue_proc :: "nat \<Rightarrow> 'a ptable_scheme \<Rightarrow> (bool \<times> 'a ptable_scheme) res" where
  "routine_dequeue_proc th s =
     (if state (procs s th) = RUNNABLE \<or> state (procs s th) = RUNNING
      then rbind (on_links (list_del (Mlfq th)) s) (\<lambda>s. Inr (False, s))
      else Inr (False, s))"

subsection \<open>Levels and pins\<close>

definition level_of :: "nat \<Rightarrow> 'a ptable_scheme \<Rightarrow> nat res" where
  "level_of p s = rbind (main_thread p s) (\<lambda>m. Inr (privlevel (procs s m)))"

text \<open>The queue and the pin of a level; the arrays have \<open>QSIZE\<close> entries.\<close>

definition queue_at :: "nat \<Rightarrow> node res" where
  "queue_at l = (if l < QSIZE then Inr (Queue l) else Inl Wild_pointer)"

definition pin_at :: "nat \<Rightarrow> 'a ptable_scheme \<Rightarrow> node res" where
  "pin_at l s = (if l < QSIZE then Inr (pin s l) else Inl Wild_pointer)"

definition set_pin :: "nat \<Rightarrow> node \<Rightarrow> 'a ptable_scheme \<Rightarrow> 'a ptable_scheme" where
  "set_pin l n s = s\<lparr>pin := (pin s)(l := n)\<rparr>"

definition pin_or_head :: "nat option \<Rightarrow> nat \<Rightarrow> node" where
  "pin_or_head p l = (case p of Some p \<Rightarrow> Mlfq p | None \<Rightarrow> Queue l)"

fun ready_proc_loop :: "nat \<Rightarrow> node \<Rightarrow> node \<Rightarrow> nat \<Rightarrow> node option \<Rightarrow> 'a ptable_scheme \<Rightarrow> nat option res" where
  "ready_proc_loop 0 start q p itr s = Inl Diverges"
| "ready_proc_loop (Suc fuel) start q p itr s =
     rbind (deref itr) (\<lambda>i.
     if i = start then Inr None
     else if \<not> list_is_head i q
     then rbind (entry_mlfq i) (\<lambda>np.
          if pid (procs s np) \<noteq> pid (procs s p) \<and> state (procs s np) = RUNNABLE
          then Inr (Some np)
          else ready_proc_loop fuel start q p (nxt (links s i)) s)
     else ready_proc_loop fuel start q p (nxt (links s i)) s)"

definition ready_proc :: "nat \<Rightarrow> 'a ptable_scheme \<Rightarrow> nat option res" where
  "ready_proc p s =
     rbind (level_of p s) (\<lambda>level.
     if state (procs s p) \<noteq> RUNNABLE \<and> state (procs s p) \<noteq> RUNNING
     then Inl (Panic ''ready_proc'')
     else rbind (queue_at level) (\<lambda>q.
          ready_proc_loop (Suc NPROC) (Mlfq p) q p (nxt (links s (Mlfq p))) s))"

definition is_proc_pinned :: "nat \<Rightarrow> node \<Rightarrow> 'a ptable_scheme \<Rightarrow> bool res" where
  "is_proc_pinned p pn s =
     rbind (threads_apply1 p routine_is_pinned pn s) (\<lambda>(th, _). Inr (th \<noteq> None))"

definition pin_next_thread :: "nat \<Rightarrow> bool \<Rightarrow> 'a ptable_scheme \<Rightarrow> 'a ptable_scheme res" where
  "pin_next_thread th self s =
     rbind (level_of th s) (\<lambda>level.
     rbind (pin_at level s) (\<lambda>ppin.
     rbind (is_proc_pinned th ppin s) (\<lambda>pinned.
     if pinned
     then rbind (ready_thread th s) (\<lambda>nx.
          if nx \<noteq> None \<and> (self \<or> nx \<noteq> Some th)
          then Inr (set_pin level (Mlfq (the nx)) s)
          else rbind (ready_or_running_thread th s) (\<lambda>nx.
               case nx of
                 None \<Rightarrow> Inl (Panic ''pin next thread'')
               | Some nx \<Rightarrow> rbind (ready_proc nx s) (\<lambda>nx.
                   Inr (set_pin level (pin_or_head nx level) s))))
     else Inr s)))"

definition pin_next_proc :: "nat \<Rightarrow> bool \<Rightarrow> 'a ptable_scheme \<Rightarrow> 'a ptable_scheme res" where
  "pin_next_proc p self s =
     rbind (level_of p s) (\<lambda>level.
     rbind (pin_at level s) (\<lambda>ppin.
     rbind (is_proc_pinned p ppin s) (\<lambda>pinned.
     if pinned
     then rbind (ready_or_running_thread p s) (\<lambda>nx.
          case nx of
            None \<Rightarrow> Inl (Panic ''pin next proc'')
          | Some nx \<Rightarrow> rbind (ready_proc nx s) (\<lambda>nx.
              case nx of
                Some nx \<Rightarrow> Inr (set_pin level (Mlfq nx) s)
              | None \<Rightarrow>
                  if self
                  then rbind (ready_thread p s) (\<lambda>nx. Inr (set_pin level (pin_or_head nx level) s))
                  else Inr (set_pin level (Queue level) s)))
     else Inr s)))"

subsection \<open>Enqueue and dequeue\<close>

definition enqueue_thread :: "nat \<Rightarrow> 'a ptable_scheme \<Rightarrow> 'a ptable_scheme res" where
  "enqueue_thread th s =
     (if state (procs s th) \<noteq> RUNNABLE then Inl (Panic ''enqueue unready thread'')
      else rbind (ready_or_running_thread th s) (\<lambda>pivot.
           if Some th = pivot
           then rbind (level_of th s) (\<lambda>level.
                rbind (queue_at level) (\<lambda>q.
                on_links (list_add_tail (Mlfq th) q) s))
           else rbind (deref pivot) (\<lambda>pivot.
                on_links (list_add_after (Mlfq th) (Mlfq pivot)) s)))"

definition enqueue_proc :: "nat \<Rightarrow> 'a ptable_scheme \<Rightarrow> 'a ptable_scheme res" where
  "enqueue_proc p s =
     (if state (procs s p) \<noteq> RUNNABLE \<and> state (procs s p) \<noteq> RUNNING
      then Inl (Panic ''enqueue proc: RUNNING, RUNNABLE'')
      else rbind (level_of p s) (\<lambda>level.
           rbind (queue_at level) (\<lambda>q.
           rbind (on_links (list_add_tail (Mlfq p) q) s) (\<lambda>s.
           rbind (threads_apply1 p routine_enqueue_remain p s) (\<lambda>(_, s). Inr s)))))"

definition concatqueue :: "nat \<Rightarrow> nat \<Rightarrow> 'a ptable_scheme \<Rightarrow> 'a ptable_scheme res" where
  "concatqueue src dst s =
     rbind (queue_at src) (\<lambda>srcq.
     rbind (queue_at dst) (\<lambda>dstq.
     let s = (if list_empty dstq (links s) \<and> pin s src \<noteq> srcq then set_pin dst (pin s src) s else s);
         s = set_pin src srcq s
     in on_links (list_bulk_move_tail srcq dstq) s))"

definition dequeue_thread :: "nat \<Rightarrow> 'a ptable_scheme \<Rightarrow> 'a ptable_scheme res" where
  "dequeue_thread th s =
     rbind (pin_next_thread th False s) (\<lambda>s. on_links (list_del (Mlfq th)) s)"

definition dequeue_proc :: "nat \<Rightarrow> 'a ptable_scheme \<Rightarrow> 'a ptable_scheme res" where
  "dequeue_proc p s =
     rbind (pin_next_proc p False s) (\<lambda>s.
     rbind (threads_apply0 p routine_dequeue_proc s) (\<lambda>(_, s). Inr s))"

subsection \<open>Selection, boost and time slices\<close>

fun mlfqselect_from :: "nat \<Rightarrow> 'a ptable_scheme \<Rightarrow> (nat option \<times> 'a ptable_scheme) res" where
  "mlfqselect_from 0 s = Inr (None, s)"
| "mlfqselect_from (Suc n) s =
     (let l = QSIZE - Suc n; q = Queue l
      in if \<not> list_empty q (links s)
         then rbind (if pin s l = q then rbind (deref (nxt (links s q))) entry_mlfq
                     else entry_mlfq (pin s l)) (\<lambda>p.
              rbind (if state (procs s p) = RUNNING
                     then rbind (pin_next_thread p False s) (\<lambda>s.
                          rbind (if pin s l = q then pin_next_proc p False s else Inr s) (\<lambda>s.
                          Inr (pin s l = q, s)))
                     else Inr (False, s)) (\<lambda>(skip, s).
              if skip then mlfqselect_from n s
              else rbind (level_of p s) (\<lambda>level.
                   if level \<noteq> l then Inl (Panic ''mlfqselect'')
                   else Inr (Some p, set_pin l (Mlfq p) s))))
         else mlfqselect_from n s)"

definition mlfqselect :: "'a ptable_scheme \<Rightarrow> (nat option \<times> 'a ptable_scheme) res" where
  "mlfqselect s = mlfqselect_from QSIZE s"

definition reset_level :: "nat \<Rightarrow> 'a ptable_scheme \<Rightarrow> 'a ptable_scheme" where
  "reset_level p s = upd p (\<lambda>p. p\<lparr>privlevel := 0, ticks := 0\<rparr>) s"

definition boost_level :: "nat \<Rightarrow> 'a ptable_scheme \<Rightarrow> 'a ptable_scheme res" where
  "boost_level l s =
     rbind (walk (Suc NPROC) (Queue l) (nxt (links s (Queue l))) (links s)) (\<lambda>itrs.
     rbind (rfold (\<lambda>itr s. rbind (entry_mlfq itr) (\<lambda>p. Inr (reset_level p s))) itrs s) (\<lambda>s.
     concatqueue l 0 s))"

definition priority_boost :: "'a ptable_scheme \<Rightarrow> 'a ptable_scheme res" where
  "priority_boost s =
     rbind (rfold boost_level [1..<QSIZE] s) (\<lambda>s.
     rbind (walk (Suc NPROC) Sleep_head (nxt (links s Sleep_head)) (links s)) (\<lambda>itrs.
     rbind (rfold (\<lambda>itr s. rbind (entry_sleep itr) (\<lambda>p. Inr (reset_level p s))) itrs s) (\<lambda>s.
     Inr (s\<lparr>mlfq_ticks := 0\<rparr>))))"

definition mlfqlogic :: "nat \<Rightarrow> 'a ptable_scheme \<Rightarrow> 'a ptable_scheme res" where
  "mlfqlogic p s =
     rbind (main_thread p s) (\<lambda>m.
     let l = privlevel (procs s m); baselevel = QSIZE - 1
     in if l < baselevel \<and> ticks (procs s m) \<ge> TA l
        then rbind (dequeue_proc p s) (\<lambda>s.
             let s = upd m (\<lambda>p. p\<lparr>privlevel := l + 1, ticks := 0\<rparr>) s
             in rbind (ready_or_running_thread p s) (\<lambda>th.
                case th of Some th \<Rightarrow> enqueue_proc th s | None \<Rightarrow> Inr s))
        else if ticks (procs s m) mod TQ l = 0 then pin_next_proc p True s
        else pin_next_thread p True s)"

subsection \<open>Gathered queues\<close>

text \<open>Equal keys are side by side.\<close>

fun gathered :: "'k list \<Rightarrow> bool" where
  "gathered [] = True"
| "gathered (k # ks) = (gathered ks \<and> (k \<in> set ks \<longrightarrow> hd ks = k))"

lemma gathered_insert: "gathered (xs @ k # ys) \<Longrightarrow> gathered (xs @ k # k # ys)"
  by (induction xs) (auto simp: hd_append split: if_splits)

lemma gathered_append:
  "gathered xs \<Longrightarrow> gathered ys \<Longrightarrow> set xs \<inter> set ys = {} \<Longrightarrow> gathered (xs @ ys)"
  by (induction xs) (auto simp: hd_append)

lemma gathered_tail: "gathered ks \<Longrightarrow> k \<notin> set ks \<Longrightarrow> gathered (ks @ [k])"
  by (rule gathered_append) auto

lemma gathered_remove: "gathered (xs @ k # ys) \<Longrightarrow> gathered (xs @ ys)"
proof (induction xs)
  case (Cons x xs)
  then have "gathered (xs @ ys)" by simp
  moreover have "hd (xs @ ys) = x" if "x \<in> set (xs @ ys)"
  proof (cases xs)
    case Nil
    with Cons.prems that have "k = x" "gathered (k # ys)" "x \<in> set ys" by auto
    then show ?thesis using Nil by simp
  next
    case (Cons y zs)
    with \<open>gathered ((x # xs) @ k # ys)\<close> that show ?thesis by auto
  qed
  ultimately show ?case by simp
qed simp

lemma gathered_filter: "gathered (map f q) \<Longrightarrow> gathered (map f (filter (\<lambda>x. P (f x)) q))"
proof (induction q)
  case (Cons x q)
  have "hd (map f (filter (\<lambda>x. P (f x)) q)) = f x" if "P (f x)" "f x \<in> f ` set q"
  proof (cases q)
    case Nil
    with that show ?thesis by simp
  next
    case (Cons y q')
    with \<open>gathered (map f (x # q))\<close> that(2) have "f y = f x" by auto
    with Cons that(1) show ?thesis by simp
  qed
  with Cons show ?case by auto
qed simp

text \<open>The position a thread is enqueued at: behind the first active thread of its group.\<close>

definition enq :: "(nat \<Rightarrow> bool) \<Rightarrow> nat list \<Rightarrow> nat \<Rightarrow> nat list \<Rightarrow> nat list" where
  "enq act ts th q = (case find act ts of
     None \<Rightarrow> q @ [th]
   | Some t \<Rightarrow> takeWhile (\<lambda>x. x \<noteq> t) q @ t # th # tl (dropWhile (\<lambda>x. x \<noteq> t) q))"

lemma split_at:
  assumes "t \<in> set q"
  shows "q = takeWhile (\<lambda>x. x \<noteq> t) q @ t # tl (dropWhile (\<lambda>x. x \<noteq> t) q)"
proof -
  have "dropWhile (\<lambda>x. x \<noteq> t) q \<noteq> []" using assms by (simp add: dropWhile_eq_Nil_conv)
  moreover from hd_dropWhile [OF this] have "hd (dropWhile (\<lambda>x. x \<noteq> t) q) = t" by simp
  ultimately have "dropWhile (\<lambda>x. x \<noteq> t) q = t # tl (dropWhile (\<lambda>x. x \<noteq> t) q)" by (metis list.collapse)
  then show ?thesis using takeWhile_dropWhile_id [of "\<lambda>x. x \<noteq> t" q] by simp
qed

lemma find_SomeD: "find P xs = Some x \<Longrightarrow> x \<in> set xs \<and> P x"
  by (induction xs) (auto split: if_splits)

lemma find_NoneD: "find P xs = None \<Longrightarrow> x \<in> set xs \<Longrightarrow> \<not> P x"
  by (simp add: find_None_iff)

lemma set_enq:
  assumes "\<And>t. t \<in> set ts \<Longrightarrow> act t \<Longrightarrow> t \<in> set q"
  shows "set (enq act ts th q) = insert th (set q)"
proof (cases "find act ts")
  case (Some t)
  then have "t \<in> set q" using assms find_SomeD by fast
  from split_at [OF this] have "set q = set (takeWhile (\<lambda>x. x \<noteq> t) q @ t # tl (dropWhile (\<lambda>x. x \<noteq> t) q))"
    by metis
  with Some show ?thesis by (auto simp: enq_def)
qed (auto simp: enq_def)

lemma gathered_enq:
  assumes "\<And>t. t \<in> set ts \<Longrightarrow> act t \<Longrightarrow> t \<in> set q \<and> f t = f th"
    and "\<And>x. x \<in> set q \<Longrightarrow> f x = f th \<Longrightarrow> x \<in> set ts \<and> act x"
    and "gathered (map f q)"
  shows "gathered (map f (enq act ts th q))"
proof (cases "find act ts")
  case None
  then have "f th \<notin> f ` set q" using assms(2) find_NoneD by fastforce
  with None assms(3) show ?thesis by (auto simp: enq_def intro: gathered_tail)
next
  case (Some t)
  then have t: "t \<in> set q" "f t = f th" using assms(1) find_SomeD by fast+
  let ?a = "takeWhile (\<lambda>x. x \<noteq> t) q" and ?b = "tl (dropWhile (\<lambda>x. x \<noteq> t) q)"
  have "gathered (map f (?a @ t # ?b))" using assms(3) split_at [OF t(1)] by metis
  then have "gathered (map f ?a @ f t # map f ?b)" by simp
  from gathered_insert [OF this] t(2) Some show ?thesis by (simp add: enq_def)
qed

subsection \<open>Thread rings among the lists\<close>

definition in_ring :: "(node \<Rightarrow> node list option) \<Rightarrow> nat \<Rightarrow> nat list \<Rightarrow> bool" where
  "in_ring L p ts \<longleftrightarrow> length ts < NPROC \<and> (L (Thgroup p) = Some (map Thgroup ts) \<or>
     (\<exists>m xs ys. L (Thgroup m) = Some (map Thgroup (xs @ p # ys)) \<and> ts = ys @ m # xs))"

lemma in_ring_tgroup: "lists lk L \<Longrightarrow> in_ring L p ts \<Longrightarrow> tgroup lk p ts"
proof -
  assume l: "lists lk L" and r: "in_ring L p ts"
  have "dlist lk (Thgroup p) (map Thgroup ts)"
  proof (cases "L (Thgroup p) = Some (map Thgroup ts)")
    case True
    with l show ?thesis by (rule listsD)
  next
    case False
    with r obtain m xs ys where "L (Thgroup m) = Some (map Thgroup (xs @ p # ys))" "ts = ys @ m # xs"
      by (auto simp: in_ring_def)
    with listsD [OF l this(1)] show ?thesis by (simp add: dlist_rotate)
  qed
  with r show "tgroup lk p ts" by (simp add: tgroup_def in_ring_def)
qed

lemma in_ring_upd [simp]:
  "in_ring (L(Queue l \<mapsto> x)) = in_ring L" "in_ring (L(Sleep_head \<mapsto> x)) = in_ring L"
  "in_ring (L(Free_head \<mapsto> x)) = in_ring L" "in_ring (L(Run_head \<mapsto> x)) = in_ring L"
  "in_ring (L(Children c \<mapsto> x)) = in_ring L"
  by (simp_all add: in_ring_def fun_eq_iff)

definition queues :: "(node \<Rightarrow> node list option) \<Rightarrow> (nat \<Rightarrow> nat list) \<Rightarrow> bool" where
  "queues L qs = (\<forall>l<QSIZE. L (Queue l) = Some (map Mlfq (qs l)))"

lemma level_of_links [simp]:
  "level_of p (s\<lparr>links := x\<rparr>) = level_of p s" "level_of p (s\<lparr>pin := y\<rparr>) = level_of p s"
  by (simp_all add: level_of_def)

lemma on_links_eq: "f (links s) = Inr lk \<Longrightarrow> on_links f s = Inr (s\<lparr>links := lk\<rparr>)"
  by (simp add: on_links_def)

lemma enqueue_thread_eq:
  assumes "lists (links s) L" and "queues L qs" and "state (procs s th) = RUNNABLE"
    and "level_of th s = Inr l" and "l < QSIZE" and "fresh_node L (Mlfq th)" and "in_ring L th ts"
    and in_q: "\<And>t. t \<in> set ts \<Longrightarrow> active (procs s t) \<Longrightarrow> t \<in> set (qs l)"
  obtains lk' where "enqueue_thread th s = Inr (s\<lparr>links := lk'\<rparr>)"
    "lists lk' (L(Queue l \<mapsto> map Mlfq (enq (\<lambda>t. active (procs s t)) ts th (qs l))))"
proof -
  let ?act = "\<lambda>t. active (procs s t)"
  have q: "L (Queue l) = Some (map Mlfq (qs l))" using assms(2,5) by (simp add: queues_def)
  have r: "ready_or_running_thread th s = Inr (find ?act (ts @ [th]))"
    by (rule ready_or_running_thread_eq [OF in_ring_tgroup [OF assms(1,7)]])
  have th: "?act th" using assms(3) by (simp add: active_def)
  have "distinct (th # ts)"
    using in_ring_tgroup [OF assms(1,7)] by (auto simp: tgroup_def dlist_def distinct_map)
  show thesis
  proof (cases "find ?act ts")
    case None
    then have "find ?act (ts @ [th]) = Some th" using th by (induction ts) (auto split: if_splits)
    moreover obtain lk' where "list_add_tail (Mlfq th) (Queue l) (links s) = Inr lk'"
      "lists lk' (L(Queue l \<mapsto> map Mlfq (qs l) @ [Mlfq th]))"
      using assms(1) q assms(6) by (rule lists_add_tail)
    ultimately show thesis using that [of lk'] None assms(3-5) r
      by (simp add: enqueue_thread_def queue_at_def on_links_eq enq_def)
  next
    case (Some t)
    then have f: "find ?act (ts @ [th]) = Some t" by (induction ts) (auto split: if_splits)
    have t: "t \<in> set ts" "t \<in> set (qs l)" using find_SomeD [OF Some] in_q by auto
    let ?a = "takeWhile (\<lambda>x. x \<noteq> t) (qs l)" and ?b = "tl (dropWhile (\<lambda>x. x \<noteq> t) (qs l))"
    have "L (Queue l) = Some (map Mlfq ?a @ Mlfq t # map Mlfq ?b)"
      using q arg_cong [OF split_at [OF t(2)], of "map Mlfq"] by simp
    from lists_add_after [OF assms(1) this assms(6)]
    obtain lk' where "list_add_after (Mlfq th) (Mlfq t) (links s) = Inr lk'"
      "lists lk' (L(Queue l \<mapsto> map Mlfq ?a @ Mlfq t # Mlfq th # map Mlfq ?b))" by blast
    moreover have "t \<noteq> th" using t(1) \<open>distinct (th # ts)\<close> by auto
    ultimately show thesis using that [of lk'] Some f r assms(3)
      by (simp add: enqueue_thread_def on_links_eq enq_def)
  qed
qed

subsection \<open>Looking for a ready process\<close>

definition mlfq_procs :: "node list \<Rightarrow> nat list" where
  "mlfq_procs ns = List.map_filter (\<lambda>n. case n of Mlfq p \<Rightarrow> Some p | _ \<Rightarrow> None) ns"

lemma mlfq_procs_simps [simp]:
  "mlfq_procs [] = []" "mlfq_procs (Mlfq p # ns) = p # mlfq_procs ns"
  "mlfq_procs (Queue l # ns) = mlfq_procs ns" "mlfq_procs (ms @ ns) = mlfq_procs ms @ mlfq_procs ns"
  "mlfq_procs (map Mlfq ps) = ps"
  by (simp_all add: mlfq_procs_def List.map_filter_simps) (simp_all add: List.map_filter_def comp_def)

lemma ready_proc_loop_eq:
  "dseg (links s) a ns start \<Longrightarrow> start \<notin> set ns \<Longrightarrow> set ns \<subseteq> insert (Queue l) (range Mlfq) \<Longrightarrow>
   length ns < fuel \<Longrightarrow>
   ready_proc_loop fuel start (Queue l) p (nxt (links s a)) s =
   Inr (find (\<lambda>np. pid (procs s np) \<noteq> pid (procs s p) \<and> state (procs s np) = RUNNABLE) (mlfq_procs ns))"
proof (induction ns arbitrary: a fuel)
  case Nil
  then show ?case by (cases fuel) auto
next
  case (Cons n ns)
  then obtain f where f: "fuel = Suc f" by (cases fuel) auto
  have IH: "ready_proc_loop f start (Queue l) p (nxt (links s n)) s =
   Inr (find (\<lambda>np. pid (procs s np) \<noteq> pid (procs s p) \<and> state (procs s np) = RUNNABLE) (mlfq_procs ns))"
    using Cons.prems f by (intro Cons.IH) auto
  show ?case
  proof (cases "n = Queue l")
    case True
    with Cons.prems f IH show ?thesis by (auto simp: list_is_head_def)
  next
    case False
    then obtain q where "n = Mlfq q" using Cons.prems(3) by auto
    with Cons.prems f IH show ?thesis by (auto simp: list_is_head_def)
  qed
qed

definition other_ready :: "'a ptable_scheme \<Rightarrow> nat \<Rightarrow> nat \<Rightarrow> bool" where
  "other_ready s p np = (pid (procs s np) \<noteq> pid (procs s p) \<and> state (procs s np) = RUNNABLE)"

lemma ready_proc_eq:
  assumes "lists (links s) L" and "L (Queue l) = Some (map Mlfq (xs @ p # ys))" and "l < QSIZE"
    and "level_of p s = Inr l" and "active (procs s p)" and "length xs + length ys < NPROC"
  shows "ready_proc p s = Inr (find (other_ready s p) (ys @ xs))"
proof -
  have "dlist (links s) (Queue l) (map Mlfq xs @ Mlfq p # map Mlfq ys)"
    using listsD [OF assms(1,2)] by simp
  then have "dlist (links s) (Mlfq p) (map Mlfq ys @ Queue l # map Mlfq xs)"
    by (simp only: dlist_rotate)
  then have "ready_proc_loop (Suc NPROC) (Mlfq p) (Queue l) p (nxt (links s (Mlfq p))) s =
      Inr (find (\<lambda>np. pid (procs s np) \<noteq> pid (procs s p) \<and> state (procs s np) = RUNNABLE)
        (mlfq_procs (map Mlfq ys @ Queue l # map Mlfq xs)))"
    using assms(6) by (intro ready_proc_loop_eq) (auto simp: dlist_def)
  moreover have "other_ready s p = (\<lambda>np. pid (procs s np) \<noteq> pid (procs s p) \<and> state (procs s np) = RUNNABLE)"
    by (simp add: other_ready_def fun_eq_iff)
  ultimately show ?thesis
    using assms(3-5) by (auto simp: ready_proc_def queue_at_def active_def simp del: ready_proc_loop.simps)
qed

lemma keeps_groups_is_pinned [simp]: "keeps_groups (\<lambda>th. routine_is_pinned th pn)"
  by (auto simp: keeps_groups_def routine_is_pinned_def)

lemma is_proc_pinned_eq:
  assumes "tgroup (links s) p ts"
  shows "is_proc_pinned p pn s = Inr (\<exists>th\<in>set (p # ts). Mlfq th = pn)"
proof -
  have "threads_apply1 p routine_is_pinned pn s = Inr (find (\<lambda>th. Mlfq th = pn) (ts @ [p]), s)"
    by (subst threads_apply1_eq [OF assms keeps_groups_is_pinned], rule apply_until_find)
      (simp add: routine_is_pinned_def)
  moreover have "(find (\<lambda>th. Mlfq th = pn) (ts @ [p]) \<noteq> None) = (\<exists>th\<in>set (p # ts). Mlfq th = pn)"
    by (auto simp: find_None_iff)
  ultimately show ?thesis by (simp add: is_proc_pinned_def)
qed

text \<open>
  The situation of an enqueued process: thread \<open>p\<close> with group \<open>ts\<close> at level \<open>l\<close>, with at least
  one active thread, and all its active threads in the queue of the level.
\<close>

definition enqueued :: "'a ptable_scheme \<Rightarrow> (node \<Rightarrow> node list option) \<Rightarrow> (nat \<Rightarrow> nat list) \<Rightarrow>
    nat \<Rightarrow> nat list \<Rightarrow> nat \<Rightarrow> bool" where
  "enqueued s L qs p ts l \<longleftrightarrow> lists (links s) L \<and> queues L qs \<and> l < QSIZE \<and> length (qs l) \<le> NPROC \<and>
     in_ring L p ts \<and>
     (\<forall>t\<in>set (p # ts). level_of t s = Inr l \<and> pid (procs s t) = pid (procs s p) \<and>
        (active (procs s t) \<longrightarrow> t \<in> set (qs l))) \<and>
     (\<forall>x\<in>set (qs l). pid (procs s x) = pid (procs s p) \<longrightarrow> x \<in> set (p # ts) \<and> active (procs s x)) \<and>
     (\<exists>t\<in>set (p # ts). active (procs s t))"

text \<open>The pin of a level is its queue head or a thread of its queue.\<close>

definition pin_ok :: "(nat \<Rightarrow> node) \<Rightarrow> (nat \<Rightarrow> nat list) \<Rightarrow> bool" where
  "pin_ok pn qs = (\<forall>l<QSIZE. pn l = Queue l \<or> (\<exists>p\<in>set (qs l). pn l = Mlfq p))"

lemma enqueuedD:
  assumes "enqueued s L qs p ts l"
  shows "tgroup (links s) p ts" and "level_of p s = Inr l" and "l < QSIZE"
    and "L (Queue l) = Some (map Mlfq (qs l))" and "pin_at l s = Inr (pin s l)"
    and "distinct (p # ts)" and "distinct (qs l)"
proof -
  show g: "tgroup (links s) p ts" using assms in_ring_tgroup by (auto simp: enqueued_def)
  show "level_of p s = Inr l" "l < QSIZE" "L (Queue l) = Some (map Mlfq (qs l))" "pin_at l s = Inr (pin s l)"
    using assms by (auto simp: enqueued_def pin_at_def queues_def)
  show "distinct (p # ts)" using g by (auto simp: tgroup_def dlist_def distinct_map)
  from assms have "lists (links s) L" "L (Queue l) = Some (map Mlfq (qs l))"
    by (auto simp: enqueued_def queues_def)
  from lists_distinct [OF this] show "distinct (qs l)" by (simp add: distinct_map)
qed

lemma ready_other:
  assumes "enqueued s L qs p ts l" and "t \<in> set (p # ts)" and "active (procs s t)"
  obtains r where "ready_proc t s = Inr r"
    "\<forall>np. r = Some np \<longrightarrow> np \<in> set (qs l) \<and> np \<notin> set (p # ts) \<and> state (procs s np) = RUNNABLE"
    "r = None \<longrightarrow> (\<forall>np\<in>set (qs l). np \<notin> set (p # ts) \<longrightarrow> state (procs s np) \<noteq> RUNNABLE)"
proof -
  note e = enqueuedD [OF assms(1)]
  have t: "t \<in> set (qs l)" "level_of t s = Inr l" "pid (procs s t) = pid (procs s p)"
    using assms by (auto simp: enqueued_def)
  obtain xs ys where q: "qs l = xs @ t # ys" using t(1) by (auto dest: split_list)
  have ll: "lists (links s) L" using assms(1) by (simp add: enqueued_def)
  let ?r = "find (other_ready s t) (ys @ xs)"
  have grp: "np \<in> set (p # ts) \<longleftrightarrow> pid (procs s np) = pid (procs s t)" if "np \<in> set (qs l)" for np
    using that assms(1) t(3) by (auto simp: enqueued_def)
  show thesis
  proof (rule that [of ?r])
    show "ready_proc t s = Inr ?r"
      using assms(1) e(3,4) t q assms(3) by (intro ready_proc_eq [OF ll]) (auto simp: enqueued_def)
    show "\<forall>np. ?r = Some np \<longrightarrow> np \<in> set (qs l) \<and> np \<notin> set (p # ts) \<and> state (procs s np) = RUNNABLE"
    proof (intro allI impI)
      fix np assume r: "?r = Some np"
      from find_SomeD [OF r] q have "np \<in> set (qs l)" "other_ready s t np" by auto
      with grp [of np] show "np \<in> set (qs l) \<and> np \<notin> set (p # ts) \<and> state (procs s np) = RUNNABLE"
        by (simp add: other_ready_def)
    qed
    show "?r = None \<longrightarrow> (\<forall>np\<in>set (qs l). np \<notin> set (p # ts) \<longrightarrow> state (procs s np) \<noteq> RUNNABLE)"
    proof (intro ballI impI)
      fix np assume r: "?r = None" and np: "np \<in> set (qs l)" "np \<notin> set (p # ts)"
      then have "np \<noteq> t" using assms(2) by blast
      with np(1) q have "np \<in> set (ys @ xs)" by auto
      from find_NoneD [OF r this] grp [OF np(1)] np(2) show "state (procs s np) \<noteq> RUNNABLE"
        by (simp add: other_ready_def)
    qed
  qed
qed

subsection \<open>Moving the pin\<close>

lemma find_active:
  assumes "enqueued s L qs p ts l"
  obtains t where "ready_or_running_thread p s = Inr (Some t)" "t \<in> set (p # ts)" "active (procs s t)"
proof -
  note e = enqueuedD [OF assms]
  have "find (\<lambda>th. active (procs s th)) (ts @ [p]) \<noteq> None"
    using assms by (auto simp: find_None_iff enqueued_def)
  then obtain t where t: "find (\<lambda>th. active (procs s th)) (ts @ [p]) = Some t" by auto
  with ready_or_running_thread_eq [OF e(1)] find_SomeD [OF t] that show thesis by auto
qed

lemma pin_next_proc_dequeue:
  assumes "enqueued s L qs p ts l" and "pin_ok (pin s) qs"
  obtains n where "pin_next_proc p False s = Inr (s\<lparr>pin := (pin s)(l := n)\<rparr>)"
    "n = Queue l \<or> (\<exists>q\<in>set (qs l). q \<notin> set (p # ts) \<and> n = Mlfq q)"
proof -
  note e = enqueuedD [OF assms(1)]
  note pinned = is_proc_pinned_eq [OF e(1)]
  show thesis
  proof (cases "\<exists>th\<in>set (p # ts). Mlfq th = pin s l")
    case False
    moreover have "s\<lparr>pin := (pin s)(l := pin s l)\<rparr> = s" by simp
    moreover from assms(2) e(3) have "pin s l = Queue l \<or> (\<exists>q\<in>set (qs l). pin s l = Mlfq q)"
      by (simp add: pin_ok_def)
    with False have "pin s l = Queue l \<or> (\<exists>q\<in>set (qs l). q \<notin> set (p # ts) \<and> pin s l = Mlfq q)"
      by force
    ultimately show thesis
      using e(2,5) by (intro that [of "pin s l"]) (auto simp: pin_next_proc_def pinned)
  next
    case True
    obtain t where t: "ready_or_running_thread p s = Inr (Some t)" "t \<in> set (p # ts)" "active (procs s t)"
      using assms(1) by (rule find_active)
    obtain r where r: "ready_proc t s = Inr r"
      "\<forall>np. r = Some np \<longrightarrow> np \<in> set (qs l) \<and> np \<notin> set (p # ts) \<and> state (procs s np) = RUNNABLE"
      "r = None \<longrightarrow> (\<forall>np\<in>set (qs l). np \<notin> set (p # ts) \<longrightarrow> state (procs s np) \<noteq> RUNNABLE)"
      using assms(1) t(2,3) by (rule ready_other)
    have "pin_next_proc p False s = Inr (s\<lparr>pin := (pin s)(l := pin_or_head r l)\<rparr>)"
      using e(2,5) True t(1) r(1)
      by (auto simp: pin_next_proc_def pinned set_pin_def pin_or_head_def split: option.split)
    then show thesis
      using r(2) by (intro that [of "pin_or_head r l"]) (auto simp: pin_or_head_def split: option.split)
  qed
qed

lemma pin_next_thread_dequeue:
  assumes "enqueued s L qs p ts l" and "pin_ok (pin s) qs"
  obtains n where "pin_next_thread p False s = Inr (s\<lparr>pin := (pin s)(l := n)\<rparr>)"
    "n = Queue l \<or> (\<exists>q\<in>set (qs l). n = Mlfq q \<and> q \<noteq> p)"
proof -
  note e = enqueuedD [OF assms(1)]
  note pinned = is_proc_pinned_eq [OF e(1)] and ready = ready_thread_eq [OF e(1)]
  show thesis
  proof (cases "\<exists>th\<in>set (p # ts). Mlfq th = pin s l")
    case False
    moreover have "s\<lparr>pin := (pin s)(l := pin s l)\<rparr> = s" by simp
    moreover from assms(2) e(3) have "pin s l = Queue l \<or> (\<exists>q\<in>set (qs l). pin s l = Mlfq q)"
      by (simp add: pin_ok_def)
    with False have "pin s l = Queue l \<or> (\<exists>q\<in>set (qs l). pin s l = Mlfq q \<and> q \<noteq> p)"
      by force
    ultimately show thesis
      using e(2,5) by (intro that [of "pin s l"]) (auto simp: pin_next_thread_def pinned)
  next
    case True
    let ?r = "find (\<lambda>th. state (procs s th) = RUNNABLE) (ts @ [p])"
    show thesis
    proof (cases "?r \<noteq> None \<and> ?r \<noteq> Some p")
      case r: True
      then obtain q where q: "?r = Some q" "q \<noteq> p" by auto
      from find_SomeD [OF q(1)] have "q \<in> set (ts @ [p])" "active (procs s q)" by (auto simp: active_def)
      then have "q \<in> set (qs l)" using assms(1) by (auto simp: enqueued_def)
      moreover have "pin_next_thread p False s = Inr (s\<lparr>pin := (pin s)(l := Mlfq q)\<rparr>)"
        using e(2,5) True q by (auto simp: pin_next_thread_def pinned ready set_pin_def)
      ultimately show thesis using q(2) by (intro that [of "Mlfq q"]) auto
    next
      case False
      obtain t where t: "ready_or_running_thread p s = Inr (Some t)" "t \<in> set (p # ts)" "active (procs s t)"
        using assms(1) by (rule find_active)
      obtain r where r: "ready_proc t s = Inr r"
        "\<forall>np. r = Some np \<longrightarrow> np \<in> set (qs l) \<and> np \<notin> set (p # ts) \<and> state (procs s np) = RUNNABLE"
        "r = None \<longrightarrow> (\<forall>np\<in>set (qs l). np \<notin> set (p # ts) \<longrightarrow> state (procs s np) \<noteq> RUNNABLE)"
        using assms(1) t(2,3) by (rule ready_other)
      have "pin_next_thread p False s = Inr (s\<lparr>pin := (pin s)(l := pin_or_head r l)\<rparr>)"
        using e(2,5) True False t(1) r(1)
        by (auto simp: pin_next_thread_def pinned ready set_pin_def)
      then show thesis
        using r(2) by (intro that [of "pin_or_head r l"]) (auto simp: pin_or_head_def split: option.split)
    qed
  qed
qed

subsection \<open>Dequeueing\<close>

lemma dequeue_thread_eq:
  assumes "enqueued s L qs p ts l" and "pin_ok (pin s) qs" and "active (procs s p)"
  obtains n lk where "dequeue_thread p s = Inr (s\<lparr>pin := (pin s)(l := n), links := lk\<rparr>)"
    "lists lk (L(Queue l \<mapsto> map Mlfq (remove1 p (qs l))))" "fresh_node (L(Queue l \<mapsto> map Mlfq (remove1 p (qs l)))) (Mlfq p)"
    "pin_ok ((pin s)(l := n)) (qs(l := remove1 p (qs l)))"
proof -
  note e = enqueuedD [OF assms(1)]
  obtain n where n: "pin_next_thread p False s = Inr (s\<lparr>pin := (pin s)(l := n)\<rparr>)"
    "n = Queue l \<or> (\<exists>q\<in>set (qs l). n = Mlfq q \<and> q \<noteq> p)"
    using assms(1,2) by (rule pin_next_thread_dequeue)
  have "p \<in> set (qs l)" using assms by (auto simp: enqueued_def)
  then obtain xs ys where q: "qs l = xs @ p # ys" by (auto dest: split_list)
  with e(7) have q': "remove1 p (qs l) = xs @ ys" by (simp add: remove1_split)
  have ll: "lists (links s) L" using assms(1) by (simp add: enqueued_def)
  have "L (Queue l) = Some (map Mlfq xs @ Mlfq p # map Mlfq ys)" using e(4) q by simp
  from lists_del [OF ll this] obtain lk where "list_del (Mlfq p) (links s) = Inr lk"
    "lists lk (L(Queue l \<mapsto> map Mlfq xs @ map Mlfq ys))"
    "fresh_node (L(Queue l \<mapsto> map Mlfq xs @ map Mlfq ys)) (Mlfq p)" by blast
  moreover have "pin_ok ((pin s)(l := n)) (qs(l := remove1 p (qs l)))"
    using assms(2) n(2) q by (auto simp: pin_ok_def q')
  ultimately show thesis
    using n(1) by (intro that [of lk n]) (simp_all add: dequeue_thread_def on_links_def q')
qed

lemma same_outside_thgroup:
  "same_outside A lk lk' \<Longrightarrow> A \<subseteq> insert (Queue l) (range Mlfq) \<Longrightarrow> lk' (Thgroup n) = lk (Thgroup n)"
  by (erule same_outsideD) auto

lemma dequeue_threads_eq:
  "lists (links s) L \<Longrightarrow> L (Queue l) = Some (map Mlfq q) \<Longrightarrow> distinct ths \<Longrightarrow>
   (\<And>t. t \<in> set ths \<Longrightarrow> active (procs s t) \<Longrightarrow> t \<in> set q) \<Longrightarrow>
   \<exists>lk. apply_until routine_dequeue_proc ths s = Inr (None, s\<lparr>links := lk\<rparr>) \<and>
     groups_kept routine_dequeue_proc ths s \<and>
     lists lk (L(Queue l \<mapsto> map Mlfq (filter (\<lambda>x. \<not> (x \<in> set ths \<and> active (procs s x))) q)))"
proof (induction ths arbitrary: s L q)
  case Nil
  have "filter (\<lambda>x. \<not> (x \<in> set [] \<and> active (procs s x))) q = q" by simp
  moreover have "L(Queue l \<mapsto> map Mlfq q) = L" using Nil(2) by (simp add: fun_upd_idem)
  moreover have "apply_until routine_dequeue_proc [] s = Inr (None, s\<lparr>links := links s\<rparr>)" by simp
  ultimately show ?case using Nil(1) by (metis groups_kept.simps(1))
next
  case (Cons t ths)
  let ?act = "\<lambda>x. active (procs s x)"
  show ?case
  proof (cases "?act t")
    case False
    then have "filter (\<lambda>x. \<not> (x \<in> set (t # ths) \<and> ?act x)) q = filter (\<lambda>x. \<not> (x \<in> set ths \<and> ?act x)) q"
      by (intro filter_cong) auto
    moreover have "routine_dequeue_proc t s = Inr (False, s)"
      using False by (simp add: routine_dequeue_proc_def active_def)
    ultimately show ?thesis using Cons.IH [of s L q] Cons.prems by simp
  next
    case True
    then have "t \<in> set q" using Cons.prems by simp
    then obtain xs ys where q: "q = xs @ t # ys" by (auto dest: split_list)
    have "distinct q" using lists_distinct [OF Cons.prems(1,2)] by (simp add: distinct_map)
    have "L (Queue l) = Some (map Mlfq xs @ Mlfq t # map Mlfq ys)" using Cons.prems(2) q by simp
    from lists_del [OF Cons.prems(1) this] obtain lk where lk: "list_del (Mlfq t) (links s) = Inr lk"
      "lists lk (L(Queue l \<mapsto> map Mlfq (xs @ ys)))"
      "same_outside (set (Queue l # map Mlfq xs @ Mlfq t # map Mlfq ys)) (links s) lk" by auto
    have r: "routine_dequeue_proc t s = Inr (False, s\<lparr>links := lk\<rparr>)"
      using True lk(1) by (auto simp: routine_dequeue_proc_def active_def on_links_def)
    have g: "lk (Thgroup n) = links s (Thgroup n)" for n
      by (rule same_outside_thgroup [OF lk(3), of l]) auto
    let ?s = "s\<lparr>links := lk\<rparr>" and ?L = "L(Queue l \<mapsto> map Mlfq (xs @ ys))"
    let ?q' = "filter (\<lambda>x. \<not> (x \<in> set ths \<and> ?act x)) (xs @ ys)"
    have "\<exists>lk'. apply_until routine_dequeue_proc ths ?s = Inr (None, ?s\<lparr>links := lk'\<rparr>) \<and>
        groups_kept routine_dequeue_proc ths ?s \<and>
        lists lk' (?L(Queue l \<mapsto> map Mlfq (filter (\<lambda>x. \<not> (x \<in> set ths \<and> active (procs ?s x))) (xs @ ys))))"
    proof (rule Cons.IH)
      show "t' \<in> set (xs @ ys)" if "t' \<in> set ths" "active (procs ?s t')" for t'
        using that Cons.prems(3) Cons.prems(4) [of t'] q by auto
      show "lists (links ?s) ?L" using lk(2) by simp
      show "?L (Queue l) = Some (map Mlfq (xs @ ys))" by simp
      show "distinct ths" using Cons.prems(3) by simp
    qed
    then obtain lk' where lk': "apply_until routine_dequeue_proc ths ?s = Inr (None, s\<lparr>links := lk'\<rparr>)"
      "groups_kept routine_dequeue_proc ths ?s" "lists lk' (L(Queue l \<mapsto> map Mlfq ?q'))"
      by (auto simp del: filter_append map_append)
    have eq: "filter (\<lambda>x. \<not> (x \<in> set (t # ths) \<and> ?act x)) q = ?q'"
    proof -
      have "filter (\<lambda>x. \<not> (x \<in> set (t # ths) \<and> ?act x)) zs = filter (\<lambda>x. \<not> (x \<in> set ths \<and> ?act x)) zs"
        if "t \<notin> set zs" for zs using that by (intro filter_cong) auto
      with True q \<open>distinct q\<close> show ?thesis by simp
    qed
    have "apply_until routine_dequeue_proc (t # ths) s = Inr (None, s\<lparr>links := lk'\<rparr>)"
      using r lk'(1) by simp
    moreover have "groups_kept routine_dequeue_proc (t # ths) s" using r lk'(2) g by simp
    ultimately show ?thesis using lk'(3) unfolding eq by blast
  qed
qed

lemma dequeue_proc_eq:
  assumes "enqueued s L qs p ts l" and "pin_ok (pin s) qs"
  obtains n lk where "dequeue_proc p s = Inr (s\<lparr>pin := (pin s)(l := n), links := lk\<rparr>)"
    "lists lk (L(Queue l \<mapsto> map Mlfq (filter (\<lambda>x. x \<notin> set (p # ts)) (qs l))))"
    "pin_ok ((pin s)(l := n)) (qs(l := filter (\<lambda>x. x \<notin> set (p # ts)) (qs l)))"
proof -
  note e = enqueuedD [OF assms(1)]
  obtain n where n: "pin_next_proc p False s = Inr (s\<lparr>pin := (pin s)(l := n)\<rparr>)"
    "n = Queue l \<or> (\<exists>q\<in>set (qs l). q \<notin> set (p # ts) \<and> n = Mlfq q)"
    using assms by (rule pin_next_proc_dequeue)
  let ?s = "s\<lparr>pin := (pin s)(l := n)\<rparr>" and ?q = "filter (\<lambda>x. x \<notin> set (p # ts)) (qs l)"
  have "\<exists>lk. apply_until routine_dequeue_proc (ts @ [p]) ?s = Inr (None, ?s\<lparr>links := lk\<rparr>) \<and>
     groups_kept routine_dequeue_proc (ts @ [p]) ?s \<and>
     lists lk (L(Queue l \<mapsto> map Mlfq (filter (\<lambda>x. \<not> (x \<in> set (ts @ [p]) \<and> active (procs ?s x))) (qs l))))"
    using assms(1) e(6) by (intro dequeue_threads_eq e(4)) (auto simp: enqueued_def)
  moreover have "filter (\<lambda>x. \<not> (x \<in> set (ts @ [p]) \<and> active (procs ?s x))) (qs l) = ?q"
    using assms(1) by (intro filter_cong) (auto simp: enqueued_def)
  ultimately obtain lk where lk: "apply_until routine_dequeue_proc (ts @ [p]) ?s = Inr (None, ?s\<lparr>links := lk\<rparr>)"
    "groups_kept routine_dequeue_proc (ts @ [p]) ?s" "lists lk (L(Queue l \<mapsto> map Mlfq ?q))" by auto
  have "tgroup (links ?s) p ts" using e(1) by simp
  from threads_apply0_kept [OF this lk(2)] lk(1)
  have "dequeue_proc p s = Inr (s\<lparr>pin := (pin s)(l := n), links := lk\<rparr>)"
    using n(1) by (simp add: dequeue_proc_def)
  moreover have "pin_ok ((pin s)(l := n)) (qs(l := ?q))"
    using assms(2) n(2) by (auto simp: pin_ok_def)
  ultimately show thesis using that lk(3) by blast
qed


subsection \<open>Enqueueing a process\<close>

lemma apply_until_append:
  "apply_until r ts s = Inr (None, s') \<Longrightarrow> apply_until r (ts @ us) s = apply_until r us s'"
  by (induction ts arbitrary: s) (auto simp: res_simps split: if_splits)

lemma groups_kept_append:
  "groups_kept r ts s \<Longrightarrow> (\<And>s'. groups_kept r us s') \<Longrightarrow> groups_kept r (ts @ us) s"
  by (induction ts arbitrary: s) auto

lemma enqueue_remain_eq:
  "lists (links s) L \<Longrightarrow> L (Queue l) = Some (map Mlfq (xs @ p # ys)) \<Longrightarrow> distinct ths \<Longrightarrow> p \<notin> set ths \<Longrightarrow>
   (\<And>t. t \<in> set ths \<Longrightarrow> active (procs s t) \<Longrightarrow> fresh_node L (Mlfq t)) \<Longrightarrow>
   \<exists>lk. apply_until (\<lambda>th. routine_enqueue_remain th p) ths s = Inr (None, s\<lparr>links := lk\<rparr>) \<and>
     groups_kept (\<lambda>th. routine_enqueue_remain th p) ths s \<and>
     lists lk (L(Queue l \<mapsto> map Mlfq (xs @ p # rev (filter (\<lambda>x. active (procs s x)) ths) @ ys)))"
proof (induction ths arbitrary: s L ys)
  case Nil
  have "L(Queue l \<mapsto> map Mlfq (xs @ p # ys)) = L" using Nil(2) by (simp add: fun_upd_idem)
  moreover have "apply_until (\<lambda>th. routine_enqueue_remain th p) [] s = Inr (None, s\<lparr>links := links s\<rparr>)" by simp
  ultimately show ?case using Nil(1) by (metis groups_kept.simps(1) filter.simps(1) rev.simps(1) append_Nil)
next
  case (Cons t ths)
  let ?act = "\<lambda>x. active (procs s x)" and ?r = "\<lambda>th. routine_enqueue_remain th p"
  have t: "t \<noteq> p" using Cons.prems(4) by auto
  show ?case
  proof (cases "?act t")
    case False
    then have "?r t s = Inr (False, s)"
      by (simp add: routine_enqueue_remain_def active_def)
    then show ?thesis using Cons.IH [of s L ys] Cons.prems False by simp
  next
    case True
    have "L (Queue l) = Some (map Mlfq xs @ Mlfq p # map Mlfq ys)" using Cons.prems(2) by simp
    from lists_add_after [OF Cons.prems(1) this] True Cons.prems(5)
    obtain lk where lk: "list_add_after (Mlfq t) (Mlfq p) (links s) = Inr lk"
      "lists lk (L(Queue l \<mapsto> map Mlfq (xs @ p # t # ys)))"
      "same_outside (set (Queue l # Mlfq t # map Mlfq xs @ Mlfq p # map Mlfq ys)) (links s) lk" by auto
    have r: "?r t s = Inr (False, s\<lparr>links := lk\<rparr>)"
      using True lk(1) t by (auto simp: routine_enqueue_remain_def active_def on_links_def)
    have g: "lk (Thgroup n) = links s (Thgroup n)" for n
      by (rule same_outside_thgroup [OF lk(3), of l]) auto
    let ?s = "s\<lparr>links := lk\<rparr>" and ?L = "L(Queue l \<mapsto> map Mlfq (xs @ p # t # ys))"
    let ?q' = "xs @ p # rev (filter ?act (t # ths)) @ ys"
    have "\<exists>lk'. apply_until ?r ths ?s = Inr (None, ?s\<lparr>links := lk'\<rparr>) \<and> groups_kept ?r ths ?s \<and>
        lists lk' (?L(Queue l \<mapsto> map Mlfq (xs @ p # rev (filter (\<lambda>x. active (procs ?s x)) ths) @ t # ys)))"
    proof (rule Cons.IH)
      show "fresh_node ?L (Mlfq t')" if "t' \<in> set ths" "active (procs ?s t')" for t'
      proof -
        have "fresh_node L (Mlfq t')" using that Cons.prems(5) by simp
        moreover have "t' \<noteq> t" using that Cons.prems(3) by auto
        ultimately show ?thesis using Cons.prems(2) by (fastforce simp: fresh_node_def split: if_splits)
      qed
      show "lists (links ?s) ?L" using lk(2) by simp
      show "?L (Queue l) = Some (map Mlfq (xs @ p # t # ys))" by simp
    qed (use Cons.prems in simp_all)
    then obtain lk' where lk': "apply_until ?r ths ?s = Inr (None, s\<lparr>links := lk'\<rparr>)"
      "groups_kept ?r ths ?s" "lists lk' (L(Queue l \<mapsto> map Mlfq ?q'))"
      using True by auto
    have "apply_until ?r (t # ths) s = Inr (None, s\<lparr>links := lk'\<rparr>)" using r lk'(1) by simp
    moreover have "groups_kept ?r (t # ths) s" using r lk'(2) g by simp
    ultimately show ?thesis using lk'(3) by blast
  qed
qed

lemma enqueue_proc_eq:
  assumes "lists (links s) L" and "queues L qs" and "active (procs s p)" and "level_of p s = Inr l"
    and "l < QSIZE" and "in_ring L p ts"
    and fresh: "\<And>t. t \<in> set (p # ts) \<Longrightarrow> active (procs s t) \<Longrightarrow> fresh_node L (Mlfq t)"
  obtains lk where "enqueue_proc p s = Inr (s\<lparr>links := lk\<rparr>)"
    "lists lk (L(Queue l \<mapsto> map Mlfq (qs l @ p # rev (filter (\<lambda>t. active (procs s t)) ts))))"
proof -
  let ?r = "\<lambda>th. routine_enqueue_remain th p"
  have q: "L (Queue l) = Some (map Mlfq (qs l))" using assms(2,5) by (simp add: queues_def)
  have "fresh_node L (Mlfq p)" using fresh assms(3) by simp
  from lists_add_tail [OF assms(1) q this] obtain lk where lk: "list_add_tail (Mlfq p) (Queue l) (links s) = Inr lk"
    "lists lk (L(Queue l \<mapsto> map Mlfq (qs l @ [p])))" by auto
  let ?s = "s\<lparr>links := lk\<rparr>" and ?L = "L(Queue l \<mapsto> map Mlfq (qs l @ [p]))"
  have l: "lists (links ?s) ?L" using lk(2) by simp
  have g: "tgroup (links ?s) p ts" using in_ring_tgroup [OF l] assms(6) by simp
  then have d: "distinct (p # ts)" by (auto simp: tgroup_def dlist_def distinct_map)
  have "\<exists>lk'. apply_until ?r ts ?s = Inr (None, ?s\<lparr>links := lk'\<rparr>) \<and> groups_kept ?r ts ?s \<and>
     lists lk' (?L(Queue l \<mapsto> map Mlfq (qs l @ p # rev (filter (\<lambda>x. active (procs ?s x)) ts) @ [])))"
  proof (rule enqueue_remain_eq [OF l])
    show "fresh_node ?L (Mlfq t)" if "t \<in> set ts" "active (procs ?s t)" for t
      using fresh [of t] that d q by (fastforce simp: fresh_node_def split: if_splits)
  qed (use d in simp_all)
  then obtain lk' where lk': "apply_until ?r ts ?s = Inr (None, s\<lparr>links := lk'\<rparr>)" "groups_kept ?r ts ?s"
    "lists lk' (L(Queue l \<mapsto> map Mlfq (qs l @ p # rev (filter (\<lambda>x. active (procs s x)) ts))))" by auto
  have rp: "?r p s' = Inr (False, s')" for s' :: "'a ptable_scheme" by (simp add: routine_enqueue_remain_def)
  have "apply_until ?r (ts @ [p]) ?s = Inr (None, s\<lparr>links := lk'\<rparr>)"
    using apply_until_append [OF lk'(1), of "[p]"] rp by simp
  moreover have "groups_kept ?r (ts @ [p]) ?s"
    using lk'(2) by (rule groups_kept_append) (simp add: rp)
  ultimately have "threads_apply1 p routine_enqueue_remain p ?s = Inr (None, s\<lparr>links := lk'\<rparr>)"
    using threads_apply1_kept [OF g, of routine_enqueue_remain p] by simp
  then have "enqueue_proc p s = Inr (s\<lparr>links := lk'\<rparr>)"
    using lk(1) assms(3-5) by (auto simp: enqueue_proc_def queue_at_def on_links_def active_def)
  with lk'(3) that show thesis by blast
qed

subsection \<open>Concatenating and boosting\<close>

lemma queues_upd: "queues L qs \<Longrightarrow> queues (L(Queue l \<mapsto> map Mlfq q)) (qs(l := q))"
  by (simp add: queues_def)

lemma concatqueue_eq:
  assumes "lists (links s) L" and "queues L qs" and "pin_ok (pin s) qs"
    and "src < QSIZE" and "dst < QSIZE" and "src \<noteq> dst"
  obtains lk pn where "concatqueue src dst s = Inr (s\<lparr>pin := pn, links := lk\<rparr>)"
    "lists lk (L(Queue src \<mapsto> [], Queue dst \<mapsto> map Mlfq (qs dst @ qs src)))"
    "pin_ok pn (qs(src := [], dst := qs dst @ qs src))"
proof -
  have q: "L (Queue src) = Some (map Mlfq (qs src))" "L (Queue dst) = Some (map Mlfq (qs dst))"
    using assms(2,4,5) by (simp_all add: queues_def)
  obtain lk where lk: "list_bulk_move_tail (Queue src) (Queue dst) (links s) = Inr lk"
    "lists lk (L(Queue src \<mapsto> [], Queue dst \<mapsto> map Mlfq (qs dst) @ map Mlfq (qs src)))"
    using lists_bulk_move [OF assms(1) q] assms(6) by auto
  define pn where "pn = (if qs dst = [] \<and> pin s src \<noteq> Queue src then (pin s)(dst := pin s src) else pin s)(src := Queue src)"
  have "list_empty (Queue dst) (links s) \<longleftrightarrow> qs dst = []"
    using dlist_empty_iff [OF listsD [OF assms(1) q(2)]] by simp
  then have "concatqueue src dst s = Inr (s\<lparr>pin := pn, links := lk\<rparr>)"
    using lk(1) assms(4,5) by (auto simp: concatqueue_def queue_at_def set_pin_def pn_def Let_def on_links_def)
  moreover have "pin_ok pn (qs(src := [], dst := qs dst @ qs src))"
  proof -
    have "pin s src = Queue src \<or> (\<exists>p\<in>set (qs src). pin s src = Mlfq p)" using assms(3,4) by (simp add: pin_ok_def)
    then show ?thesis using assms(3,6) unfolding pin_ok_def pn_def by (auto split: if_splits)
  qed
  ultimately show thesis using lk(2) that by simp
qed

definition reset_all :: "nat set \<Rightarrow> (nat \<Rightarrow> proc) \<Rightarrow> nat \<Rightarrow> proc" where
  "reset_all A ps = (\<lambda>p. if p \<in> A then (ps p)\<lparr>privlevel := 0, ticks := 0\<rparr> else ps p)"

lemma reset_all_insert: "reset_all A (procs (reset_level p s)) = reset_all (insert p A) (procs s)"
  by (rule ext) (simp add: reset_level_def upd_def reset_all_def)

lemma reset_level_procs: "(reset_level p s)\<lparr>procs := x\<rparr> = s\<lparr>procs := x\<rparr>"
  by (simp add: reset_level_def upd_def)

lemma reset_all_union: "reset_all A (reset_all B ps) = reset_all (A \<union> B) ps"
  by (rule ext) (simp add: reset_all_def)

lemma reset_all_empty: "s\<lparr>procs := reset_all {} (procs s)\<rparr> = s"
  by (simp add: reset_all_def)

lemma reset_all_fold:
  "rfold (\<lambda>itr s. rbind (entry_mlfq itr) (\<lambda>p. Inr (reset_level p s))) (map Mlfq ps) s =
   Inr (s\<lparr>procs := reset_all (set ps) (procs s)\<rparr>)"
  "rfold (\<lambda>itr s. rbind (entry_sleep itr) (\<lambda>p. Inr (reset_level p s))) (map Sleep ps) s =
   Inr (s\<lparr>procs := reset_all (set ps) (procs s)\<rparr>)"
  by (induction ps arbitrary: s) (simp_all add: reset_all_insert reset_level_procs reset_all_empty)

lemma boost_level_eq:
  assumes "lists (links s) L" and "queues L qs" and "pin_ok (pin s) qs"
    and "0 < l" and "l < QSIZE" and "length (qs l) \<le> NPROC"
  obtains lk pn where "boost_level l s = Inr (s\<lparr>procs := reset_all (set (qs l)) (procs s), pin := pn, links := lk\<rparr>)"
    "lists lk (L(Queue l \<mapsto> [], Queue 0 \<mapsto> map Mlfq (qs 0 @ qs l)))"
    "pin_ok pn (qs(l := [], 0 := qs 0 @ qs l))"
proof -
  have q: "L (Queue l) = Some (map Mlfq (qs l))" using assms(2,5) by (simp add: queues_def)
  have w: "walk (Suc NPROC) (Queue l) (nxt (links s (Queue l))) (links s) = Inr (map Mlfq (qs l))"
    using assms(6) by (intro walk_dlist listsD [OF assms(1) q]) simp
  let ?s = "s\<lparr>procs := reset_all (set (qs l)) (procs s)\<rparr>"
  obtain lk pn where c: "concatqueue l 0 ?s = Inr (?s\<lparr>pin := pn, links := lk\<rparr>)"
    "lists lk (L(Queue l \<mapsto> [], Queue 0 \<mapsto> map Mlfq (qs 0 @ qs l)))"
    "pin_ok pn (qs(l := [], 0 := qs 0 @ qs l))"
    by (rule concatqueue_eq [of ?s L qs l 0]) (use assms in simp_all)
  have "boost_level l s = concatqueue l 0 ?s"
    unfolding boost_level_def w reset_all_fold rbind_Inr ..
  with c that show thesis by simp
qed

text \<open>
  After the boost every active thread is in the queue of level 0, in the order of the levels,
  and the other queues are empty.
\<close>

lemma priority_boost_eq:
  assumes l: "lists (links s) L" and q: "queues L qs" and p: "pin_ok (pin s) qs"
    and len: "length (qs 1) \<le> NPROC" "length (qs 2) \<le> NPROC" "length sl \<le> NPROC"
    and sl: "L Sleep_head = Some (map Sleep sl)"
  obtains lk pn where
    "priority_boost s = Inr (s\<lparr>procs := reset_all (set (qs 1 @ qs 2 @ sl)) (procs s), pin := pn, links := lk, mlfq_ticks := 0\<rparr>)"
    "lists lk (L(Queue 0 \<mapsto> map Mlfq (qs 0 @ qs 1 @ qs 2), Queue 1 \<mapsto> [], Queue 2 \<mapsto> []))"
    "pin_ok pn (qs(0 := qs 0 @ qs 1 @ qs 2, 1 := [], 2 := []))"
proof -
  obtain lk1 pn1 where 1: "boost_level 1 s = Inr (s\<lparr>procs := reset_all (set (qs 1)) (procs s), pin := pn1, links := lk1\<rparr>)"
    "lists lk1 (L(Queue 1 \<mapsto> [], Queue 0 \<mapsto> map Mlfq (qs 0 @ qs 1)))" "pin_ok pn1 (qs(1 := [], 0 := qs 0 @ qs 1))"
    by (rule boost_level_eq [of s L qs 1]) (use l q p len in simp_all)
  let ?s1 = "s\<lparr>procs := reset_all (set (qs 1)) (procs s), pin := pn1, links := lk1\<rparr>"
  let ?L1 = "L(Queue 1 \<mapsto> [], Queue 0 \<mapsto> map Mlfq (qs 0 @ qs 1))" and ?q1 = "qs(1 := [], 0 := qs 0 @ qs 1)"
  have q1: "queues ?L1 ?q1" using q by (auto simp: queues_def)
  obtain lk2 pn2 where 2: "boost_level 2 ?s1 = Inr (?s1\<lparr>procs := reset_all (set (qs 2)) (procs ?s1), pin := pn2, links := lk2\<rparr>)"
    "lists lk2 (?L1(Queue 2 \<mapsto> [], Queue 0 \<mapsto> map Mlfq (qs 0 @ qs 1 @ qs 2)))"
    "pin_ok pn2 (?q1(2 := [], 0 := qs 0 @ qs 1 @ qs 2))"
    by (rule boost_level_eq [of ?s1 ?L1 ?q1 2]) (use 1 q1 len in simp_all)
  let ?L2 = "L(Queue 0 \<mapsto> map Mlfq (qs 0 @ qs 1 @ qs 2), Queue 1 \<mapsto> [], Queue 2 \<mapsto> [])"
  have L2: "?L1(Queue 2 \<mapsto> [], Queue 0 \<mapsto> map Mlfq (qs 0 @ qs 1 @ qs 2)) = ?L2"
    "?q1(2 := [], 0 := qs 0 @ qs 1 @ qs 2) = qs(0 := qs 0 @ qs 1 @ qs 2, 1 := [], 2 := [])"
    by (auto simp: fun_eq_iff)
  have "?L2 Sleep_head = Some (map Sleep sl)" using sl by simp
  from walk_dlist [OF listsD [OF 2(2) [unfolded L2] this]] len(3)
  have w: "walk (Suc NPROC) Sleep_head (nxt (lk2 Sleep_head)) lk2 = Inr (map Sleep sl)" by simp
  have "[1..<QSIZE] = [1, 2]" by (simp add: upt_rec)
  then have r: "rfold boost_level [1..<QSIZE] s = boost_level 2 ?s1"
    using 1(1) 2(1) by (simp only: rfold.simps rbind_Inr)
  have "priority_boost s = Inr (s\<lparr>procs := reset_all (set (qs 1 @ qs 2 @ sl)) (procs s), pin := pn2, links := lk2, mlfq_ticks := 0\<rparr>)"
    unfolding priority_boost_def r 2(1) rbind_Inr
    by (simp add: w [simplified] reset_all_fold reset_all_union Un_ac del: walk.simps)
  with 2(2,3) that show thesis unfolding L2 by blast
qed

subsection \<open>Selection\<close>

text \<open>
  The queues at rest: every thread of a queue belongs to a process that is enqueued there. A level is passed over when it is empty, or when the thread
  it would select, the pinned one or else the first, runs already and either the level has no pin or none of its threads is ready.
\<close>

definition all_enqueued :: "'a ptable_scheme \<Rightarrow> (node \<Rightarrow> node list option) \<Rightarrow> (nat \<Rightarrow> nat list) \<Rightarrow> bool" where
  "all_enqueued s L qs = (lists (links s) L \<and> queues L qs \<and> (\<forall>l<QSIZE. \<forall>p\<in>set (qs l). \<exists>ts. enqueued s L qs p ts l))"

definition candidate :: "'a ptable_scheme \<Rightarrow> (nat \<Rightarrow> nat list) \<Rightarrow> nat \<Rightarrow> nat" where
  "candidate s qs l = (case pin s l of Mlfq p \<Rightarrow> p | _ \<Rightarrow> hd (qs l))"

definition passed_over :: "'a ptable_scheme \<Rightarrow> (nat \<Rightarrow> nat list) \<Rightarrow> nat \<Rightarrow> bool" where
  "passed_over s qs l = (qs l = [] \<or> state (procs s (candidate s qs l)) = RUNNING \<and>
     (pin s l = Queue l \<or> (\<forall>t\<in>set (qs l). state (procs s t) \<noteq> RUNNABLE)))"

definition unpin :: "nat \<Rightarrow> 'a ptable_scheme \<Rightarrow> 'a ptable_scheme" where
  "unpin n s = s\<lparr>pin := (\<lambda>k. if k < n then Queue k else pin s k)\<rparr>"

lemma enqueued_pin [simp]: "enqueued (s\<lparr>pin := x\<rparr>) L qs p ts l = enqueued s L qs p ts l"
  by (simp add: enqueued_def)

lemma all_enqueued_pin [simp]: "all_enqueued (s\<lparr>pin := x\<rparr>) L qs = all_enqueued s L qs"
  by (simp add: all_enqueued_def)

lemma unpinned_next:
  assumes "enqueued s L qs p ts l" and "pin s l = Queue l"
  shows "pin_next_thread p False s = Inr s" and "pin_next_proc p False s = Inr s"
  using enqueuedD [OF assms(1)] assms(2) is_proc_pinned_eq [OF enqueuedD(1) [OF assms(1)]]
  by (auto simp: pin_next_thread_def pin_next_proc_def)

lemma pinned_next:
  assumes "enqueued s L qs p ts l" and "pin s l = Mlfq p" and "state (procs s p) = RUNNING"
  obtains n where "pin_next_thread p False s = Inr (set_pin l n s)"
    "n = Queue l \<longleftrightarrow> (\<forall>t\<in>set (qs l). state (procs s t) \<noteq> RUNNABLE)"
proof -
  note e = enqueuedD [OF assms(1)]
  note pinned = is_proc_pinned_eq [OF e(1)] and ready = ready_thread_eq [OF e(1)]
  show thesis
  proof (cases "find (\<lambda>th. state (procs s th) = RUNNABLE) (ts @ [p])")
    case (Some q)
    from find_SomeD [OF Some] assms(3) have q: "q \<in> set ts" "state (procs s q) = RUNNABLE" by auto
    then have "q \<in> set (qs l)" "q \<noteq> p" using assms(1) e(6) by (auto simp: enqueued_def active_def)
    moreover have "pin_next_thread p False s = Inr (set_pin l (Mlfq q) s)"
      using e(2,5) assms(2) Some \<open>q \<noteq> p\<close> by (simp add: pin_next_thread_def pinned ready)
    ultimately show thesis using q(2) by (intro that [of "Mlfq q"]) auto
  next
    case None
    then have no: "state (procs s t) \<noteq> RUNNABLE" if "t \<in> set (p # ts)" for t
      using that find_NoneD [OF None, of t] by auto
    obtain t where t: "ready_or_running_thread p s = Inr (Some t)" "t \<in> set (p # ts)" "active (procs s t)"
      using assms(1) by (rule find_active)
    obtain r where r: "ready_proc t s = Inr r"
      "\<forall>np. r = Some np \<longrightarrow> np \<in> set (qs l) \<and> np \<notin> set (p # ts) \<and> state (procs s np) = RUNNABLE"
      "r = None \<longrightarrow> (\<forall>np\<in>set (qs l). np \<notin> set (p # ts) \<longrightarrow> state (procs s np) \<noteq> RUNNABLE)"
      using assms(1) t(2,3) by (rule ready_other)
    have "pin_next_thread p False s = Inr (set_pin l (pin_or_head r l) s)"
      using e(2,5) assms(2) None t(1) r(1) by (simp add: pin_next_thread_def pinned ready)
    moreover have "pin_or_head r l = Queue l \<longleftrightarrow> (\<forall>t\<in>set (qs l). state (procs s t) \<noteq> RUNNABLE)"
      using r(2,3) no by (cases r) (auto simp: pin_or_head_def)
    ultimately show thesis by (rule that)
  qed
qed

lemma set_pin_sel [simp]: "pin (set_pin l n s) = (pin s)(l := n)" "procs (set_pin l n s) = procs s" "level_of p (set_pin l n s) = level_of p s"
  "set_pin l m (set_pin l n s) = set_pin l m s"
  by (simp_all add: set_pin_def)

lemma select_level:
  assumes "all_enqueued s L qs" and "pin_ok (pin s) qs" and "QSIZE - Suc n = l" and "l < QSIZE"
  shows "mlfqselect_from (Suc n) s =
    (if passed_over s qs l then mlfqselect_from n (set_pin l (Queue l) s)
     else Inr (Some (candidate s qs l), set_pin l (Mlfq (candidate s qs l)) s))"
proof -
  have q: "lists (links s) L" "L (Queue l) = Some (map Mlfq (qs l))" using assms(1,4) by (simp_all add: all_enqueued_def queues_def)
  note d = listsD [OF q]
  have em: "list_empty (Queue l) (links s) \<longleftrightarrow> qs l = []" using dlist_empty_iff [OF d] by simp
  have pin: "pin s l = Queue l \<or> (\<exists>p\<in>set (qs l). pin s l = Mlfq p)" using assms(2,4) by (simp add: pin_ok_def)
  have same: "set_pin l (Queue l) s = s" if "pin s l = Queue l"
    using that fun_upd_triv [of "pin s" l] by (simp add: set_pin_def)
  show ?thesis
  proof (cases "qs l = []")
    case True
    then have "pin s l = Queue l" using pin by simp
    then show ?thesis
      unfolding mlfqselect_from.simps Let_def assms(3) using True em same by (simp add: passed_over_def)
  next
    case False
    define p where "p = candidate s qs l"
    have p: "p \<in> set (qs l)" using pin False by (auto simp: p_def candidate_def)
    then obtain ts where eq: "enqueued s L qs p ts l" using assms(1,4) by (auto simp: all_enqueued_def)
    have lv: "level_of p s = Inr l" using enqueuedD(2) [OF eq] .
    have "nxt (links s (Queue l)) = Some (Mlfq (hd (qs l)))" using dlist_next [OF d] False by (simp add: hd_append hd_map)
    then have e: "(if pin s l = Queue l then rbind (deref (nxt (links s (Queue l)))) entry_mlfq else entry_mlfq (pin s l)) = Inr p"
      using pin by (auto simp: p_def candidate_def)
    note unfold = mlfqselect_from.simps Let_def assms(3) e
    have "pin s l = Queue l \<or> pin s l = Mlfq p" using pin by (auto simp: p_def candidate_def)
    then consider (idle) "state (procs s p) \<noteq> RUNNING" | (no_pin) "state (procs s p) = RUNNING" "pin s l = Queue l"
      | (pinned) "state (procs s p) = RUNNING" "pin s l = Mlfq p" by blast
    then show ?thesis
    proof cases
      case idle
      then show ?thesis unfolding unfold using em False lv by (simp add: passed_over_def flip: p_def)
    next
      case no_pin
      then show ?thesis
        unfolding unfold using em False same unpinned_next [OF eq] by (simp add: passed_over_def flip: p_def)
    next
      case pinned
      obtain m where m: "pin_next_thread p False s = Inr (set_pin l m s)" "m = Queue l \<longleftrightarrow> (\<forall>t\<in>set (qs l). state (procs s t) \<noteq> RUNNABLE)"
        using eq pinned(2,1) by (rule pinned_next)
      have "enqueued (set_pin l (Queue l) s) L qs p ts l" using eq by (simp add: set_pin_def)
      note stay = unpinned_next(2) [OF this]
      show ?thesis
      proof (cases "m = Queue l")
        case True
        then have "passed_over s qs l" using m(2) pinned(1) by (simp add: passed_over_def p_def)
        then show ?thesis unfolding unfold using em False pinned m(1) [unfolded True] stay by simp
      next
        case moved: False
        then have "\<not> passed_over s qs l" using m(2) pinned False by (auto simp: passed_over_def)
        then show ?thesis unfolding unfold using em False pinned m(1) moved lv by (simp flip: p_def)
      qed
    qed
  qed
qed


lemma unpin_sel [simp]:
  "all_enqueued (unpin n s) L qs = all_enqueued s L qs" "pin_ok (pin s) qs \<Longrightarrow> pin_ok (pin (unpin n s)) qs"
  "candidate (unpin n s) qs n = candidate s qs n" "passed_over (unpin n s) qs n = passed_over s qs n"
  "set_pin n (Queue n) (unpin n s) = unpin (Suc n) s"
  by (auto simp: unpin_def all_enqueued_def pin_ok_def candidate_def passed_over_def set_pin_def fun_eq_iff less_Suc_eq intro: arg_cong)

lemma mlfqselect_from_eq:
  assumes "all_enqueued s L qs" and "pin_ok (pin s) qs"
  shows "n \<le> QSIZE \<Longrightarrow> mlfqselect_from n (unpin (QSIZE - n) s) =
    Inr (case find (\<lambda>l. \<not> passed_over s qs l) [QSIZE - n..<QSIZE] of
           None \<Rightarrow> (None, unpin QSIZE s)
         | Some l \<Rightarrow> (Some (candidate s qs l), set_pin l (Mlfq (candidate s qs l)) (unpin l s)))"
proof (induction n)
  case (Suc n)
  obtain l where l: "QSIZE - Suc n = l" "l < QSIZE" "QSIZE - n = Suc l" using Suc.prems by auto
  have up: "[l..<QSIZE] = l # [Suc l..<QSIZE]" using l(2) by (rule upt_conv_Cons)
  have "mlfqselect_from (Suc n) (unpin l s) = (if passed_over s qs l then mlfqselect_from n (unpin (Suc l) s)
      else Inr (Some (candidate s qs l), set_pin l (Mlfq (candidate s qs l)) (unpin l s)))"
    using select_level [of "unpin l s" L qs n l] assms l by simp
  then show ?case using Suc l by (simp add: up)
qed simp

subsection \<open>Properties\<close>

text \<open>
  C9. What \<open>mlfqselect\<close> returns, for every state of the threads: the first level that is not passed over gives the thread, the pinned one
  if the level has a pin and the first of the queue otherwise, and is pinned to it; the levels above have lost their pins; and it returns null exactly when
  all levels are passed over. So it is the highest non-empty level while none of its threads runs. A level is also passed over, however, when
  it has no pin and its first thread runs on another CPU, even if its other threads are ready; and a pinned thread that runs is returned
  again if any thread of the level is ready.
\<close>

theorem mlfqselect_highest:
  assumes "all_enqueued s L qs" and "pin_ok (pin s) qs"
  shows "mlfqselect s = Inr (case find (\<lambda>l. \<not> passed_over s qs l) [0..<QSIZE] of
      None \<Rightarrow> (None, unpin QSIZE s)
    | Some l \<Rightarrow> (Some (candidate s qs l), set_pin l (Mlfq (candidate s qs l)) (unpin l s)))"
proof -
  have "unpin 0 s = s" by (simp add: unpin_def)
  then show ?thesis using mlfqselect_from_eq [OF assms, of QSIZE] by (simp add: mlfqselect_def)
qed

text \<open>
  C10. \<open>enqueue_thread\<close> keeps the threads of a process side by side: if the queue of a level is
  gathered by process identifier and holds exactly the active threads of the process, then
  after the call the queue has the new thread in addition and is still gathered, and no
  other list of the kernel has changed.
\<close>

theorem enqueue_thread_gathers:
  assumes "lists (links s) L" and "queues L qs" and "state (procs s th) = RUNNABLE"
    and "level_of th s = Inr l" and "l < QSIZE" and "fresh_node L (Mlfq th)" and "in_ring L th ts"
    and "\<And>t. t \<in> set ts \<Longrightarrow> active (procs s t) \<Longrightarrow> t \<in> set (qs l) \<and> pid (procs s t) = pid (procs s th)"
    and "\<And>x. x \<in> set (qs l) \<Longrightarrow> pid (procs s x) = pid (procs s th) \<Longrightarrow> x \<in> set ts \<and> active (procs s x)"
    and "gathered (map (\<lambda>x. pid (procs s x)) (qs l))"
  shows "\<exists>lk q. enqueue_thread th s = Inr (s\<lparr>links := lk\<rparr>) \<and> lists lk (L(Queue l \<mapsto> map Mlfq q)) \<and>
    set q = insert th (set (qs l)) \<and> gathered (map (\<lambda>x. pid (procs s x)) q)"
proof -
  let ?q = "enq (\<lambda>t. active (procs s t)) ts th (qs l)"
  obtain lk where "enqueue_thread th s = Inr (s\<lparr>links := lk\<rparr>)" "lists lk (L(Queue l \<mapsto> map Mlfq ?q))"
    by (rule enqueue_thread_eq [OF assms(1-7)]) (use assms(8) in auto)
  moreover have "set ?q = insert th (set (qs l))" using assms(8) by (intro set_enq) blast
  moreover have "gathered (map (\<lambda>x. pid (procs s x)) ?q)"
    using assms(8-10) by (intro gathered_enq) blast+
  ultimately show ?thesis by blast
qed

text \<open>
  C11. \<open>dequeue_proc\<close> removes exactly the threads of the process from the queue of its level,
  keeps the order of the others, and never leaves the pin of the level on a removed thread.
\<close>

theorem dequeue_proc_removes:
  assumes "enqueued s L qs p ts l" and "pin_ok (pin s) qs"
  shows "\<exists>n lk q. dequeue_proc p s = Inr (s\<lparr>pin := (pin s)(l := n), links := lk\<rparr>) \<and>
    q = filter (\<lambda>x. x \<notin> set (p # ts)) (qs l) \<and> lists lk (L(Queue l \<mapsto> map Mlfq q)) \<and>
    pin_ok ((pin s)(l := n)) (qs(l := q))"
proof -
  obtain n lk where "dequeue_proc p s = Inr (s\<lparr>pin := (pin s)(l := n), links := lk\<rparr>)"
    "lists lk (L(Queue l \<mapsto> map Mlfq (filter (\<lambda>x. x \<notin> set (p # ts)) (qs l))))"
    "pin_ok ((pin s)(l := n)) (qs(l := filter (\<lambda>x. x \<notin> set (p # ts)) (qs l)))"
    using assms by (rule dequeue_proc_eq)
  then show ?thesis by blast
qed

text \<open>
  C12. \<open>priority_boost\<close> moves every thread of the lower levels behind those of level 0, in the order
  of the levels, leaves the other queues empty with their pins reset, gives level 0 and a
  fresh time allotment to the moved and to the sleeping threads, and keeps every other list
  of the kernel.
\<close>

theorem priority_boost_lifts:
  assumes "lists (links s) L" and "queues L qs" and "pin_ok (pin s) qs"
    and "L Sleep_head = Some (map Sleep sl)"
    and "length (qs 1) \<le> NPROC" and "length (qs 2) \<le> NPROC" and "length sl \<le> NPROC"
  shows "\<exists>s'. priority_boost s = Inr s' \<and>
    lists (links s') (L(Queue 0 \<mapsto> map Mlfq (qs 0 @ qs 1 @ qs 2), Queue 1 \<mapsto> [], Queue 2 \<mapsto> [])) \<and>
    pin_ok (pin s') (qs(0 := qs 0 @ qs 1 @ qs 2, 1 := [], 2 := [])) \<and>
    procs s' = reset_all (set (qs 1 @ qs 2 @ sl)) (procs s) \<and> mlfq_ticks s' = 0"
proof -
  obtain lk pn where
    "priority_boost s = Inr (s\<lparr>procs := reset_all (set (qs 1 @ qs 2 @ sl)) (procs s), pin := pn, links := lk, mlfq_ticks := 0\<rparr>)"
    "lists lk (L(Queue 0 \<mapsto> map Mlfq (qs 0 @ qs 1 @ qs 2), Queue 1 \<mapsto> [], Queue 2 \<mapsto> []))"
    "pin_ok pn (qs(0 := qs 0 @ qs 1 @ qs 2, 1 := [], 2 := []))"
    using assms(1-3,5-7,4) by (rule priority_boost_eq)
  then show ?thesis by auto
qed

subsection \<open>A small table\<close>

text \<open>
  A process 1 with a second thread 2, and a process 3. Threads 1 and 3 are on the queues of
  their levels 0 and 1; thread 2 is ready and not yet enqueued.
\<close>

definition demo_links0 :: "node lstore" where
  "demo_links0 = list_head_init (Queue 0) (list_head_init (Queue 1) (list_head_init (Queue 2)
     (list_head_init Sleep_head (list_head_init (Thgroup 1) (list_head_init (Thgroup 3)
     (\<lambda>_. \<lparr>prv = None, nxt = None\<rparr>))))))"

definition demo_links1 :: "node lstore" where
  "demo_links1 = res_or demo_links0 (list_add_tail (Thgroup 2) (Thgroup 1) demo_links0)"

definition demo_links2 :: "node lstore" where
  "demo_links2 = res_or demo_links1 (list_add_tail (Mlfq 1) (Queue 0) demo_links1)"

definition demo_links :: "node lstore" where
  "demo_links = res_or demo_links2 (list_add_tail (Mlfq 3) (Queue 1) demo_links2)"

definition demo_lists :: "node \<Rightarrow> node list option" where
  "demo_lists = [Thgroup 3 \<mapsto> [], Sleep_head \<mapsto> [], Queue 2 \<mapsto> [], Thgroup 1 \<mapsto> [Thgroup 2],
     Queue 0 \<mapsto> [Mlfq 1], Queue 1 \<mapsto> [Mlfq 3]]"

definition demo_procs :: "nat \<Rightarrow> proc" where
  "demo_procs p = (if p = 1 then zero_proc\<lparr>state := RUNNABLE, pid := 1, thmain := Some 1\<rparr>
     else if p = 2 then zero_proc\<lparr>state := RUNNABLE, pid := 1, tid := 1, thmain := Some 1\<rparr>
     else if p = 3 then zero_proc\<lparr>state := RUNNABLE, pid := 2, thmain := Some 3, privlevel := 1\<rparr>
     else zero_proc)"

definition demo :: ptable where
  "demo = zero_ptable\<lparr>links := demo_links, procs := demo_procs\<rparr>"

definition demo_queues :: "nat \<Rightarrow> nat list" where
  "demo_queues = (\<lambda>_. [])(0 := [1], 1 := [3])"

lemma lists_add_tail_or:
  assumes "lists lk L" and "L h = Some xs" and "fresh_node L x"
  shows "lists (res_or d (list_add_tail x h lk)) (L(h \<mapsto> xs @ [x]))"
  by (rule lists_add_tail [OF assms]) simp

lemma fresh_node_upd [simp]:
  "fresh_node (L(h \<mapsto> xs)) x \<longleftrightarrow> x \<noteq> h \<and> x \<notin> set xs \<and> fresh_node (L(h := None)) x"
  by (fastforce simp: fresh_node_def split: if_splits)

lemma fresh_node_empty [simp]: "fresh_node Map.empty x"
  by (simp add: fresh_node_def)

lemma lists_empty: "lists lk Map.empty"
  by (simp add: lists_def)

lemma demo_lists: "lists (links demo) demo_lists"
proof -
  let ?L = "[Thgroup 3 \<mapsto> [], Thgroup 1 \<mapsto> [], Sleep_head \<mapsto> [], Queue 2 \<mapsto> [], Queue 1 \<mapsto> [], Queue 0 \<mapsto> []]"
  have "lists demo_links0 ?L"
    unfolding demo_links0_def by (intro lists_init lists_empty) (simp_all add: fun_upd_twist)
  from lists_add_tail_or [OF this, of "Thgroup 1" "[]" "Thgroup 2" demo_links0]
  have "lists demo_links1 (?L(Thgroup 1 \<mapsto> [Thgroup 2]))"
    by (simp add: demo_links1_def fun_upd_twist)
  from lists_add_tail_or [OF this, of "Queue 0" "[]" "Mlfq 1" demo_links1]
  have "lists demo_links2 (?L(Thgroup 1 \<mapsto> [Thgroup 2], Queue 0 \<mapsto> [Mlfq 1]))"
    by (simp add: demo_links2_def fun_upd_twist)
  from lists_add_tail_or [OF this, of "Queue 1" "[]" "Mlfq 3" demo_links2]
  have "lists demo_links (?L(Thgroup 1 \<mapsto> [Thgroup 2], Queue 0 \<mapsto> [Mlfq 1], Queue 1 \<mapsto> [Mlfq 3]))"
    by (simp add: demo_links_def fun_upd_twist)
  moreover have "?L(Thgroup 1 \<mapsto> [Thgroup 2], Queue 0 \<mapsto> [Mlfq 1], Queue 1 \<mapsto> [Mlfq 3]) = demo_lists"
    by (auto simp: demo_lists_def fun_eq_iff)
  ultimately show ?thesis by (simp add: demo_def)
qed


lemma demo_queues: "queues demo_lists demo_queues"
  by (auto simp: queues_def demo_queues_def demo_lists_def numeral_eq_Suc less_Suc_eq)

lemma demo_pins: "pin_ok (pin demo) demo_queues"
  by (simp add: pin_ok_def demo_def zero_ptable_def)

lemma demo_level: "level_of 1 demo = Inr 0" "level_of 2 demo = Inr 0" "level_of 3 demo = Inr 1"
  by (simp_all add: level_of_def demo_def demo_procs_def main_thread_self main_thread_step zero_proc_def)

theorem enqueue_thread_gathers_witness:
  "\<exists>lk q. enqueue_thread 2 demo = Inr (demo\<lparr>links := lk\<rparr>) \<and> lists lk (demo_lists(Queue 0 \<mapsto> map Mlfq q)) \<and>
    set q = {1, 2} \<and> gathered (map (\<lambda>x. pid (procs demo x)) q)"
proof -
  have r: "in_ring demo_lists 2 [1]"
    unfolding in_ring_def
    by (intro conjI disjI2 exI [of _ 1] exI [of _ "[]"]) (simp_all add: demo_lists_def)
  have f: "fresh_node demo_lists (Mlfq 2)" by (simp add: demo_lists_def fun_upd_twist)
  have "\<exists>lk q. enqueue_thread 2 demo = Inr (demo\<lparr>links := lk\<rparr>) \<and> lists lk (demo_lists(Queue 0 \<mapsto> map Mlfq q)) \<and>
    set q = insert 2 (set (demo_queues 0)) \<and> gathered (map (\<lambda>x. pid (procs demo x)) q)"
    by (rule enqueue_thread_gathers [OF demo_lists demo_queues _ demo_level(2) _ f r])
      (auto simp: demo_queues_def demo_def demo_procs_def active_def)
  then show ?thesis by (simp add: demo_queues_def insert_commute)
qed

theorem dequeue_proc_removes_witness:
  "\<exists>n lk q. dequeue_proc 3 demo = Inr (demo\<lparr>pin := (pin demo)(1 := n), links := lk\<rparr>) \<and>
    q = filter (\<lambda>x. x \<notin> set [3]) (demo_queues 1) \<and> lists lk (demo_lists(Queue 1 \<mapsto> map Mlfq q)) \<and>
    pin_ok ((pin demo)(1 := n)) (demo_queues(1 := q))"
proof -
  have "in_ring demo_lists 3 []" by (simp add: in_ring_def demo_lists_def)
  then have "enqueued demo demo_lists demo_queues 3 [] 1"
    using demo_lists demo_queues demo_level
    by (simp add: enqueued_def demo_queues_def) (simp add: demo_def demo_procs_def active_def)
  from dequeue_proc_removes [OF this demo_pins] show ?thesis by simp
qed

theorem priority_boost_lifts_witness:
  "\<exists>s'. priority_boost demo = Inr s' \<and> pin_ok (pin s') (demo_queues(0 := [1, 3], 1 := [], 2 := [])) \<and>
    privlevel (procs s' 3) = 0"
proof -
  have "demo_lists Sleep_head = Some (map Sleep [])" by (simp add: demo_lists_def)
  from priority_boost_lifts [OF demo_lists demo_queues demo_pins this]
  show ?thesis by (auto simp: demo_queues_def reset_all_def)
qed

text \<open>
  C13. The selection when the pinned thread of level 0 runs on another CPU and another process of
  the level is ready: the pin is moved to the ready process, yet the call returns the running
  thread, pins it again, and the calling CPU stays idle.
\<close>

theorem mlfqselect_returns_running:
  assumes "enqueued s L qs p ts 0" and "pin s 0 = Mlfq p" and "state (procs s p) = RUNNING"
    and "\<forall>t\<in>set ts. state (procs s t) \<noteq> RUNNABLE"
    and "q \<in> set (qs 0)" and "q \<notin> set (p # ts)" and "state (procs s q) = RUNNABLE"
  shows "\<exists>s'. mlfqselect s = Inr (Some p, s') \<and> pin s' 0 = Mlfq p"
proof -
  note e = enqueuedD [OF assms(1)]
  obtain t where t: "ready_or_running_thread p s = Inr (Some t)" "t \<in> set (p # ts)" "active (procs s t)"
    using assms(1) by (rule find_active)
  obtain r where r: "ready_proc t s = Inr r"
    "r = None \<longrightarrow> (\<forall>np\<in>set (qs 0). np \<notin> set (p # ts) \<longrightarrow> state (procs s np) \<noteq> RUNNABLE)"
    using assms(1) t(2,3) by (rule ready_other)
  then obtain np where np: "r = Some np" using assms(5-7) by (cases r) auto
  have "find (\<lambda>th. state (procs s th) = RUNNABLE) (ts @ [p]) = None"
    using assms(3,4) by (auto simp: find_None_iff)
  then have "pin_next_thread p False s = Inr (set_pin 0 (Mlfq np) s)"
    using e(2,5) assms(2) t(1) r(1) np
    by (simp add: pin_next_thread_def is_proc_pinned_eq [OF e(1)] ready_thread_eq [OF e(1)] pin_or_head_def)
  moreover have "dlist (links s) (Queue 0) (map Mlfq (qs 0))"
    using assms(1) e(4) by (auto simp: enqueued_def intro: listsD)
  from dlist_empty_iff [OF this] have "\<not> list_empty (Queue 0) (links s)" using assms(5) by auto
  moreover have "level_of p (set_pin 0 n s) = Inr 0" for n using e(2) by (simp add: set_pin_def)
  ultimately have "mlfqselect s = Inr (Some p, set_pin 0 (Mlfq p) (set_pin 0 (Mlfq np) s))"
    using assms(2,3) mlfqselect_from.simps(2) [of 2 s] by (simp add: mlfqselect_def Let_def)
  then show ?thesis by (simp add: set_pin_def)
qed

definition busy :: ptable where
  "busy = zero_ptable\<lparr>links := res_or demo_links2 (list_add_tail (Mlfq 3) (Queue 0) demo_links2),
     procs := (\<lambda>p. if p = 1 then zero_proc\<lparr>state := RUNNING, pid := 1, thmain := Some 1\<rparr>
       else if p = 2 then zero_proc\<lparr>state := SLEEPING, pid := 1, tid := 1, thmain := Some 1\<rparr>
       else if p = 3 then zero_proc\<lparr>state := RUNNABLE, pid := 2, thmain := Some 3\<rparr>
       else zero_proc), pin := (\<lambda>l. if l = 0 then Mlfq 1 else Queue l)\<rparr>"

definition busy_lists :: "node \<Rightarrow> node list option" where
  "busy_lists = [Thgroup 3 \<mapsto> [], Sleep_head \<mapsto> [], Queue 2 \<mapsto> [], Thgroup 1 \<mapsto> [Thgroup 2],
     Queue 0 \<mapsto> [Mlfq 1, Mlfq 3], Queue 1 \<mapsto> []]"

lemma demo_lists2:
  "lists demo_links2 [Thgroup 3 \<mapsto> [], Sleep_head \<mapsto> [], Queue 2 \<mapsto> [], Queue 1 \<mapsto> [], Thgroup 1 \<mapsto> [Thgroup 2],
     Queue 0 \<mapsto> [Mlfq 1]]"
proof -
  let ?L = "[Thgroup 3 \<mapsto> [], Thgroup 1 \<mapsto> [], Sleep_head \<mapsto> [], Queue 2 \<mapsto> [], Queue 1 \<mapsto> [], Queue 0 \<mapsto> []]"
  have "lists demo_links0 ?L"
    unfolding demo_links0_def by (intro lists_init lists_empty) (simp_all add: fun_upd_twist)
  from lists_add_tail_or [OF this, of "Thgroup 1" "[]" "Thgroup 2" demo_links0]
  have "lists demo_links1 (?L(Thgroup 1 \<mapsto> [Thgroup 2]))"
    by (simp add: demo_links1_def fun_upd_twist)
  from lists_add_tail_or [OF this, of "Queue 0" "[]" "Mlfq 1" demo_links1]
  have "lists demo_links2 (?L(Thgroup 1 \<mapsto> [Thgroup 2], Queue 0 \<mapsto> [Mlfq 1]))"
    by (simp add: demo_links2_def fun_upd_twist)
  then show ?thesis by (simp add: fun_upd_twist)
qed

lemma busy_lists: "lists (links busy) busy_lists"
proof -
  from lists_add_tail_or [OF demo_lists2, of "Queue 0" "[Mlfq 1]" "Mlfq 3" demo_links2]
  show ?thesis by (simp add: busy_def busy_lists_def fun_upd_twist)
qed

definition busy_queues :: "nat \<Rightarrow> nat list" where
  "busy_queues = (\<lambda>_. [])(0 := [1, 3])"

text \<open>The same queue with thread 1 ready, or running, and with or without a pin.\<close>

definition at_queue :: "procstate \<Rightarrow> node \<Rightarrow> ptable" where
  "at_queue st n = busy\<lparr>procs := (procs busy)(1 := (procs busy 1)\<lparr>state := st\<rparr>), pin := (pin busy)(0 := n)\<rparr>"

lemma busy_queues: "queues busy_lists busy_queues"
  by (auto simp: queues_def busy_lists_def busy_queues_def numeral_eq_Suc less_Suc_eq)

lemma at_queue_enqueued:
  assumes "st = RUNNABLE \<or> st = RUNNING"
  shows "all_enqueued (at_queue st n) busy_lists busy_queues"
proof -
  have r: "in_ring busy_lists 1 [2]" "in_ring busy_lists 3 []" by (simp_all add: in_ring_def busy_lists_def)
  have lv: "level_of 1 (at_queue st n) = Inr 0" "level_of 2 (at_queue st n) = Inr 0" "level_of 3 (at_queue st n) = Inr 0"
    by (simp_all add: level_of_def at_queue_def busy_def main_thread_self main_thread_step zero_proc_def)
  have l: "lists (links (at_queue st n)) busy_lists" using busy_lists by (simp add: at_queue_def)
  have "enqueued (at_queue st n) busy_lists busy_queues 1 [2] 0" "enqueued (at_queue st n) busy_lists busy_queues 3 [] 0"
    using l busy_queues r lv assms by (simp_all add: enqueued_def busy_queues_def) (auto simp: at_queue_def busy_def active_def)
  then show ?thesis using l busy_queues by (auto simp: all_enqueued_def) (auto simp: busy_queues_def)
qed

theorem mlfqselect_highest_witness:
  "mlfqselect (at_queue RUNNABLE (Mlfq 3)) = Inr (Some 3, at_queue RUNNABLE (Mlfq 3)) \<and>
   fst (projr (mlfqselect (at_queue RUNNING (Queue 0)))) = None \<and> state (procs (at_queue RUNNING (Queue 0)) 3) = RUNNABLE"
proof -
  have up: "[0..<QSIZE] = [0, 1, 2]" by (simp add: upt_rec)
  have p: "pin_ok (pin (at_queue st n)) busy_queues" if "n = Queue 0 \<or> n = Mlfq 3" for st n
    using that by (auto simp: pin_ok_def at_queue_def busy_def busy_queues_def)
  have st: "state (procs (at_queue st n) 1) = st" "state (procs (at_queue st n) 3) = RUNNABLE" "pin (at_queue st n) 0 = n" for st n
    by (auto simp: at_queue_def busy_def)
  have "set_pin 0 n (unpin 0 (at_queue st n)) = at_queue st n" for st n
    using st(3) [of st n] fun_upd_triv [of "pin (at_queue st n)" 0] by (simp add: set_pin_def unpin_def)
  note st = st this
  have "passed_over (at_queue RUNNING (Queue 0)) busy_queues l" for l
    using st(1) [of RUNNING "Queue 0"] by (simp add: passed_over_def candidate_def st(3) busy_queues_def)
  moreover have "\<not> passed_over (at_queue RUNNABLE (Mlfq 3)) busy_queues 0"
    by (simp add: passed_over_def candidate_def st busy_queues_def)
  ultimately show ?thesis
    using mlfqselect_highest [OF at_queue_enqueued p, of RUNNABLE "Mlfq 3"] mlfqselect_highest [OF at_queue_enqueued p, of RUNNING "Queue 0"]
    by (simp add: up st candidate_def del: upt_rec_numeral)
qed

theorem mlfqselect_returns_running_witness:
  "\<exists>s'. mlfqselect busy = Inr (Some 1, s') \<and> pin s' 0 = Mlfq 1 \<and> state (procs busy 1) = RUNNING \<and>
    state (procs busy 3) = RUNNABLE"
proof -
  let ?qs = "(\<lambda>_. [])(0 := [1, 3])"
  have q: "queues busy_lists ?qs"
    by (auto simp: queues_def busy_lists_def numeral_eq_Suc less_Suc_eq)
  have r: "in_ring busy_lists 1 [2]" by (simp add: in_ring_def busy_lists_def)
  have l: "level_of 1 busy = Inr 0" "level_of 2 busy = Inr 0" 
    by (simp_all add: level_of_def busy_def main_thread_self main_thread_step zero_proc_def)
  have "enqueued busy busy_lists ?qs 1 [2] 0"
    using busy_lists q r l by (simp add: enqueued_def) (simp add: busy_def active_def)
  from mlfqselect_returns_running [OF this, of 3] show ?thesis by (simp add: busy_def)
qed

end
