(* ===== verification/Sched.thy ===== *)
theory Sched
  imports Mlfq
begin

section \<open>The scheduler (proc.c)\<close>

text \<open>
  The rest of the scheduling half of \<open>proc.c\<close>: initialising the table, allocating a slot, CPU
  shares, the stride pass, the scheduler loop, \<open>sched\<close>, \<open>yield\<close>, \<open>sleep\<close>, \<open>wakeup\<close> and \<open>kill\<close>.
  A context switch ends a definition: \<open>sched\<close> returns where the CPU continues, and what the
  source does after the switch has returned is a definition of its own (\<open>sleep_resume\<close>,
  \<open>scheduler_after\<close>). The state is that of one CPU: \<open>cur\<close> is \<open>mycpu()->proc\<close>. The interrupt flag is not part of it (see \<open>Spinlock\<close>): \<open>sched\<close>
  has neither the panic for enabled interrupts, which cannot be reached while \<open>nheld\<close> is 1, nor the saving of \<open>intena\<close> around the switch.
\<close>

subsection \<open>Initialisation and allocation\<close>

definition pinit :: "'a ptable_scheme \<Rightarrow> 'a ptable_scheme res" where
  "pinit s =
     (let s = s\<lparr>plock := False\<rparr>;
          s = fold (\<lambda>i s. set_pin i (Queue i) (s\<lparr>links := list_head_init (Queue i) (links s)\<rparr>)) [0..<QSIZE] s;
          s = s\<lparr>links := list_head_init Run_head (links s)\<rparr>;
          s = s\<lparr>links := list_head_init Sleep_head (links s)\<rparr>;
          s = s\<lparr>links := list_head_init Free_head (links s)\<rparr>
      in rbind (rfold (\<lambda>p. on_links (list_add_tail (Free p) Free_head)) [0..<NPROC] s) (\<lambda>s.
         Inr (s\<lparr>mlfq_tickets := 100\<rparr>)))"

abbreviation TRAPFRAME :: u32 where "TRAPFRAME \<equiv> 76"
abbreviation CONTEXT :: u32 where "CONTEXT \<equiv> 20"
abbreviation CONTEXT_EIP :: u32 where "CONTEXT_EIP \<equiv> 16"
abbreviation CONTEXT_EBP :: u32 where "CONTEXT_EBP \<equiv> 12"

definition allocproc :: "'a ptable_scheme \<Rightarrow> (nat option \<times> 'a ptable_scheme) res" where
  "allocproc s =
     (if \<not> list_empty Free_head (links s)
      then rbind (rbind (deref (nxt (links s Free_head))) entry_free) (\<lambda>p.
           let s = s\<lparr>nproc := nproc s - 1\<rparr>
           in rbind (on_links (list_del (Free p)) s) (\<lambda>s.
              let s = upd p (\<lambda>q. q\<lparr>state := EMBRYO\<rparr>) s;
                  s = s\<lparr>links := list_head_init (Children p) (links s)\<rparr>
              in rbind (kalloc s) (\<lambda>(k, s).
                 let s = upd p (\<lambda>q. q\<lparr>kstack := k\<rparr>) s
                 in if k = 0
                    then let s = upd p (\<lambda>q. q\<lparr>state := UNUSED\<rparr>) s; s = s\<lparr>nproc := nproc s + 1\<rparr>
                         in rbind (on_links (list_add (Free p) Free_head) s) (\<lambda>s. Inr (None, s))
                    else let sp = k + KSTACKSIZE - TRAPFRAME;
                             s = upd p (\<lambda>q. q\<lparr>tf := sp\<rparr>) s;
                             sp = sp - 4;
                             s = store32 sp (trapret s) s;
                             sp = sp - CONTEXT;
                             s = upd p (\<lambda>q. q\<lparr>kcontext := sp\<rparr>) s;
                             s = kmemset sp 0 CONTEXT s;
                             s = store32 (sp + CONTEXT_EIP) (forkret s) s
                         in Inr (Some p, s))))
      else Inr (None, s))"

subsection \<open>CPU shares and the stride pass\<close>

definition myproc :: "'a ptable_scheme \<Rightarrow> nat res" where
  "myproc s = deref (cur s)"

definition set_cpu_share :: "int \<Rightarrow> 'a ptable_scheme \<Rightarrow> (int \<times> 'a ptable_scheme) res" where
  "set_cpu_share share s =
     (if share < 1 \<or> share > 100 - RESERVE then Inr (-1, s)
      else rbind (ptable_acquire s) (\<lambda>s.
           rbind (myproc s) (\<lambda>p.
           rbind (main_thread p s) (\<lambda>m.
           let remain = mlfq_tickets s;
               remain = (if type (procs s p) = STRIDE then remain + tickets (procs s m) else remain)
           in if remain - share \<ge> RESERVE
              then rbind (if type (procs s p) = MLFQ
                          then rbind (dequeue_proc p s) (\<lambda>s.
                               rbind (getminpass s) (\<lambda>minpass.
                               let mlfqpass = mlfq_pass s;
                                   s = upd m (\<lambda>q. q\<lparr>pass := if minpass < mlfqpass then minpass else mlfqpass\<rparr>) s
                               in rbind (threads_apply0 m routine_set_stride s) (\<lambda>(_, s).
                                  on_links (list_add (Run p) Run_head) s)))
                          else Inr s) (\<lambda>s.
                   let s = s\<lparr>mlfq_tickets := remain - share\<rparr>;
                       s = upd m (\<lambda>q. q\<lparr>tickets := share\<rparr>) s
                   in rbind (ptable_release s) (\<lambda>s. Inr (0, s)))
              else rbind (ptable_release s) (\<lambda>s. Inr (-1, s))))))"

definition sub_pass :: "int \<Rightarrow> nat \<Rightarrow> 'a ptable_scheme \<Rightarrow> 'a ptable_scheme res" where
  "sub_pass d p s =
     rbind (main_thread p s) (\<lambda>m. Inr (upd m (\<lambda>q. q\<lparr>pass := pass q - d\<rparr>) s))"

definition is_mlfq :: "nat option \<Rightarrow> 'a ptable_scheme \<Rightarrow> bool" where
  "is_mlfq p s = (case p of None \<Rightarrow> True | Some p \<Rightarrow> type (procs s p) = MLFQ)"

definition pass_overflow :: "nat option \<Rightarrow> 'a ptable_scheme \<Rightarrow> 'a ptable_scheme res" where
  "pass_overflow p s =
     rbind (if is_mlfq p s then Inr (mlfq_pass s) else rbind (deref p) (\<lambda>p. pass_of p s)) (\<lambda>minpass.
     if minpass > BARRIER
     then rbind (rfold (\<lambda>i s. rbind (heap_entry s i) (\<lambda>p. sub_pass minpass p s))
                   [1..<Suc (nat (stride_size s))] s) (\<lambda>s.
          rbind (walk (Suc NPROC) Run_head (nxt (links s Run_head)) (links s)) (\<lambda>itrs.
          rbind (rfold (\<lambda>itr s. rbind (entry_run itr) (\<lambda>p. sub_pass minpass p s)) itrs s) (\<lambda>s.
          Inr (s\<lparr>mlfq_pass := mlfq_pass s - minpass\<rparr>))))
     else Inr s)"

definition stridelogic :: "nat option \<Rightarrow> 'a ptable_scheme \<Rightarrow> 'a ptable_scheme res" where
  "stridelogic p s =
     rbind (pass_overflow p s) (\<lambda>s.
     if is_mlfq p s
     then rbind (STRD (mlfq_tickets s)) (\<lambda>d. Inr (s\<lparr>mlfq_pass := mlfq_pass s + d\<rparr>))
     else rbind (deref p) (\<lambda>p.
          rbind (main_thread p s) (\<lambda>m.
          rbind (STRD (tickets (procs s m))) (\<lambda>d.
          let s = upd m (\<lambda>q. q\<lparr>pass := pass q + d\<rparr>) s
          in rbind (ready_thread p s) (\<lambda>nx.
             case nx of
               Some nx \<Rightarrow> pushheap nx s
             | None \<Rightarrow> rbind (sleeping_thread p s) (\<lambda>nx.
                 case nx of Some nx \<Rightarrow> pushheap nx s | None \<Rightarrow> Inr s))))))"

subsection \<open>The scheduler loop\<close>

definition switchuvm :: "nat \<Rightarrow> 'a ptable_scheme \<Rightarrow> 'a ptable_scheme res" where
  "switchuvm p s =
     (if kstack (procs s p) = 0 then Inl (Panic ''switchuvm: no kstack'')
      else if pgdir (procs s p) = 0 then Inl (Panic ''switchuvm: no pgdir'')
      else Inr (s\<lparr>esp0 := kstack (procs s p) + KSTACKSIZE, cr3 := V2P (pgdir (procs s p))\<rparr>))"

definition vswitchuvm :: "nat \<Rightarrow> 'a ptable_scheme \<Rightarrow> 'a ptable_scheme" where
  "vswitchuvm p s = s\<lparr>esp0 := kstack (procs s p) + KSTACKSIZE\<rparr>"

definition invalidate_tlb :: "nat \<Rightarrow> 'a ptable_scheme \<Rightarrow> 'a ptable_scheme" where
  "invalidate_tlb p s = s\<lparr>cr3 := V2P (pgdir (procs s p))\<rparr>"

text \<open>
  One round of \<open>scheduler\<close>, up to the switch: the process chosen, and whether it is run.
\<close>

definition scheduler_select :: "'a ptable_scheme \<Rightarrow> (nat option \<times> 'a ptable_scheme) res" where
  "scheduler_select s = rbind (getminpass s) (\<lambda>m. if m < mlfq_pass s then popheap s else mlfqselect s)"

definition scheduler_run :: "'a ptable_scheme \<Rightarrow> (nat option \<times> bool \<times> 'a ptable_scheme) res" where
  "scheduler_run s =
     rbind (ptable_acquire s) (\<lambda>s.
     rbind (scheduler_select s) (\<lambda>(p, s).
     case p of
       None \<Rightarrow> Inr (None, False, s)
     | Some p \<Rightarrow>
         if state (procs s p) = RUNNABLE
         then rbind (if type (procs s p) = STRIDE then on_links (list_add (Run p) Run_head) s else Inr s) (\<lambda>s.
              rbind (switchuvm p (s\<lparr>cur := Some p\<rparr>)) (\<lambda>s.
              Inr (Some p, True, upd p (\<lambda>q. q\<lparr>state := RUNNING\<rparr>) s)))
         else Inr (Some p, False, s)))"

text \<open>The rest of the round, after the chosen process has switched back if it was run.\<close>

definition scheduler_after :: "nat option \<Rightarrow> bool \<Rightarrow> 'a ptable_scheme \<Rightarrow> 'a ptable_scheme res" where
  "scheduler_after p rn s =
     rbind (if rn
            then rbind (deref p) (\<lambda>p.
                 let s = switchkvm s
                 in if type (procs s p) = MLFQ then rbind (deref (cur s)) (\<lambda>c. mlfqlogic c s)
                    else on_links (list_del (Run p)) s)
            else Inr s) (\<lambda>s.
     rbind (if mlfq_ticks s \<ge> BOOSTINTERVAL then priority_boost s else Inr s) (\<lambda>s.
     rbind (case p of
              None \<Rightarrow> stridelogic None s
            | Some q \<Rightarrow> if state (procs s q) = SLEEPING then stridelogic p s else stridelogic (cur s) s) (\<lambda>s.
     ptable_release (s\<lparr>cur := None\<rparr>))))"

subsection \<open>Giving up the CPU\<close>

text \<open>Where the CPU continues after \<open>sched\<close>.\<close>

datatype switch = To_scheduler | To_thread nat | Stay

text \<open>
  A call that may sleep either returns, or it has put the caller to sleep; \<open>'k\<close> is what the
  caller needs to continue when it is woken.
\<close>

datatype ('r, 'k, 's) outcome = Returns 'r 's | Sleeps 'k switch 's

definition sched :: "'a ptable_scheme \<Rightarrow> (switch \<times> 'a ptable_scheme) res" where
  "sched s =
     rbind (myproc s) (\<lambda>p.
     rbind (main_thread p s) (\<lambda>m.
     rbind (ready_thread p s) (\<lambda>nx.
     if \<not> plock s then Inl (Panic ''sched ptable.lock'')
     else if nheld s \<noteq> 1 then Inl (Panic ''sched locks'')
     else if state (procs s p) = RUNNING then Inl (Panic ''sched running'')
     else case nx of
            None \<Rightarrow> Inr (To_scheduler, s)
          | Some nx \<Rightarrow>
              if ticks (procs s m) mod DTQ = 0 then Inr (To_scheduler, s)
              else if p \<noteq> nx
              then Inr (To_thread nx, upd nx (\<lambda>q. q\<lparr>state := RUNNING\<rparr>) ((vswitchuvm nx s)\<lparr>cur := Some nx\<rparr>))
              else Inr (Stay, upd p (\<lambda>q. q\<lparr>state := RUNNING\<rparr>) s))))"

definition yield :: "'a ptable_scheme \<Rightarrow> (switch \<times> 'a ptable_scheme) res" where
  "yield s =
     rbind (ptable_acquire s) (\<lambda>s.
     rbind (myproc s) (\<lambda>p.
     rbind (main_thread p s) (\<lambda>m.
     let s = upd m (\<lambda>q. q\<lparr>ticks := ticks q + 1\<rparr>) s;
         s = (if type (procs s m) = MLFQ then s\<lparr>mlfq_ticks := mlfq_ticks s + 1\<rparr> else s);
         s = upd p (\<lambda>q. q\<lparr>state := RUNNABLE\<rparr>) s
     in sched s)))"

definition yield_resume :: "'a ptable_scheme \<Rightarrow> 'a ptable_scheme res" where
  "yield_resume s = ptable_release s"

text \<open>
  \<open>sleep\<close>: \<open>lk\<close> is \<open>None\<close> for the table lock, otherwise the release of the caller's lock. A caller cannot leave the lock out, so that the
  panic for that is not a case.
\<close>

definition sleep :: "chan \<Rightarrow> ('a ptable_scheme \<Rightarrow> 'a ptable_scheme res) option \<Rightarrow>
    'a ptable_scheme \<Rightarrow> (switch \<times> 'a ptable_scheme) res" where
  "sleep ch lk s =
     (case cur s of
        None \<Rightarrow> Inl (Panic ''sleep'')
      | Some p \<Rightarrow>
          rbind (case lk of None \<Rightarrow> Inr s | Some rel \<Rightarrow> rbind (ptable_acquire s) rel) (\<lambda>s.
          let s = upd p (\<lambda>q. q\<lparr>chan := Some ch\<rparr>) s
          in rbind (if type (procs s p) = MLFQ then dequeue_thread p s else Inr s) (\<lambda>s.
             let s = upd p (\<lambda>q. q\<lparr>state := SLEEPING\<rparr>) s
             in rbind (on_links (list_add (Sleep p) Sleep_head) s) sched)))"

definition sleep_resume :: "('a ptable_scheme \<Rightarrow> 'a ptable_scheme res) option \<Rightarrow>
    'a ptable_scheme \<Rightarrow> 'a ptable_scheme res" where
  "sleep_resume lk s =
     rbind (myproc s) (\<lambda>p.
     let s = upd p (\<lambda>q. q\<lparr>chan := None\<rparr>) s
     in case lk of None \<Rightarrow> Inr s | Some acq \<Rightarrow> rbind (ptable_release s) acq)"

fun wakeup1_loop :: "nat \<Rightarrow> chan option \<Rightarrow> node option \<Rightarrow> 'a ptable_scheme \<Rightarrow> 'a ptable_scheme res" where
  "wakeup1_loop 0 ch itr s = Inl Diverges"
| "wakeup1_loop (Suc fuel) ch itr s =
     rbind (deref itr) (\<lambda>i.
     if i = Sleep_head then Inr s
     else rbind (entry_sleep i) (\<lambda>p.
          let itr = nxt (links s i)
          in if chan (procs s p) = ch
             then rbind (on_links (list_del (Sleep p)) s) (\<lambda>s.
                  let s = upd p (\<lambda>q. q\<lparr>state := RUNNABLE\<rparr>) s
                  in rbind (if type (procs s p) = MLFQ then enqueue_thread p s else Inr s)
                       (wakeup1_loop fuel ch itr))
             else wakeup1_loop fuel ch itr s))"

definition wakeup1 :: "chan option \<Rightarrow> 'a ptable_scheme \<Rightarrow> 'a ptable_scheme res" where
  "wakeup1 ch s = wakeup1_loop (Suc NPROC) ch (nxt (links s Sleep_head)) s"

definition wakeup :: "chan option \<Rightarrow> 'a ptable_scheme \<Rightarrow> 'a ptable_scheme res" where
  "wakeup ch s = rbind (ptable_acquire s) (\<lambda>s. rbind (wakeup1 ch s) ptable_release)"

fun kill_loop :: "nat list \<Rightarrow> int \<Rightarrow> 'a ptable_scheme \<Rightarrow> (int \<times> 'a ptable_scheme) res" where
  "kill_loop [] pd s = rbind (ptable_release s) (\<lambda>s. Inr (-1, s))"
| "kill_loop (p # ps) pd s =
     (if pid (procs s p) = pd
      then rbind (terminate_proc p s) (\<lambda>s.
           rbind (if state (procs s p) = SLEEPING
                  then rbind (on_links (list_del (Sleep p)) s) (\<lambda>s.
                       let s = upd p (\<lambda>q. q\<lparr>state := RUNNABLE\<rparr>) s
                       in if type (procs s p) = MLFQ then enqueue_thread p s else Inr s)
                  else Inr s) (\<lambda>s.
           rbind (ptable_release s) (\<lambda>s. Inr (0, s))))
      else kill_loop ps pd s)"

definition kill :: "int \<Rightarrow> 'a ptable_scheme \<Rightarrow> (int \<times> 'a ptable_scheme) res" where
  "kill pd s = rbind (ptable_acquire s) (kill_loop [0..<NPROC] pd)"

end
