(* ===== verification/Sleeplock.thy ===== *)
theory Sleeplock
  imports Sched
begin

section \<open>Sleep locks (sleeplock.c)\<close>

text \<open>
  A sleep lock is a flag with the identity of its holder, protected by a spinlock. The spinlock
  counts in \<open>nheld\<close>, which is what \<open>sched\<close> checks: a thread that sleeps on a lock while it
  holds another spinlock panics. \<open>acquiresleep\<close> either takes the lock or puts the caller to
  sleep on the address \<open>ch\<close> of the lock; the woken caller runs the loop of the source again,
  that is, \<open>acquiresleep\<close> once more.

  Code that runs on behalf of one thread while nothing else holds the lock only needs the
  effect on the lock itself: \<open>take_sleeplock\<close>, \<open>drop_sleeplock\<close> and \<open>held_by_me\<close>, which
  \<open>acquiresleep_free\<close> and the following lemmas relate to the full operations. The buffer cache and the
  inode layer are built on these; \<open>Blocks\<close> is the case in which the thread would sleep.
\<close>

record sleeplock =
  locked :: bool
  lpid :: int
  ltid :: int

definition initsleeplock :: sleeplock where
  "initsleeplock = \<lparr>locked = False, lpid = 0, ltid = 0\<rparr>"

text \<open>The inner spinlock.\<close>

definition spin_enter :: "'a ptable_scheme \<Rightarrow> 'a ptable_scheme" where
  "spin_enter s = s\<lparr>nheld := nheld s + 1\<rparr>"

definition spin_leave :: "'a ptable_scheme \<Rightarrow> 'a ptable_scheme" where
  "spin_leave s = s\<lparr>nheld := nheld s - 1\<rparr>"

definition acquiresleep :: "chan \<Rightarrow> sleeplock \<Rightarrow> 'a ptable_scheme \<Rightarrow>
    (sleeplock, unit, 'a ptable_scheme) outcome res" where
  "acquiresleep ch lk s =
     (let s = spin_enter s
      in if locked lk
         then rbind (sleep ch (Some (\<lambda>s. Inr (spin_leave s))) s) (\<lambda>(sw, s). Inr (Sleeps () sw s))
         else rbind (myproc s) (\<lambda>p.
              Inr (Returns \<lparr>locked = True, lpid = pid (procs s p), ltid = tid (procs s p)\<rparr> (spin_leave s))))"

text \<open>What follows the wakeup, up to the test of the loop.\<close>

definition acquiresleep_resume :: "'a ptable_scheme \<Rightarrow> 'a ptable_scheme res" where
  "acquiresleep_resume s = rbind (sleep_resume (Some (\<lambda>s. Inr (spin_enter s))) s) (\<lambda>s. Inr (spin_leave s))"

definition releasesleep :: "chan \<Rightarrow> sleeplock \<Rightarrow> 'a ptable_scheme \<Rightarrow> (sleeplock \<times> 'a ptable_scheme) res" where
  "releasesleep ch lk s =
     (let s = spin_enter s; lk = lk\<lparr>locked := False, lpid := 0\<rparr>
      in rbind (wakeup (Some ch) s) (\<lambda>s. Inr (lk, spin_leave s)))"

definition holdingsleep :: "sleeplock \<Rightarrow> 'a ptable_scheme \<Rightarrow> bool res" where
  "holdingsleep lk s =
     rbind (myproc s) (\<lambda>p.
     Inr (locked lk \<and> lpid lk = pid (procs s p) \<and> ltid lk = tid (procs s p)))"

subsection \<open>The effect on the lock\<close>

definition take_sleeplock :: "int \<times> int \<Rightarrow> sleeplock \<Rightarrow> sleeplock res" where
  "take_sleeplock me lk =
     (if locked lk then Inl Blocks else Inr \<lparr>locked = True, lpid = fst me, ltid = snd me\<rparr>)"

definition drop_sleeplock :: "sleeplock \<Rightarrow> sleeplock" where
  "drop_sleeplock lk = lk\<lparr>locked := False, lpid := 0\<rparr>"

definition held_by_me :: "int \<times> int \<Rightarrow> sleeplock \<Rightarrow> bool" where
  "held_by_me me lk = (locked lk \<and> lpid lk = fst me \<and> ltid lk = snd me)"

definition whoami :: "'a ptable_scheme \<Rightarrow> (int \<times> int) res" where
  "whoami s = rbind (myproc s) (\<lambda>p. Inr (pid (procs s p), tid (procs s p)))"

lemma spin_leave_enter [simp]: "spin_leave (spin_enter s) = s"
  by (simp add: spin_leave_def spin_enter_def)

lemma acquiresleep_free:
  assumes "whoami s = Inr me" and "take_sleeplock me lk = Inr lk'"
  shows "acquiresleep ch lk s = Inr (Returns lk' s)"
  using assms
  by (auto simp: acquiresleep_def whoami_def take_sleeplock_def myproc_def spin_enter_def spin_leave_def
      res_simps split: if_splits)

lemma holdingsleep_me: "whoami s = Inr me \<Longrightarrow> holdingsleep lk s = Inr (held_by_me me lk)"
  by (auto simp: holdingsleep_def whoami_def held_by_me_def res_simps)

lemma releasesleep_lock: "releasesleep ch lk s = Inr (lk', s') \<Longrightarrow> lk' = drop_sleeplock lk"
  by (auto simp: releasesleep_def drop_sleeplock_def Let_def res_simps)

lemma take_then_held: "take_sleeplock me lk = Inr lk' \<Longrightarrow> held_by_me me lk'"
  by (auto simp: take_sleeplock_def held_by_me_def split: if_splits)

end
