(* ===== verification/Bytes.thy ===== *)
theory Bytes
  imports Kernel_Prelude
begin

section \<open>Integers in byte arrays\<close>

text \<open>
  Disk blocks and on-disk structures are byte arrays, modelled as lists. This theory has the
  little-endian encoding of 16-bit and 32-bit integers the x86 uses, the copying of a slice
  (\<open>put_bytes\<close> is \<open>memmove\<close> into the array at an offset, \<open>get_bytes\<close> out of it) and the laws
  that reading after writing obeys.
\<close>

named_theorems bytes_simps \<open>lengths of and reads after writes to byte arrays\<close>

definition get_bytes :: "nat \<Rightarrow> nat \<Rightarrow> u8 list \<Rightarrow> u8 list" where
  "get_bytes off n xs = take n (drop off xs)"

definition put_bytes :: "nat \<Rightarrow> u8 list \<Rightarrow> u8 list \<Rightarrow> u8 list" where
  "put_bytes off ys xs = take off xs @ ys @ drop (off + length ys) xs"

definition bytes16 :: "u16 \<Rightarrow> u8 list" where
  "bytes16 w = [ucast w, ucast (drop_bit 8 w)]"

definition bytes32 :: "u32 \<Rightarrow> u8 list" where
  "bytes32 w = [ucast w, ucast (drop_bit 8 w), ucast (drop_bit 16 w), ucast (drop_bit 24 w)]"

definition le16 :: "u8 list \<Rightarrow> u16" where
  "le16 bs = ucast (bs ! 0) OR push_bit 8 (ucast (bs ! 1))"

definition le32 :: "u8 list \<Rightarrow> u32" where
  "le32 bs = ucast (bs ! 0) OR push_bit 8 (ucast (bs ! 1))
     OR push_bit 16 (ucast (bs ! 2)) OR push_bit 24 (ucast (bs ! 3))"

text \<open>An array of 32-bit integers over the bytes.\<close>

definition get32 :: "nat \<Rightarrow> u8 list \<Rightarrow> u32" where
  "get32 i xs = le32 (get_bytes (4 * i) 4 xs)"

definition put32 :: "nat \<Rightarrow> u32 \<Rightarrow> u8 list \<Rightarrow> u8 list" where
  "put32 i v xs = put_bytes (4 * i) (bytes32 v) xs"

text \<open>A list as a zero-terminated C string.\<close>

definition cview :: "u8 list \<Rightarrow> nat \<Rightarrow> u8" where
  "cview xs i = (if i < length xs then xs ! i else 0)"

subsection \<open>Laws\<close>

lemma length_bytes16 [simp]: "length (bytes16 w) = 2"
  by (simp add: bytes16_def)

lemma length_bytes32 [simp]: "length (bytes32 w) = 4"
  by (simp add: bytes32_def)

lemma le16_bytes16 [simp]: "le16 (bytes16 w @ r) = w"
  by (rule bit_word_eqI) (auto simp: le16_def bytes16_def bit_simps)

lemma le32_bytes32 [simp]: "le32 (bytes32 w @ r) = w"
proof (rule bit_word_eqI)
  fix n assume "n < LENGTH(32)"
  then show "bit (le32 (bytes32 w @ r)) n = bit w n"
    by (cases "n < 8"; cases "n < 16"; cases "n < 24") (auto simp: le32_def bytes32_def bit_simps)
qed

lemma le32_bytes32_only [simp]: "le32 (bytes32 w) = w"
  using le32_bytes32 [of w "[]"] by simp

lemma le16_bytes16_only [simp]: "le16 (bytes16 w) = w"
  using le16_bytes16 [of w "[]"] by simp

lemma length_put_bytes [bytes_simps]:
  "off + length ys \<le> length xs \<Longrightarrow> length (put_bytes off ys xs) = length xs"
  by (simp add: put_bytes_def)

lemma length_get_bytes [bytes_simps]: "off + n \<le> length xs \<Longrightarrow> length (get_bytes off n xs) = n"
  by (simp add: get_bytes_def)

lemma get_put_same [bytes_simps]:
  "off \<le> length xs \<Longrightarrow> get_bytes off (length ys) (put_bytes off ys xs) = ys"
  by (simp add: get_bytes_def put_bytes_def)

lemma get_put_before:
  "off + length ys \<le> length xs \<Longrightarrow> o' + n \<le> off \<Longrightarrow> get_bytes o' n (put_bytes off ys xs) = get_bytes o' n xs"
  by (intro nth_equalityI) (simp_all add: get_bytes_def put_bytes_def nth_append)

lemma get_put_after:
  "off + length ys \<le> length xs \<Longrightarrow> off + length ys \<le> o' \<Longrightarrow> get_bytes o' n (put_bytes off ys xs) = get_bytes o' n xs"
  by (simp add: get_bytes_def put_bytes_def)

lemma put_bytes_put_bytes [bytes_simps]:
  "length ys = length zs \<Longrightarrow> off \<le> length xs \<Longrightarrow> put_bytes off zs (put_bytes off ys xs) = put_bytes off zs xs"
  by (simp add: put_bytes_def)

lemma put_get_same: "off + n \<le> length xs \<Longrightarrow> put_bytes off (get_bytes off n xs) xs = xs"
  by (simp add: put_bytes_def get_bytes_def add.commute flip: drop_drop)

lemma length_put32 [bytes_simps]: "4 * i + 4 \<le> length xs \<Longrightarrow> length (put32 i v xs) = length xs"
  by (simp add: put32_def bytes_simps)

lemma get32_put32 [bytes_simps]: "4 * i + 4 \<le> length xs \<Longrightarrow> get32 i (put32 i v xs) = v"
  using get_put_same [of "4 * i" xs "bytes32 v"] by (simp add: get32_def put32_def)

lemma get32_put32_other [bytes_simps]:
  assumes "4 * i + 4 \<le> length xs" and "j \<noteq> i"
  shows "get32 j (put32 i v xs) = get32 j xs"
proof (cases "j < i")
  case True
  then show ?thesis using assms get_put_before [of "4 * i" "bytes32 v" xs "4 * j" 4]
    by (simp add: get32_def put32_def)
next
  case False
  then show ?thesis using assms get_put_after [of "4 * i" "bytes32 v" xs "4 * j" 4]
    by (simp add: get32_def put32_def)
qed

lemma le32_zeros: "le32 [0, 0, 0, 0] = 0"
  by (simp add: le32_def)

lemma get32_zeros: "4 * i + 4 \<le> n \<Longrightarrow> get32 i (replicate n 0) = 0"
  by (simp add: get32_def get_bytes_def le32_def)

text \<open>A write of a whole slice, byte by byte.\<close>

lemma nth_put_bytes:
  "off + length ys \<le> length xs \<Longrightarrow> k < length xs \<Longrightarrow>
   put_bytes off ys xs ! k = (if off \<le> k \<and> k < off + length ys then ys ! (k - off) else xs ! k)"
  by (auto simp: put_bytes_def nth_append min_def)

lemma nth_get_bytes: "off + n \<le> length xs \<Longrightarrow> k < n \<Longrightarrow> get_bytes off n xs ! k = xs ! (off + k)"
  by (simp add: get_bytes_def)

end
