(* ===== verification/Block_Layer.thy ===== *)
theory Block_Layer
  imports Sleeplock Bytes
begin

section \<open>Disk blocks as the file system sees them\<close>

text \<open>
  The contract of the buffer cache and the log that the file system (\<open>fs.c\<close>) is written against. The
  contents of a block are \<open>bview\<close>: what \<open>bread\<close> returns, wherever it comes from. \<open>bheld\<close> are the
  blocks whose buffers the running thread has locked, \<open>logged\<close> the block numbers in the header of
  the current transaction, and \<open>durable\<close> the contents a reboot would find. It
  is a model of its own: \<open>Bio_Cache\<close> and \<open>Log_Commit\<close> prove of the detailed models \<open>Bio\<close> and \<open>Log\<close> what a block holds after reads and
  writes and after a commit, but no theorem relates the operations below to theirs one by one; that they panic and sleep in the same cases
  is by comparison with \<open>bio.c\<close> and \<open>log.c\<close>.

  \<open>blk_read\<close> is \<open>bread\<close>: it sleeps for ever when the caller itself has the buffer locked, panics
  when all \<open>NBUF\<close> buffers are locked or pinned by the transaction, and panics in the driver
  for a block outside of the disk. \<open>blk_log\<close> is a change to the data of a locked buffer with
  the \<open>log_write\<close> that follows it in every place of \<open>fs.c\<close>; \<open>blk_release\<close> is \<open>brelse\<close>.
  \<open>op_begin\<close> and \<open>op_end\<close> are \<open>begin_op\<close> and \<open>end_op\<close>.
\<close>

abbreviation BSIZE :: nat where "BSIZE \<equiv> 512"
abbreviation NBUF :: nat where "NBUF \<equiv> 30"
abbreviation LOGSIZE :: int where "LOGSIZE \<equiv> 30"
abbreviation MAXOPBLOCKS :: int where "MAXOPBLOCKS \<equiv> 10"
abbreviation FSSIZE :: nat where "FSSIZE \<equiv> 40000"
abbreviation ROOTDEV :: u32 where "ROOTDEV \<equiv> 1"

type_synonym bkey = "u32 \<times> u32"

record blocks = ptable +
  bview :: "bkey \<Rightarrow> u8 list"
  bheld :: "bkey list"
  logged :: "u32 list"
  logsize :: int
  outstanding :: int
  durable :: "bkey \<Rightarrow> u8 list"

definition pinned :: "'a blocks_scheme \<Rightarrow> bkey list" where
  "pinned s = remdups (bheld s @ map (Pair ROOTDEV) (logged s))"

definition blk_read :: "bkey \<Rightarrow> 'a blocks_scheme \<Rightarrow> 'a blocks_scheme res" where
  "blk_read k s =
     (if k \<in> set (bheld s) then Inl Blocks
      else if k \<notin> set (pinned s) \<and> length (pinned s) \<ge> NBUF then Inl (Panic ''bget: no buffers'')
      else if unat (snd k) \<ge> FSSIZE then Inl (Panic ''incorrect blockno'')
      else Inr (s\<lparr>bheld := k # bheld s\<rparr>))"

definition blk_release :: "bkey \<Rightarrow> 'a blocks_scheme \<Rightarrow> 'a blocks_scheme res" where
  "blk_release k s =
     (if k \<notin> set (bheld s) then Inl (Panic ''brelse'')
      else wakeup (Some (Chan_block k)) (s\<lparr>bheld := remove1 k (bheld s)\<rparr>))"

definition blk_log :: "bkey \<Rightarrow> (u8 list \<Rightarrow> u8 list) \<Rightarrow> 'a blocks_scheme \<Rightarrow> 'a blocks_scheme res" where
  "blk_log k f s =
     (if int (length (logged s)) \<ge> LOGSIZE \<or> int (length (logged s)) \<ge> logsize s - 1
      then Inl (Panic ''too big a transaction'')
      else if outstanding s < 1 then Inl (Panic ''log_write outside of trans'')
      else Inr (s\<lparr>bview := (bview s)(k := f (bview s k)),
                  logged := (if snd k \<in> set (logged s) then logged s else logged s @ [snd k])\<rparr>))"

definition op_begin :: "'a blocks_scheme \<Rightarrow> 'a blocks_scheme res" where
  "op_begin s =
     (if int (length (logged s)) + (outstanding s + 1) * MAXOPBLOCKS > LOGSIZE then Inl Blocks
      else Inr (s\<lparr>outstanding := outstanding s + 1\<rparr>))"

definition op_end :: "'a blocks_scheme \<Rightarrow> 'a blocks_scheme res" where
  "op_end s =
     (let s = s\<lparr>outstanding := outstanding s - 1\<rparr>
      in if outstanding s = 0
         then wakeup (Some Chan_log) (s\<lparr>logged := [], durable := bview s\<rparr>)
         else wakeup (Some Chan_log) s)"

text \<open>Nobody sleeps: then a wakeup changes nothing.\<close>

definition quiet :: "'a ptable_scheme \<Rightarrow> bool" where
  "quiet s = (\<not> plock s \<and> dlist (links s) Sleep_head [])"

lemma wakeup_quiet: "quiet s \<Longrightarrow> wakeup ch s = Inr s"
  using wakeup1_loop.simps(2) [of NPROC ch "nxt (links s Sleep_head)" "s\<lparr>plock := True, nheld := nheld s + 1\<rparr>"]
  by (auto simp: wakeup_def wakeup1_def quiet_def ptable_acquire_def ptable_release_def dlist_def)

text \<open>A machine in which process 1 runs, nothing sleeps and every block is zero.\<close>

definition still_links :: "node lstore" where
  "still_links = list_head_init Sleep_head (\<lambda>_. \<lparr>prv = None, nxt = None\<rparr>)"

definition zero_blocks :: blocks where
  "zero_blocks = ptable.extend (zero_ptable\<lparr>links := still_links, cur := Some 1\<rparr>)
     (blocks.fields (\<lambda>_. replicate BSIZE 0) [] [] 30 0 (\<lambda>_. replicate BSIZE 0))"

end
