(* ===== verification/Bio.thy ===== *)
theory Bio
  imports Block_Layer
begin

section \<open>The buffer cache (bio.c, ide.c)\<close>

text \<open>
  The cache of \<open>NBUF\<close> buffers with its list in order of use. A buffer is named by its index; the
  links \<open>prev\<close>/\<open>next\<close> are a store of list nodes as in \<open>List_Head\<close>, and the two bits of \<open>flags\<close> are \<open>bvalid\<close> and
  \<open>bdirty\<close>. \<open>bme\<close> is the thread that runs, as in \<open>whoami\<close>.

  Sleeping and waking are left out, because the state is that of one thread: waiting for a buffer that another thread has locked is \<open>Inl Blocks\<close>,
  and \<open>brelse\<close> frees the lock without the wakeup of \<open>releasesleep\<close>, which \<open>Sleeplock\<close> models.

  \<open>iderw\<close> is the driver's contract: it checks its arguments and returns when the transfer is done, which
  for a read has filled the buffer from the disk and for a write has put it there. Every
  write that reaches the disk is recorded in \<open>bwrites\<close>, in order; a crash loses a suffix of them.
\<close>

record buf =
  bvalid :: bool
  bdirty :: bool
  bdev :: u32
  blockno :: u32
  block :: sleeplock
  refcnt :: u32
  bdata :: "u8 list"

datatype bnode = Bhead | Buf nat

record bio =
  bufs :: "nat \<Rightarrow> buf"
  lru :: "bnode lstore"
  disk :: "bkey \<Rightarrow> u8 list"
  bwrites :: "(bkey \<times> u8 list) list"
  bme :: "int \<times> int"
  havedisk1 :: bool

definition bupd :: "nat \<Rightarrow> (buf \<Rightarrow> buf) \<Rightarrow> 'a bio_scheme \<Rightarrow> 'a bio_scheme" where
  "bupd b f s = s\<lparr>bufs := (bufs s)(b := f (bufs s b))\<rparr>"

definition buf_key :: "buf \<Rightarrow> bkey" where
  "buf_key b = (bdev b, blockno b)"

fun entry_buf :: "bnode \<Rightarrow> nat res" where
  "entry_buf (Buf b) = Inr b"
| "entry_buf Bhead = Inl Wild_pointer"

text \<open>
  Inserting \<open>b\<close> at the front of the list, in the order of the assignments of \<open>binit\<close> and \<open>brelse\<close>.
\<close>

definition lru_front :: "nat \<Rightarrow> bnode lstore \<Rightarrow> bnode lstore res" where
  "lru_front b lk =
     (let lk = set_nxt (Buf b) (nxt (lk Bhead)) lk;
          lk = set_prv (Buf b) (Some Bhead) lk
      in rbind (deref (nxt (lk Bhead))) (\<lambda>f.
         Inr (set_nxt Bhead (Some (Buf b)) (set_prv f (Some (Buf b)) lk))))"

definition lru_unlink :: "nat \<Rightarrow> bnode lstore \<Rightarrow> bnode lstore res" where
  "lru_unlink b lk =
     rbind (deref (nxt (lk (Buf b)))) (\<lambda>n.
     let lk = set_prv n (prv (lk (Buf b))) lk
     in rbind (deref (prv (lk (Buf b)))) (\<lambda>p. Inr (set_nxt p (nxt (lk (Buf b))) lk)))"

definition on_lru :: "(bnode lstore \<Rightarrow> bnode lstore res) \<Rightarrow> 'a bio_scheme \<Rightarrow> 'a bio_scheme res" where
  "on_lru f s = rbind (f (lru s)) (\<lambda>lk. Inr (s\<lparr>lru := lk\<rparr>))"

definition binit :: "'a bio_scheme \<Rightarrow> 'a bio_scheme res" where
  "binit s =
     (let s = s\<lparr>lru := set_prv Bhead (Some Bhead) (lru s)\<rparr>;
          s = s\<lparr>lru := set_nxt Bhead (Some Bhead) (lru s)\<rparr>
      in rfold (\<lambda>b s. on_lru (lru_front b) (bupd b (\<lambda>q. q\<lparr>block := initsleeplock\<rparr>) s)) [0..<NBUF] s)"

subsection \<open>Finding a buffer\<close>

fun bget_scan :: "nat \<Rightarrow> bkey \<Rightarrow> bnode option \<Rightarrow> 'a bio_scheme \<Rightarrow> nat option res" where
  "bget_scan 0 k itr s = Inl Diverges"
| "bget_scan (Suc fuel) k itr s =
     rbind (deref itr) (\<lambda>n.
     if n = Bhead then Inr None
     else rbind (entry_buf n) (\<lambda>b.
          if buf_key (bufs s b) = k then Inr (Some b) else bget_scan fuel k (nxt (lru s n)) s))"

fun bget_recycle :: "nat \<Rightarrow> bnode option \<Rightarrow> 'a bio_scheme \<Rightarrow> nat option res" where
  "bget_recycle 0 itr s = Inl Diverges"
| "bget_recycle (Suc fuel) itr s =
     rbind (deref itr) (\<lambda>n.
     if n = Bhead then Inr None
     else rbind (entry_buf n) (\<lambda>b.
          if refcnt (bufs s b) = 0 \<and> \<not> bdirty (bufs s b) then Inr (Some b)
          else bget_recycle fuel (prv (lru s n)) s))"

definition lock_buf :: "nat \<Rightarrow> 'a bio_scheme \<Rightarrow> (nat \<times> 'a bio_scheme) res" where
  "lock_buf b s =
     rbind (take_sleeplock (bme s) (block (bufs s b))) (\<lambda>lk. Inr (b, bupd b (\<lambda>q. q\<lparr>block := lk\<rparr>) s))"

definition bget :: "u32 \<Rightarrow> u32 \<Rightarrow> 'a bio_scheme \<Rightarrow> (nat \<times> 'a bio_scheme) res" where
  "bget dev bno s =
     rbind (bget_scan (Suc NBUF) (dev, bno) (nxt (lru s Bhead)) s) (\<lambda>found.
     case found of
       Some b \<Rightarrow> lock_buf b (bupd b (\<lambda>q. q\<lparr>refcnt := refcnt q + 1\<rparr>) s)
     | None \<Rightarrow>
         rbind (bget_recycle (Suc NBUF) (prv (lru s Bhead)) s) (\<lambda>free.
         case free of
           Some b \<Rightarrow> lock_buf b (bupd b (\<lambda>q. q\<lparr>bdev := dev, blockno := bno, bvalid := False, bdirty := False, refcnt := 1\<rparr>) s)
         | None \<Rightarrow> Inl (Panic ''bget: no buffers'')))"

subsection \<open>Reading, writing and releasing\<close>

definition iderw :: "nat \<Rightarrow> 'a bio_scheme \<Rightarrow> 'a bio_scheme res" where
  "iderw b s =
     (let q = bufs s b
      in if \<not> held_by_me (bme s) (block q) then Inl (Panic ''iderw: buf not locked'')
         else if bvalid q \<and> \<not> bdirty q then Inl (Panic ''iderw: nothing to do'')
         else if bdev q \<noteq> 0 \<and> \<not> havedisk1 s then Inl (Panic ''iderw: ide disk 1 not present'')
         else if unat (blockno q) \<ge> FSSIZE then Inl (Panic ''incorrect blockno'')
         else if bdirty q
         then Inr (bupd b (\<lambda>q. q\<lparr>bvalid := True, bdirty := False\<rparr>)
                (s\<lparr>disk := (disk s)(buf_key q := bdata q), bwrites := bwrites s @ [(buf_key q, bdata q)]\<rparr>))
         else Inr (bupd b (\<lambda>q. q\<lparr>bdata := disk s (buf_key q), bvalid := True, bdirty := False\<rparr>) s))"

definition bread :: "u32 \<Rightarrow> u32 \<Rightarrow> 'a bio_scheme \<Rightarrow> (nat \<times> 'a bio_scheme) res" where
  "bread dev bno s =
     rbind (bget dev bno s) (\<lambda>(b, s).
     if \<not> bvalid (bufs s b) then rbind (iderw b s) (\<lambda>s. Inr (b, s)) else Inr (b, s))"

definition bwrite :: "nat \<Rightarrow> 'a bio_scheme \<Rightarrow> 'a bio_scheme res" where
  "bwrite b s =
     (if \<not> held_by_me (bme s) (block (bufs s b)) then Inl (Panic ''bwrite'')
      else iderw b (bupd b (\<lambda>q. q\<lparr>bdirty := True\<rparr>) s))"

definition brelse :: "nat \<Rightarrow> 'a bio_scheme \<Rightarrow> 'a bio_scheme res" where
  "brelse b s =
     (if \<not> held_by_me (bme s) (block (bufs s b)) then Inl (Panic ''brelse'')
      else let s = bupd b (\<lambda>q. q\<lparr>block := drop_sleeplock (block q), refcnt := refcnt q - 1\<rparr>) s
           in if refcnt (bufs s b) = 0
              then rbind (on_lru (lru_unlink b) s) (on_lru (lru_front b))
              else Inr s)"

end
