(* ===== verification/Fs.thy ===== *)
theory Fs
  imports Block_Layer Cstring
begin

section \<open>The file system (fs.c, fs.h)\<close>

text \<open>
  All of \<open>fs.c\<close>, on the blocks of \<open>Block_Layer\<close>: the block allocator on the free bitmap, inodes on
  disk and in the inode cache, the mapping of file blocks through direct, single-, double- and
  triple-indirect blocks, reading and writing, directories and path names. A pointer to a
  cached inode is its index in the cache, so that the tests of \<open>ilock\<close> and \<open>iunlock\<close> for a null
  pointer have no case. \<open>readi\<close> returns the bytes that the source copies to
  the caller's buffer, \<open>writei\<close> takes the bytes the caller's buffer holds; device files are
  read and written through the entries of the device switch, which are a parameter
  (\<open>dev_read\<close>, \<open>dev_write\<close>). Path names and file names are zero-terminated strings
  (\<open>cview\<close>).

  The code runs on behalf of one thread; where it would sleep on a sleep lock that is already held
  the result is \<open>Blocks\<close>. The spin lock of the inode cache is taken and released around single
  accesses and has no other effect.
\<close>

subsection \<open>On-disk structures\<close>

abbreviation ROOTINO :: u32 where "ROOTINO \<equiv> 1"
abbreviation NDIRECT :: nat where "NDIRECT \<equiv> 10"
abbreviation NINDIRECT :: nat where "NINDIRECT \<equiv> 128"
abbreviation NINODE :: nat where "NINODE \<equiv> 50"
abbreviation NDEV :: nat where "NDEV \<equiv> 10"
abbreviation IPB :: nat where "IPB \<equiv> 8"
abbreviation BPB :: nat where "BPB \<equiv> 4096"
abbreviation DIRSIZ :: nat where "DIRSIZ \<equiv> 14"
abbreviation DIRENT :: nat where "DIRENT \<equiv> 16"
abbreviation DINODE :: nat where "DINODE \<equiv> 64"
abbreviation T_DIR :: u16 where "T_DIR \<equiv> 1"
abbreviation T_FILE :: u16 where "T_FILE \<equiv> 2"
abbreviation T_DEV :: u16 where "T_DEV \<equiv> 3"
abbreviation SLASH :: u8 where "SLASH \<equiv> 47"

definition MAXFILE :: nat where
  "MAXFILE = min (NDIRECT + NINDIRECT + NINDIRECT ^ 2 + NINDIRECT ^ 3) (FSSIZE * 9 div 10)"

record superblock =
  sbsize :: u32
  nblocks :: u32
  ninodes :: u32
  nlog :: u32
  logstart :: u32
  inodestart :: u32
  bmapstart :: u32

definition superblock_of :: "u8 list \<Rightarrow> superblock" where
  "superblock_of d = \<lparr>sbsize = get32 0 d, nblocks = get32 1 d, ninodes = get32 2 d, nlog = get32 3 d,
     logstart = get32 4 d, inodestart = get32 5 d, bmapstart = get32 6 d\<rparr>"

definition IBLOCK :: "u32 \<Rightarrow> superblock \<Rightarrow> u32" where
  "IBLOCK i sb = i div of_nat IPB + inodestart sb"

definition BBLOCK :: "u32 \<Rightarrow> superblock \<Rightarrow> u32" where
  "BBLOCK b sb = b div of_nat BPB + bmapstart sb"

record dinode =
  dtype :: u16
  dmajor :: u16
  dminor :: u16
  dnlink :: u16
  dsize :: u32
  daddrs :: "u32 list"

definition dinode_of :: "u8 list \<Rightarrow> dinode" where
  "dinode_of d = \<lparr>dtype = le16 (get_bytes 0 2 d), dmajor = le16 (get_bytes 2 2 d),
     dminor = le16 (get_bytes 4 2 d), dnlink = le16 (get_bytes 6 2 d), dsize = get32 2 d,
     daddrs = map (\<lambda>i. get32 (3 + i) d) [0..<NDIRECT + 3]\<rparr>"

definition dinode_bytes :: "dinode \<Rightarrow> u8 list" where
  "dinode_bytes d = bytes16 (dtype d) @ bytes16 (dmajor d) @ bytes16 (dminor d) @ bytes16 (dnlink d) @
     bytes32 (dsize d) @ concat (map bytes32 (daddrs d))"

definition dirent_inum :: "u8 list \<Rightarrow> u16" where
  "dirent_inum d = le16 (get_bytes 0 2 d)"

definition dirent_name :: "u8 list \<Rightarrow> u8 list" where
  "dirent_name d = get_bytes 2 DIRSIZ d"

definition dirent_bytes :: "u16 \<Rightarrow> u8 list \<Rightarrow> u8 list" where
  "dirent_bytes inum name = bytes16 inum @ name"

subsection \<open>The inode cache\<close>

record inode =
  idev :: u32
  inum :: u32
  iref :: int
  ilk :: sleeplock
  ivalid :: bool
  itype :: u16
  imajor :: u16
  iminor :: u16
  inlink :: u16
  isize :: u32
  iaddrs :: "u32 list"

record fsys = blocks +
  sb :: superblock
  icache :: "nat \<Rightarrow> inode"
  dev_read :: "nat \<Rightarrow> (u32 \<Rightarrow> int \<times> u8 list) option"
  dev_write :: "nat \<Rightarrow> (u8 list \<Rightarrow> int) option"

definition iupd :: "nat \<Rightarrow> (inode \<Rightarrow> inode) \<Rightarrow> 'a fsys_scheme \<Rightarrow> 'a fsys_scheme" where
  "iupd ip f s = s\<lparr>icache := (icache s)(ip := f (icache s ip))\<rparr>"

subsection \<open>Blocks\<close>

definition readsb :: "u32 \<Rightarrow> 'a fsys_scheme \<Rightarrow> (superblock \<times> 'a fsys_scheme) res" where
  "readsb dev s =
     rbind (blk_read (dev, 1) s) (\<lambda>s.
     let r = superblock_of (bview s (dev, 1))
     in rbind (blk_release (dev, 1) s) (\<lambda>s. Inr (r, s)))"

definition bzero :: "u32 \<Rightarrow> u32 \<Rightarrow> 'a fsys_scheme \<Rightarrow> 'a fsys_scheme res" where
  "bzero dev bno s =
     rbind (blk_read (dev, bno) s) (\<lambda>s.
     rbind (blk_log (dev, bno) (\<lambda>_. replicate BSIZE 0) s) (blk_release (dev, bno)))"

definition bmap_bit :: "u8 list \<Rightarrow> nat \<Rightarrow> bool" where
  "bmap_bit d bi = (d ! (bi div 8) AND push_bit (bi mod 8) 1 \<noteq> 0)"

definition bit_set :: "nat \<Rightarrow> u8 list \<Rightarrow> u8 list" where
  "bit_set bi d = d[bi div 8 := d ! (bi div 8) OR push_bit (bi mod 8) 1]"

definition bit_clear :: "nat \<Rightarrow> u8 list \<Rightarrow> u8 list" where
  "bit_clear bi d = d[bi div 8 := d ! (bi div 8) AND NOT (push_bit (bi mod 8) 1)]"

text \<open>The scan of one bitmap block for the first free bit.\<close>

definition free_bit :: "u8 list \<Rightarrow> nat \<Rightarrow> nat \<Rightarrow> nat option" where
  "free_bit d b n = find (\<lambda>bi. \<not> bmap_bit d bi) (takeWhile (\<lambda>bi. b + bi < n) [0..<BPB])"

fun balloc_loop :: "nat list \<Rightarrow> u32 \<Rightarrow> 'a fsys_scheme \<Rightarrow> (u32 \<times> 'a fsys_scheme) res" where
  "balloc_loop [] dev s = Inl (Panic ''balloc: out of blocks'')"
| "balloc_loop (b # bs) dev s =
     (let k = (dev, BBLOCK (of_nat b) (sb s))
      in rbind (blk_read k s) (\<lambda>s.
         case free_bit (bview s k) b (unat (sbsize (sb s))) of
           Some bi \<Rightarrow>
             rbind (blk_log k (bit_set bi) s) (\<lambda>s.
             rbind (blk_release k s) (\<lambda>s.
             rbind (bzero dev (of_nat (b + bi)) s) (\<lambda>s. Inr (of_nat (b + bi), s))))
         | None \<Rightarrow> rbind (blk_release k s) (balloc_loop bs dev)))"

definition balloc :: "u32 \<Rightarrow> 'a fsys_scheme \<Rightarrow> (u32 \<times> 'a fsys_scheme) res" where
  "balloc dev s =
     balloc_loop (map (\<lambda>i. i * BPB) [0..<(unat (sbsize (sb s)) + BPB - 1) div BPB]) dev s"

definition bfree :: "u32 \<Rightarrow> u32 \<Rightarrow> 'a fsys_scheme \<Rightarrow> 'a fsys_scheme res" where
  "bfree dev b s =
     (let k = (dev, BBLOCK b (sb s)); bi = unat b mod BPB
      in rbind (blk_read k s) (\<lambda>s.
         if \<not> bmap_bit (bview s k) bi then Inl (Panic ''freeing free block'')
         else rbind (blk_log k (bit_clear bi) s)
                (blk_release k)))"

subsection \<open>Inodes\<close>

definition iinit :: "u32 \<Rightarrow> 'a fsys_scheme \<Rightarrow> 'a fsys_scheme res" where
  "iinit dev s =
     (let s = s\<lparr>icache := (\<lambda>i. if i < NINODE then (icache s i)\<lparr>ilk := initsleeplock\<rparr> else icache s i)\<rparr>
      in rbind (readsb dev s) (\<lambda>(r, s). Inr (s\<lparr>sb := r\<rparr>)))"

text \<open>The slice of a block that holds an inode.\<close>

definition dinode_off :: "u32 \<Rightarrow> nat" where
  "dinode_off i = (unat i mod IPB) * DINODE"

definition get_dinode :: "u32 \<Rightarrow> u8 list \<Rightarrow> dinode" where
  "get_dinode i d = dinode_of (get_bytes (dinode_off i) DINODE d)"

definition put_dinode :: "u32 \<Rightarrow> dinode \<Rightarrow> u8 list \<Rightarrow> u8 list" where
  "put_dinode i di d = put_bytes (dinode_off i) (dinode_bytes di) d"

text \<open>The entries \<open>iget\<close> passes over: the first one that holds the inode, else the first empty one.\<close>

definition iget_hit :: "u32 \<Rightarrow> u32 \<Rightarrow> 'a fsys_scheme \<Rightarrow> nat option" where
  "iget_hit dev i s =
     find (\<lambda>ip. iref (icache s ip) > 0 \<and> idev (icache s ip) = dev \<and> inum (icache s ip) = i) [0..<NINODE]"

definition iget :: "u32 \<Rightarrow> u32 \<Rightarrow> 'a fsys_scheme \<Rightarrow> (nat \<times> 'a fsys_scheme) res" where
  "iget dev i s =
     (case iget_hit dev i s of
        Some ip \<Rightarrow> Inr (ip, iupd ip (\<lambda>e. e\<lparr>iref := iref e + 1\<rparr>) s)
      | None \<Rightarrow>
          (case find (\<lambda>ip. iref (icache s ip) = 0) [0..<NINODE] of
             None \<Rightarrow> Inl (Panic ''iget: no inodes'')
           | Some ip \<Rightarrow> Inr (ip, iupd ip (\<lambda>e. e\<lparr>idev := dev, inum := i, iref := 1, ivalid := False\<rparr>) s)))"

fun ialloc_loop :: "nat list \<Rightarrow> u32 \<Rightarrow> u16 \<Rightarrow> 'a fsys_scheme \<Rightarrow> (nat \<times> 'a fsys_scheme) res" where
  "ialloc_loop [] dev ty s = Inl (Panic ''ialloc: no inodes'')"
| "ialloc_loop (i # is) dev ty s =
     (let k = (dev, IBLOCK (of_nat i) (sb s))
      in rbind (blk_read k s) (\<lambda>s.
         if dtype (get_dinode (of_nat i) (bview s k)) = 0
         then rbind (blk_log k (put_dinode (of_nat i)
                       \<lparr>dtype = ty, dmajor = 0, dminor = 0, dnlink = 0, dsize = 0,
                        daddrs = replicate (NDIRECT + 3) 0\<rparr>) s) (\<lambda>s.
              rbind (blk_release k s) (iget dev (of_nat i)))
         else rbind (blk_release k s) (ialloc_loop is dev ty)))"

definition ialloc :: "u32 \<Rightarrow> u16 \<Rightarrow> 'a fsys_scheme \<Rightarrow> (nat \<times> 'a fsys_scheme) res" where
  "ialloc dev ty s = ialloc_loop [1..<unat (ninodes (sb s))] dev ty s"

definition idinode :: "inode \<Rightarrow> dinode" where
  "idinode e = \<lparr>dtype = itype e, dmajor = imajor e, dminor = iminor e, dnlink = inlink e,
     dsize = isize e, daddrs = iaddrs e\<rparr>"

definition iupdate :: "nat \<Rightarrow> 'a fsys_scheme \<Rightarrow> 'a fsys_scheme res" where
  "iupdate ip s =
     (let e = icache s ip; k = (idev e, IBLOCK (inum e) (sb s))
      in rbind (blk_read k s) (\<lambda>s.
         rbind (blk_log k (put_dinode (inum e) (idinode e)) s) (blk_release k)))"

definition idup :: "nat option \<Rightarrow> 'a fsys_scheme \<Rightarrow> (nat \<times> 'a fsys_scheme) res" where
  "idup ip s = rbind (deref ip) (\<lambda>ip. Inr (ip, iupd ip (\<lambda>e. e\<lparr>iref := iref e + 1\<rparr>) s))"

definition acquire_inode :: "nat \<Rightarrow> 'a fsys_scheme \<Rightarrow> 'a fsys_scheme res" where
  "acquire_inode ip s =
     rbind (whoami s) (\<lambda>me.
     rbind (take_sleeplock me (ilk (icache s ip))) (\<lambda>lk. Inr (iupd ip (\<lambda>e. e\<lparr>ilk := lk\<rparr>) s)))"

definition release_inode :: "nat \<Rightarrow> 'a fsys_scheme \<Rightarrow> 'a fsys_scheme res" where
  "release_inode ip s =
     rbind (releasesleep (Chan_inode ip) (ilk (icache s ip)) s) (\<lambda>(lk, s).
     Inr (iupd ip (\<lambda>e. e\<lparr>ilk := lk\<rparr>) s))"

definition ilock :: "nat \<Rightarrow> 'a fsys_scheme \<Rightarrow> 'a fsys_scheme res" where
  "ilock ip s =
     (if iref (icache s ip) < 1 then Inl (Panic ''ilock'')
      else rbind (acquire_inode ip s) (\<lambda>s.
           if \<not> ivalid (icache s ip)
           then let e = icache s ip; k = (idev e, IBLOCK (inum e) (sb s))
                in rbind (blk_read k s) (\<lambda>s.
                   let d = get_dinode (inum e) (bview s k);
                       s = iupd ip (\<lambda>e. e\<lparr>itype := dtype d, imajor := dmajor d, iminor := dminor d,
                                     inlink := dnlink d, isize := dsize d, iaddrs := daddrs d\<rparr>) s
                   in rbind (blk_release k s) (\<lambda>s.
                      let s = iupd ip (\<lambda>e. e\<lparr>ivalid := True\<rparr>) s
                      in if itype (icache s ip) = 0 then Inl (Panic ''ilock: no type'') else Inr s))
           else Inr s))"

definition iunlock :: "nat \<Rightarrow> 'a fsys_scheme \<Rightarrow> 'a fsys_scheme res" where
  "iunlock ip s =
     rbind (holdingsleep (ilk (icache s ip)) s) (\<lambda>h.
     if \<not> h \<or> iref (icache s ip) < 1 then Inl (Panic ''iunlock'') else release_inode ip s)"

subsection \<open>Inode content\<close>

text \<open>
  The block of code \<open>bmap\<close> repeats: read the indirect block \<open>addr\<close>, allocate its entry \<open>i\<close> if it is
  zero, and return the entry.
\<close>

definition bmap_entry :: "u32 \<Rightarrow> u32 \<Rightarrow> nat \<Rightarrow> 'a fsys_scheme \<Rightarrow> (u32 \<times> 'a fsys_scheme) res" where
  "bmap_entry dev addr i s =
     (let k = (dev, addr)
      in rbind (blk_read k s) (\<lambda>s.
         rbind (let e = get32 i (bview s k)
                in if e = 0
                   then rbind (balloc dev s) (\<lambda>(a, s). rbind (blk_log k (put32 i a) s) (\<lambda>s. Inr (a, s)))
                   else Inr (e, s)) (\<lambda>(a, s).
         rbind (blk_release k s) (\<lambda>s. Inr (a, s)))))"

definition bmap_addr :: "nat \<Rightarrow> nat \<Rightarrow> 'a fsys_scheme \<Rightarrow> (u32 \<times> 'a fsys_scheme) res" where
  "bmap_addr ip i s =
     (let a = iaddrs (icache s ip) ! i
      in if a = 0
         then rbind (balloc (idev (icache s ip)) s) (\<lambda>(a, s).
              Inr (a, iupd ip (\<lambda>e. e\<lparr>iaddrs := (iaddrs e)[i := a]\<rparr>) s))
         else Inr (a, s))"

definition bmap :: "nat \<Rightarrow> nat \<Rightarrow> 'a fsys_scheme \<Rightarrow> (u32 \<times> 'a fsys_scheme) res" where
  "bmap ip bn s =
     (let dev = idev (icache s ip)
      in if bn < NDIRECT then bmap_addr ip bn s
         else let bn = bn - NDIRECT
         in if bn < NINDIRECT
         then rbind (bmap_addr ip NDIRECT s) (\<lambda>(a, s). bmap_entry dev a bn s)
         else let bn = bn - NINDIRECT
         in if bn < NINDIRECT * NINDIRECT
         then rbind (bmap_addr ip (NDIRECT + 1) s) (\<lambda>(a, s).
              rbind (bmap_entry dev a (bn div NINDIRECT) s) (\<lambda>(a, s).
              bmap_entry dev a (bn mod NINDIRECT) s))
         else let bn = bn - NINDIRECT * NINDIRECT
         in if bn < NINDIRECT * NINDIRECT * NINDIRECT
         then rbind (bmap_addr ip (NDIRECT + 2) s) (\<lambda>(a, s).
              rbind (bmap_entry dev a (bn div (NINDIRECT * NINDIRECT)) s) (\<lambda>(a, s).
              let bn = bn mod (NINDIRECT * NINDIRECT)
              in rbind (bmap_entry dev a (bn div NINDIRECT) s) (\<lambda>(a, s).
                 bmap_entry dev a (bn mod NINDIRECT) s)))
         else Inl (Panic ''bmap: out of range''))"

text \<open>
  Freeing an indirect block of depth \<open>d\<close>: depth 0 is a data block; the nested loops of
  \<open>itrunc\<close> read the block, free what its non-zero entries point to, release it and free it.
\<close>

primrec free_tree :: "nat \<Rightarrow> u32 \<Rightarrow> u32 \<Rightarrow> 'a fsys_scheme \<Rightarrow> 'a fsys_scheme res" where
  "free_tree 0 dev a s = bfree dev a s"
| "free_tree (Suc d) dev a s =
     rbind (blk_read (dev, a) s) (\<lambda>s.
     rbind (rfold (\<lambda>i s. let e = get32 i (bview s (dev, a))
                         in if e \<noteq> 0 then free_tree d dev e s else Inr s) [0..<NINDIRECT] s) (\<lambda>s.
     rbind (blk_release (dev, a) s) (bfree dev a)))"

definition itrunc_addr :: "nat \<Rightarrow> nat \<Rightarrow> nat \<Rightarrow> 'a fsys_scheme \<Rightarrow> 'a fsys_scheme res" where
  "itrunc_addr ip d i s =
     (let a = iaddrs (icache s ip) ! i
      in if a \<noteq> 0
         then rbind (free_tree d (idev (icache s ip)) a s) (\<lambda>s.
              Inr (iupd ip (\<lambda>e. e\<lparr>iaddrs := (iaddrs e)[i := 0]\<rparr>) s))
         else Inr s)"

definition itrunc :: "nat \<Rightarrow> 'a fsys_scheme \<Rightarrow> 'a fsys_scheme res" where
  "itrunc ip s =
     rbind (rfold (itrunc_addr ip 0) [0..<NDIRECT] s) (\<lambda>s.
     rbind (itrunc_addr ip 1 NDIRECT s) (\<lambda>s.
     rbind (itrunc_addr ip 2 (NDIRECT + 1) s) (\<lambda>s.
     rbind (itrunc_addr ip 3 (NDIRECT + 2) s) (\<lambda>s.
     iupdate ip (iupd ip (\<lambda>e. e\<lparr>isize := 0\<rparr>) s)))))"

definition iput :: "nat \<Rightarrow> 'a fsys_scheme \<Rightarrow> 'a fsys_scheme res" where
  "iput ip s =
     rbind (acquire_inode ip s) (\<lambda>s.
     rbind (if ivalid (icache s ip) \<and> inlink (icache s ip) = 0 \<and> iref (icache s ip) = 1
            then rbind (itrunc ip s) (\<lambda>s.
                 rbind (iupdate ip (iupd ip (\<lambda>e. e\<lparr>itype := 0\<rparr>) s)) (\<lambda>s.
                 Inr (iupd ip (\<lambda>e. e\<lparr>ivalid := False\<rparr>) s)))
            else Inr s) (\<lambda>s.
     rbind (release_inode ip s) (\<lambda>s.
     Inr (iupd ip (\<lambda>e. e\<lparr>iref := iref e - 1\<rparr>) s))))"

definition iunlockput :: "nat \<Rightarrow> 'a fsys_scheme \<Rightarrow> 'a fsys_scheme res" where
  "iunlockput ip s = rbind (iunlock ip s) (iput ip)"

record stat =
  st_type :: u16
  st_dev :: u32
  st_ino :: u32
  st_nlink :: u16
  st_size :: u32

definition stati :: "nat \<Rightarrow> 'a fsys_scheme \<Rightarrow> stat" where
  "stati ip s = (let e = icache s ip in \<lparr>st_type = itype e, st_dev = idev e, st_ino = inum e,
     st_nlink = inlink e, st_size = isize e\<rparr>)"

text \<open>The bytes of a block that one round of the copying loops of \<open>readi\<close> and \<open>writei\<close> moves.\<close>

definition chunk :: "u32 \<Rightarrow> u32 \<Rightarrow> u32" where
  "chunk left off = min left (512 - off mod 512)"

fun readi_loop :: "nat \<Rightarrow> nat \<Rightarrow> u32 \<Rightarrow> u32 \<Rightarrow> 'a fsys_scheme \<Rightarrow> (u8 list \<times> 'a fsys_scheme) res" where
  "readi_loop 0 ip off left s = Inl Diverges"
| "readi_loop (Suc fuel) ip off left s =
     (if left > 0
      then rbind (bmap ip (unat (off div 512)) s) (\<lambda>(a, s).
           let k = (idev (icache s ip), a)
           in rbind (blk_read k s) (\<lambda>s.
              let m = chunk left off; d = get_bytes (unat (off mod 512)) (unat m) (bview s k)
              in rbind (blk_release k s) (\<lambda>s.
                 rbind (readi_loop fuel ip (off + m) (left - m) s) (\<lambda>(ds, s). Inr (d @ ds, s)))))
      else Inr ([], s))"

definition readi :: "nat \<Rightarrow> u32 \<Rightarrow> u32 \<Rightarrow> 'a fsys_scheme \<Rightarrow> (int \<times> u8 list \<times> 'a fsys_scheme) res" where
  "readi ip off n s =
     (let e = icache s ip
      in if itype e = T_DEV
         then if sint (imajor e) < 0 \<or> sint (imajor e) \<ge> int NDEV then Inr (-1, [], s)
              else (case dev_read s (unat (imajor e)) of
                      None \<Rightarrow> Inr (-1, [], s)
                    | Some rd \<Rightarrow> let (r, d) = rd n in Inr (r, d, s))
         else if off > isize e \<or> off + n < off then Inr (-1, [], s)
         else let n = (if off + n > isize e then isize e - off else n)
              in rbind (readi_loop (Suc (unat n)) ip off n s) (\<lambda>(d, s). Inr (uint n, d, s)))"

fun writei_loop :: "nat \<Rightarrow> nat \<Rightarrow> u32 \<Rightarrow> u8 list \<Rightarrow> u32 \<Rightarrow> 'a fsys_scheme \<Rightarrow> (u32 \<times> 'a fsys_scheme) res" where
  "writei_loop 0 ip off src left s = Inl Diverges"
| "writei_loop (Suc fuel) ip off src left s =
     (if left > 0
      then rbind (bmap ip (unat (off div 512)) s) (\<lambda>(a, s).
           let k = (idev (icache s ip), a)
           in rbind (blk_read k s) (\<lambda>s.
              let m = chunk left off
              in rbind (blk_log k (put_bytes (unat (off mod 512)) (take (unat m) src)) s) (\<lambda>s.
                 rbind (blk_release k s)
                   (writei_loop fuel ip (off + m) (drop (unat m) src) (left - m)))))
      else Inr (off, s))"

definition writei :: "nat \<Rightarrow> u8 list \<Rightarrow> u32 \<Rightarrow> u32 \<Rightarrow> 'a fsys_scheme \<Rightarrow> (int \<times> 'a fsys_scheme) res" where
  "writei ip src off n s =
     (let e = icache s ip
      in if itype e = T_DEV
         then if sint (imajor e) < 0 \<or> sint (imajor e) \<ge> int NDEV then Inr (-1, s)
              else (case dev_write s (unat (imajor e)) of
                      None \<Rightarrow> Inr (-1, s)
                    | Some wr \<Rightarrow> Inr (wr (take (unat n) src), s))
         else if off > isize e \<or> off + n < off then Inr (-1, s)
         else if unat (off + n) > MAXFILE * BSIZE then Inr (-1, s)
         else rbind (writei_loop (Suc (unat n)) ip off src n s) (\<lambda>(off, s).
              rbind (if n > 0 \<and> off > isize (icache s ip)
                     then iupdate ip (iupd ip (\<lambda>e. e\<lparr>isize := off\<rparr>) s)
                     else Inr s) (\<lambda>s.
              Inr (uint n, s))))"

subsection \<open>Directories\<close>

definition namecmp :: "u8 list \<Rightarrow> u8 list \<Rightarrow> int" where
  "namecmp p q = strncmp (cview p) (cview q) DIRSIZ"

definition read_dirent :: "string \<Rightarrow> nat \<Rightarrow> u32 \<Rightarrow> 'a fsys_scheme \<Rightarrow> (u8 list \<times> 'a fsys_scheme) res" where
  "read_dirent msg dp off s =
     rbind (readi dp off (of_nat DIRENT) s) (\<lambda>(r, d, s).
     if r \<noteq> int DIRENT then Inl (Panic msg) else Inr (d, s))"

fun dirlookup_loop :: "nat \<Rightarrow> nat \<Rightarrow> u8 list \<Rightarrow> u32 \<Rightarrow> 'a fsys_scheme \<Rightarrow> ((nat \<times> u32) option \<times> 'a fsys_scheme) res" where
  "dirlookup_loop 0 dp name off s = Inl Diverges"
| "dirlookup_loop (Suc fuel) dp name off s =
     (if off < isize (icache s dp)
      then rbind (read_dirent ''dirlookup read'' dp off s) (\<lambda>(de, s).
           if dirent_inum de \<noteq> 0 \<and> namecmp name (dirent_name de) = 0
           then rbind (iget (idev (icache s dp)) (ucast (dirent_inum de)) s) (\<lambda>(ip, s). Inr (Some (ip, off), s))
           else dirlookup_loop fuel dp name (off + of_nat DIRENT) s)
      else Inr (None, s))"

abbreviation DIRFUEL :: nat where "DIRFUEL \<equiv> 268435457"

definition dirlookup :: "nat \<Rightarrow> u8 list \<Rightarrow> 'a fsys_scheme \<Rightarrow> ((nat \<times> u32) option \<times> 'a fsys_scheme) res" where
  "dirlookup dp name s =
     (if itype (icache s dp) \<noteq> T_DIR then Inl (Panic ''dirlookup not DIR'')
      else dirlookup_loop DIRFUEL dp name 0 s)"

fun dirlink_loop :: "nat \<Rightarrow> nat \<Rightarrow> u32 \<Rightarrow> 'a fsys_scheme \<Rightarrow> (u32 \<times> 'a fsys_scheme) res" where
  "dirlink_loop 0 dp off s = Inl Diverges"
| "dirlink_loop (Suc fuel) dp off s =
     (if off < isize (icache s dp)
      then rbind (read_dirent ''dirlink read'' dp off s) (\<lambda>(de, s).
           if dirent_inum de = 0 then Inr (off, s) else dirlink_loop fuel dp (off + of_nat DIRENT) s)
      else Inr (off, s))"

definition dirlink :: "nat \<Rightarrow> u8 list \<Rightarrow> u32 \<Rightarrow> 'a fsys_scheme \<Rightarrow> (int \<times> 'a fsys_scheme) res" where
  "dirlink dp name i s =
     rbind (dirlookup dp name s) (\<lambda>(found, s).
     case found of
       Some (ip, _) \<Rightarrow> rbind (iput ip s) (\<lambda>s. Inr (-1, s))
     | None \<Rightarrow>
         rbind (dirlink_loop DIRFUEL dp 0 s) (\<lambda>(off, s).
         rbind (strncpy (replicate DIRSIZ 0) (cview name) (int DIRSIZ)) (\<lambda>nm.
         rbind (writei dp (dirent_bytes (ucast i) nm) off (of_nat DIRENT) s) (\<lambda>(r, s).
         if r \<noteq> int DIRENT then Inl (Panic ''dirlink'') else Inr (0, s)))))"

subsection \<open>Paths\<close>

text \<open>
  \<open>skipelem\<close> on the bytes of a path without the final zero: the rest of the path and the element,
  stored over the old contents of the name array.
\<close>

definition skipelem :: "u8 list \<Rightarrow> u8 list \<Rightarrow> (u8 list \<times> u8 list) option" where
  "skipelem path name =
     (let path = dropWhile (\<lambda>c. c = SLASH) path
      in if path = [] then None
         else let s = takeWhile (\<lambda>c. c \<noteq> SLASH) path;
                  name = (if length s \<ge> DIRSIZ then put_bytes 0 (take DIRSIZ s) name
                          else put_bytes 0 (s @ [0]) name);
                  path = dropWhile (\<lambda>c. c = SLASH) (dropWhile (\<lambda>c. c \<noteq> SLASH) path)
              in Some (path, name))"

fun namex_loop :: "nat \<Rightarrow> u8 list \<Rightarrow> bool \<Rightarrow> u8 list \<Rightarrow> nat \<Rightarrow> 'a fsys_scheme \<Rightarrow>
    (nat option \<times> u8 list \<times> 'a fsys_scheme) res" where
  "namex_loop 0 path nameiparent name ip s = Inl Diverges"
| "namex_loop (Suc fuel) path nameiparent name ip s =
     (case skipelem path name of
        Some (path, name) \<Rightarrow>
          rbind (ilock ip s) (\<lambda>s.
          if itype (icache s ip) \<noteq> T_DIR
          then rbind (iunlockput ip s) (\<lambda>s. Inr (None, name, s))
          else if nameiparent \<and> path = []
          then rbind (iunlock ip s) (\<lambda>s. Inr (Some ip, name, s))
          else rbind (dirlookup ip name s) (\<lambda>(nx, s).
               case nx of
                 None \<Rightarrow> rbind (iunlockput ip s) (\<lambda>s. Inr (None, name, s))
               | Some (nx, _) \<Rightarrow> rbind (iunlockput ip s) (namex_loop fuel path nameiparent name nx)))
      | None \<Rightarrow>
          if nameiparent then rbind (iput ip s) (\<lambda>s. Inr (None, name, s))
          else Inr (Some ip, name, s))"

definition namex :: "u8 list \<Rightarrow> bool \<Rightarrow> u8 list \<Rightarrow> 'a fsys_scheme \<Rightarrow>
    (nat option \<times> u8 list \<times> 'a fsys_scheme) res" where
  "namex path nameiparent name s =
     rbind (if cview path 0 = SLASH then iget ROOTDEV ROOTINO s
            else rbind (myproc s) (\<lambda>p. idup (cwd (procs s p)) s)) (\<lambda>(ip, s).
     namex_loop (Suc (length path)) path nameiparent name ip s)"

definition namei :: "u8 list \<Rightarrow> 'a fsys_scheme \<Rightarrow> (nat option \<times> 'a fsys_scheme) res" where
  "namei path s = rbind (namex path False (replicate DIRSIZ 0) s) (\<lambda>(ip, _, s). Inr (ip, s))"

definition nameiparent :: "u8 list \<Rightarrow> 'a fsys_scheme \<Rightarrow> (nat option \<times> u8 list \<times> 'a fsys_scheme) res" where
  "nameiparent path s = namex path True (replicate DIRSIZ 0) s"

subsection \<open>An empty file system\<close>

definition zero_inode :: inode where
  "zero_inode = \<lparr>idev = 0, inum = 0, iref = 0, ilk = initsleeplock, ivalid = False, itype = 0, imajor = 0,
     iminor = 0, inlink = 0, isize = 0, iaddrs = replicate 13 0\<rparr>"

definition zero_fsys :: fsys where
  "zero_fsys = blocks.extend zero_blocks
     (fsys.fields \<lparr>sbsize = 0, nblocks = 0, ninodes = 0, nlog = 0, logstart = 0, inodestart = 0, bmapstart = 0\<rparr>
       (\<lambda>_. zero_inode) (\<lambda>_. None) (\<lambda>_. None))"

end
