(* ===== verification/Log.thy ===== *)
theory Log
  imports Bio Fs
begin

section \<open>The log (log.c)\<close>

text \<open>
  The write-ahead log on top of the buffer cache. \<open>lh\<close> is the in-memory header, the block numbers of the running
  transaction (\<open>log.lh.block[0..n)\<close>). A header read from disk with more than \<open>LOGSIZE\<close> entries would be written past the
  array. \<open>begin_op\<close> ends in \<open>Blocks\<close> where the source sleeps.
\<close>

record log = bio +
  lstart :: u32
  lsize :: int
  loutstanding :: int
  committing :: bool
  ldev :: u32
  lh :: "u32 list"

definition modify_buf :: "nat \<Rightarrow> (u8 list \<Rightarrow> u8 list) \<Rightarrow> 'a bio_scheme \<Rightarrow> 'a bio_scheme" where
  "modify_buf b f s = bupd b (\<lambda>q. q\<lparr>bdata := f (bdata q)\<rparr>) s"

definition head_of :: "u8 list \<Rightarrow> u32 list res" where
  "head_of d =
     (let n = sint (get32 0 d)
      in if n > LOGSIZE then Inl Wild_pointer else Inr (map (\<lambda>i. get32 (Suc i) d) [0..<nat n]))"

definition put_head :: "u32 list \<Rightarrow> u8 list \<Rightarrow> u8 list" where
  "put_head bs d = fold (\<lambda>i. put32 (Suc i) (bs ! i)) [0..<length bs] (put32 0 (of_nat (length bs)) d)"

definition read_head :: "'a log_scheme \<Rightarrow> 'a log_scheme res" where
  "read_head s =
     rbind (bread (ldev s) (lstart s) s) (\<lambda>(b, s).
     rbind (head_of (bdata (bufs s b))) (\<lambda>bs. brelse b (s\<lparr>lh := bs\<rparr>)))"

definition write_head :: "'a log_scheme \<Rightarrow> 'a log_scheme res" where
  "write_head s =
     rbind (bread (ldev s) (lstart s) s) (\<lambda>(b, s).
     rbind (bwrite b (modify_buf b (put_head (lh s)) s)) (brelse b))"

text \<open>Copying a block: read the source and the destination, copy the data, write the destination.\<close>

definition install_one :: "nat \<Rightarrow> 'a log_scheme \<Rightarrow> 'a log_scheme res" where
  "install_one tail s =
     rbind (bread (ldev s) (lstart s + of_nat tail + 1) s) (\<lambda>(lbuf, s).
     rbind (bread (ldev s) (lh s ! tail) s) (\<lambda>(dbuf, s).
     let d = bdata (bufs s lbuf)
     in rbind (bwrite dbuf (modify_buf dbuf (\<lambda>_. d) s)) (\<lambda>s.
        rbind (brelse lbuf s) (brelse dbuf))))"

definition install_trans :: "'a log_scheme \<Rightarrow> 'a log_scheme res" where
  "install_trans s = rfold install_one [0..<length (lh s)] s"

definition write_log_one :: "nat \<Rightarrow> 'a log_scheme \<Rightarrow> 'a log_scheme res" where
  "write_log_one tail s =
     rbind (bread (ldev s) (lstart s + of_nat tail + 1) s) (\<lambda>(to, s).
     rbind (bread (ldev s) (lh s ! tail) s) (\<lambda>(from, s).
     let d = bdata (bufs s from)
     in rbind (bwrite to (modify_buf to (\<lambda>_. d) s)) (\<lambda>s.
        rbind (brelse from s) (brelse to))))"

definition write_log :: "'a log_scheme \<Rightarrow> 'a log_scheme res" where
  "write_log s = rfold write_log_one [0..<length (lh s)] s"

definition recover_from_log :: "'a log_scheme \<Rightarrow> 'a log_scheme res" where
  "recover_from_log s =
     rbind (read_head s) (\<lambda>s.
     rbind (install_trans s) (\<lambda>s.
     write_head (s\<lparr>lh := []\<rparr>)))"

definition initlog :: "u32 \<Rightarrow> 'a log_scheme \<Rightarrow> 'a log_scheme res" where
  "initlog dev s =
     rbind (bread dev 1 s) (\<lambda>(b, s).
     let r = superblock_of (bdata (bufs s b))
     in rbind (brelse b s) (\<lambda>s.
        recover_from_log (s\<lparr>lstart := logstart r, lsize := sint (nlog r), ldev := dev\<rparr>)))"

definition commit :: "'a log_scheme \<Rightarrow> 'a log_scheme res" where
  "commit s =
     (if length (lh s) > 0
      then rbind (write_log s) (\<lambda>s.
           rbind (write_head s) (\<lambda>s.
           rbind (install_trans s) (\<lambda>s.
           write_head (s\<lparr>lh := []\<rparr>))))
      else Inr s)"

definition begin_op :: "'a log_scheme \<Rightarrow> 'a log_scheme res" where
  "begin_op s =
     (if committing s then Inl Blocks
      else if int (length (lh s)) + (loutstanding s + 1) * MAXOPBLOCKS > LOGSIZE then Inl Blocks
      else Inr (s\<lparr>loutstanding := loutstanding s + 1\<rparr>))"

definition end_op :: "'a log_scheme \<Rightarrow> 'a log_scheme res" where
  "end_op s =
     (let s = s\<lparr>loutstanding := loutstanding s - 1\<rparr>
      in if committing s then Inl (Panic ''log.committing'')
         else if loutstanding s = 0
         then rbind (commit (s\<lparr>committing := True\<rparr>)) (\<lambda>s. Inr (s\<lparr>committing := False\<rparr>))
         else Inr s)"

definition log_write :: "nat \<Rightarrow> 'a log_scheme \<Rightarrow> 'a log_scheme res" where
  "log_write b s =
     (if int (length (lh s)) \<ge> LOGSIZE \<or> int (length (lh s)) \<ge> lsize s - 1
      then Inl (Panic ''too big a transaction'')
      else if loutstanding s < 1 then Inl (Panic ''log_write outside of trans'')
      else let bno = blockno (bufs s b);
               s = s\<lparr>lh := (if bno \<in> set (lh s) then lh s else lh s @ [bno])\<rparr>
           in Inr (bupd b (\<lambda>q. q\<lparr>bdirty := True\<rparr>) s))"

end
