(* ===== verification/Bio_Cache.thy ===== *)
theory Bio_Cache
  imports Log
begin

section \<open>Correctness of the buffer cache\<close>

text \<open>
  What the buffer cache of \<open>Bio\<close> promises to its callers: \<open>bio_abs s v h d\<close> relates the buffers, their list and the
  disk to the contents \<open>v\<close> of all blocks, the set \<open>h\<close> of blocks the running thread has locked and the set \<open>d\<close> of dirty blocks. The first part shows that the list
  operations of \<open>brelse\<close> keep all buffers on the list, the second that every operation changes the abstraction as a caller expects.
\<close>

subsection \<open>The list of buffers\<close>

definition lru_ok :: "bnode lstore \<Rightarrow> nat list \<Rightarrow> bool" where
  "lru_ok lk bs = (dlist lk Bhead (map Buf bs) \<and> set bs = {..<NBUF})"

lemma lru_ok_length: "lru_ok lk bs \<Longrightarrow> length bs = NBUF"
  using distinct_card [of bs] by (auto simp: lru_ok_def dlist_def distinct_map)

lemma bget_scan_eq:
  "dseg (lru s) n (map Buf bs) Bhead \<Longrightarrow> length bs < fuel \<Longrightarrow>
   bget_scan fuel k (nxt (lru s n)) s = Inr (find (\<lambda>b. buf_key (bufs s b) = k) bs)"
  by (induction bs arbitrary: n fuel) (case_tac fuel; simp)+

lemma bget_recycle_eq:
  "dseg (lru s) Bhead (map Buf bs) n \<Longrightarrow> length bs < fuel \<Longrightarrow>
   bget_recycle fuel (prv (lru s n)) s = Inr (find (\<lambda>b. refcnt (bufs s b) = 0 \<and> \<not> bdirty (bufs s b)) (rev bs))"
proof (induction bs arbitrary: n fuel rule: rev_induct)
  case Nil then show ?case by (cases fuel) simp_all
next
  case (snoc b bs) then show ?case by (cases fuel) simp_all
qed

lemma lru_front_eq: "b \<noteq> b' \<Longrightarrow> nxt (lk Bhead) = Some (Buf b') \<Longrightarrow> lru_front b lk = list_add (Buf b) Bhead lk"
  by (auto simp: lru_front_def list_add_def ll_list_add_def link_simps fun_eq_iff)

lemma lru_front_empty: "nxt (lk Bhead) = Some Bhead \<Longrightarrow> lru_front b lk = list_add (Buf b) Bhead lk"
  by (auto simp: lru_front_def list_add_def ll_list_add_def link_simps fun_eq_iff)

lemma lru_front_ok:
  assumes "dlist lk Bhead (map Buf bs)" and "b \<notin> set bs"
  shows "\<exists>lk'. lru_front b lk = Inr lk' \<and> dlist lk' Bhead (map Buf (b # bs))"
proof -
  have "lru_front b lk = list_add (Buf b) Bhead lk"
  proof (cases bs)
    case Nil
    then show ?thesis using dlist_next [OF assms(1)] by (intro lru_front_empty) simp
  next
    case (Cons c cs)
    then show ?thesis using dlist_next [OF assms(1)] assms(2) by (intro lru_front_eq [of _ c]) auto
  qed
  with assms show ?thesis using lh.rep_add [of lk Bhead "map Buf bs" "Buf b"] by auto
qed


lemma lru_unlink_ok:
  assumes "dlist lk Bhead (map Buf (xs @ b # ys))"
  shows "\<exists>lk'. lru_unlink b lk = Inr lk' \<and> dlist lk' Bhead (map Buf (xs @ ys))"
proof -
  let ?p = "last (Bhead # map Buf xs)" and ?n = "hd (map Buf ys @ [Bhead])"
  let ?lk = "set_nxt ?p (Some ?n) (set_prv ?n (Some ?p) lk)"
  have d: "dlist lk Bhead (map Buf xs @ Buf b # map Buf ys)" using assms by simp
  then have "prv (lk (Buf b)) = Some ?p" "nxt (lk (Buf b)) = Some ?n" by (rule dlist_split_links)+
  moreover from this have "?n \<noteq> Buf b" using d by (cases ys) (auto simp: dlist_def)
  ultimately have "lru_unlink b lk = Inr ?lk" by (simp add: lru_unlink_def)
  moreover have "dlist ?lk Bhead (map Buf xs @ map Buf ys)"
  proof -
    have "link_out (Buf b) ?p ?n lk n = ?lk n" if "n \<noteq> Buf b" for n
      using that by (auto simp: link_out_def link_simps)
    moreover have "dlist (link_out (Buf b) ?p ?n lk) Bhead (map Buf xs @ map Buf ys)"
      using d dseg_link_out [of lk Bhead "map Buf xs" "Buf b" "map Buf ys" Bhead] by (auto simp: dlist_def)
    moreover have "n \<noteq> Buf b" if "n \<in> set (Bhead # map Buf xs @ map Buf ys)" for n using that d by (auto simp: dlist_def)
    ultimately show ?thesis by (subst dlist_cong [of _ _ ?lk "link_out (Buf b) ?p ?n lk"]) auto
  qed
  ultimately show ?thesis by auto
qed

lemma lru_move_ok:
  assumes "lru_ok lk bs" and "b < NBUF"
  shows "\<exists>lk1 lk2 bs'. lru_unlink b lk = Inr lk1 \<and> lru_front b lk1 = Inr lk2 \<and> lru_ok lk2 bs'"
proof -
  from assms obtain xs ys where bs: "bs = xs @ b # ys" by (metis in_set_conv_decomp lessThan_iff lru_ok_def)
  with assms(1) have d: "dlist lk Bhead (map Buf (xs @ b # ys))" by (simp add: lru_ok_def)
  then have n: "b \<notin> set (xs @ ys)" by (auto simp: dlist_def)
  from lru_unlink_ok [OF d] obtain lk1 where lk1: "lru_unlink b lk = Inr lk1" "dlist lk1 Bhead (map Buf (xs @ ys))" by auto
  from lru_front_ok [OF lk1(2) n] obtain lk2 where "lru_front b lk1 = Inr lk2" "dlist lk2 Bhead (map Buf (b # xs @ ys))" by auto
  moreover have "set (b # xs @ ys) = {..<NBUF}" using assms(1) bs by (auto simp: lru_ok_def)
  ultimately show ?thesis using lk1(1) unfolding lru_ok_def by blast
qed


subsection \<open>What the cache represents\<close>

text \<open>
  \<open>bio_abs s v h d\<close>: cache and disk together hold the contents \<open>v\<close>; the running thread has the buffers of the blocks
  \<open>h\<close> locked, and those of the blocks \<open>d\<close> are dirty, so that they are not recycled. Only the buffers of device 0, which
  the kernel never reads, may share a block.
\<close>

definition buf_ok :: "int \<times> int \<Rightarrow> (bkey \<Rightarrow> u8 list) \<Rightarrow> buf \<Rightarrow> bool" where
  "buf_ok me v q = (refcnt q = (if locked (block q) then 1 else 0) \<and>
     (locked (block q) \<longrightarrow> held_by_me me (block q) \<and> bvalid q \<and> bdev q \<noteq> 0) \<and>
     (bdirty q \<longrightarrow> bvalid q \<and> bdev q \<noteq> 0) \<and> (bvalid q \<longrightarrow> bdata q = v (buf_key q)))"

definition keys :: "(buf \<Rightarrow> bool) \<Rightarrow> (nat \<Rightarrow> buf) \<Rightarrow> bkey set" where
  "keys P f = (\<lambda>i. buf_key (f i)) ` {i. i < NBUF \<and> P (f i)}"

definition bio_abs :: "'a bio_scheme \<Rightarrow> (bkey \<Rightarrow> u8 list) \<Rightarrow> bkey set \<Rightarrow> bkey set \<Rightarrow> bool" where
  "bio_abs s v h d = ((\<exists>bs. lru_ok (lru s) bs) \<and> havedisk1 s \<and>
     (\<forall>i<NBUF. buf_ok (bme s) v (bufs s i)) \<and>
     (\<forall>i<NBUF. \<forall>j<NBUF. buf_key (bufs s i) = buf_key (bufs s j) \<and> bdev (bufs s i) \<noteq> 0 \<longrightarrow> i = j) \<and>
     h = keys (\<lambda>q. locked (block q)) (bufs s) \<and>
     d = keys bdirty (bufs s) \<and>
     (\<forall>k. k \<notin> h \<union> d \<longrightarrow> v k = disk s k))"

definition holds :: "'a bio_scheme \<Rightarrow> nat \<Rightarrow> bkey \<Rightarrow> bool" where
  "holds s b k = (b < NBUF \<and> buf_key (bufs s b) = k \<and> locked (block (bufs s b)))"

text \<open>\<open>evolves s s' ws\<close>: from \<open>s\<close> to \<open>s'\<close> only the cache changed, and the writes \<open>ws\<close> reached the disk.\<close>

definition apply_writes :: "(bkey \<times> u8 list) list \<Rightarrow> (bkey \<Rightarrow> u8 list) \<Rightarrow> bkey \<Rightarrow> u8 list" where
  "apply_writes ws v = fold (\<lambda>(k, x) v. v(k := x)) ws v"

definition evolves :: "'a bio_scheme \<Rightarrow> 'a bio_scheme \<Rightarrow> (bkey \<times> u8 list) list \<Rightarrow> bool" where
  "evolves s s' ws = (\<exists>B L. s' = s\<lparr>bufs := B, lru := L, disk := apply_writes ws (disk s), bwrites := bwrites s @ ws\<rparr>)"

lemma evolves_refl: "evolves s s []"
  unfolding evolves_def by (intro exI [of _ "bufs s"] exI [of _ "lru s"]) (simp add: apply_writes_def)

lemma evolves_trans: "evolves s s1 ws \<Longrightarrow> evolves s1 s2 ws' \<Longrightarrow> evolves s s2 (ws @ ws')"
  unfolding evolves_def apply_writes_def by (elim exE, rule exI, rule exI) simp

lemma bio_absI:
  assumes "lru_ok (lru s) bs" and "havedisk1 s" and "\<And>i. i < NBUF \<Longrightarrow> buf_ok (bme s) v (bufs s i)"
    and "\<And>i j. i < NBUF \<Longrightarrow> j < NBUF \<Longrightarrow> buf_key (bufs s i) = buf_key (bufs s j) \<Longrightarrow> bdev (bufs s i) \<noteq> 0 \<Longrightarrow> i = j"
    and "h = keys (\<lambda>q. locked (block q)) (bufs s)"
    and "d = keys bdirty (bufs s)"
    and "\<And>k. k \<notin> h \<union> d \<Longrightarrow> v k = disk s k"
  shows "bio_abs s v h d"
  using assms unfolding bio_abs_def by blast

lemma bio_absD:
  assumes "bio_abs s v h d"
  shows "\<exists>bs. lru_ok (lru s) bs" and "havedisk1 s" and "i < NBUF \<Longrightarrow> buf_ok (bme s) v (bufs s i)"
    and "i < NBUF \<Longrightarrow> j < NBUF \<Longrightarrow> buf_key (bufs s i) = buf_key (bufs s j) \<Longrightarrow> bdev (bufs s i) \<noteq> 0 \<Longrightarrow> i = j"
    and "h = keys (\<lambda>q. locked (block q)) (bufs s)"
    and "d = keys bdirty (bufs s)"
    and "k \<notin> h \<union> d \<Longrightarrow> v k = disk s k"
  using assms unfolding bio_abs_def by blast+

lemma holds_data: "bio_abs s v h d \<Longrightarrow> holds s b k \<Longrightarrow> bdata (bufs s b) = v k"
  by (auto simp: bio_abs_def holds_def buf_ok_def)

lemma holds_me: "bio_abs s v h d \<Longrightarrow> holds s b k \<Longrightarrow> held_by_me (bme s) (block (bufs s b))"
  by (auto simp: bio_abs_def holds_def buf_ok_def)

lemma holds_in: "bio_abs s v h d \<Longrightarrow> holds s b k \<Longrightarrow> k \<in> h"
  by (auto simp: bio_abs_def holds_def keys_def)


lemma keys_upd_same:
  assumes "b < NBUF" and "buf_key q = buf_key (f b)" and "\<And>i. i < NBUF \<Longrightarrow> buf_key (f i) = buf_key (f b) \<Longrightarrow> i = b"
  shows "keys P (f(b := q)) = (if P q then insert (buf_key q) (keys P f) else keys P f - {buf_key q})"
proof -
  have "keys P (f(b := q)) = (\<lambda>i. buf_key (f i)) ` {i. i < NBUF \<and> i \<noteq> b \<and> P (f i)} \<union> (if P q then {buf_key q} else {})"
    using assms(1) by (auto simp: keys_def)
  moreover have "(\<lambda>i. buf_key (f i)) ` {i. i < NBUF \<and> i \<noteq> b \<and> P (f i)} = keys P f - {buf_key q}"
    using assms(2,3) by (auto simp: keys_def)
  ultimately show ?thesis by auto
qed

lemma keys_upd_new:
  "b < NBUF \<Longrightarrow> \<not> P (f b) \<Longrightarrow> keys P (f(b := q)) = (if P q then insert (buf_key q) (keys P f) else keys P f)"
  by (auto simp: keys_def)

text \<open>Changing a buffer and keeping its block, and giving an unused buffer to a new block.\<close>

lemma bio_abs_same_block:
  assumes "bio_abs s v h d" and "b < NBUF \<and> buf_key (bufs s b) = k \<and> fst k \<noteq> 0" and "buf_key q = k"
    and "buf_ok (bme s) (v(k := bdata q)) q"
    and "\<And>k'. k' \<noteq> k \<Longrightarrow> D k' = disk s k'" and "locked (block q) \<or> bdirty q \<or> bdata q = D k"
  shows "bio_abs (s\<lparr>bufs := (bufs s)(b := q), disk := D, bwrites := W\<rparr>) (v(k := bdata q))
    (if locked (block q) then insert k h else h - {k}) (if bdirty q then insert k d else d - {k})"
proof -
  note a = bio_absD [OF assms(1)]
  have b: "b < NBUF" "buf_key (bufs s b) = k" and dev: "bdev (bufs s b) \<noteq> 0" using assms(2) by (auto simp: buf_key_def)
  have u: "i = b" if "i < NBUF" "buf_key (bufs s i) = buf_key (bufs s b)" for i
    using a(4) [OF b(1) that(1)] that(2) dev by simp
  obtain bs where bs: "lru_ok (lru s) bs" using a(1) by auto
  have i: "buf_key (((bufs s)(b := q)) i) = buf_key (bufs s i)" "bdev (((bufs s)(b := q)) i) = bdev (bufs s i)" for i
    using b(2) assms(3) by (auto simp: buf_key_def)
  show ?thesis
  proof (rule bio_absI [of _ bs])
    show "(if locked (block q) then insert k h else h - {k}) =
        keys (\<lambda>q. locked (block q)) (bufs (s\<lparr>bufs := (bufs s)(b := q), disk := D, bwrites := W\<rparr>))"
      using keys_upd_same [OF b(1), of q "bufs s", OF _ u] a(5) b(2) assms(3) by simp
    show "(if bdirty q then insert k d else d - {k}) = keys bdirty (bufs (s\<lparr>bufs := (bufs s)(b := q), disk := D, bwrites := W\<rparr>))"
      using keys_upd_same [OF b(1), of q "bufs s", OF _ u] a(6) b(2) assms(3) by simp
    fix k' assume k': "k' \<notin> (if locked (block q) then insert k h else h - {k}) \<union> (if bdirty q then insert k d else d - {k})"
    show "(v(k := bdata q)) k' = disk (s\<lparr>bufs := (bufs s)(b := q), disk := D, bwrites := W\<rparr>) k'"
    proof (cases "k' = k")
      case True
      with k' assms(6) show ?thesis by (simp split: if_splits)
    next
      case False
      with k' have "k' \<notin> h \<union> d" by (simp split: if_splits)
      with a(7) assms(5) [OF False] False show ?thesis by simp
    qed
  next
    fix j assume j: "j < NBUF"
    show "buf_ok (bme (s\<lparr>bufs := (bufs s)(b := q), disk := D, bwrites := W\<rparr>)) (v(k := bdata q))
        (bufs (s\<lparr>bufs := (bufs s)(b := q), disk := D, bwrites := W\<rparr>) j)"
      using a(3) [OF j] u [OF j] assms(4) b(2) by (auto simp: buf_ok_def)
  qed (use bs a(2,4) i in auto)
qed

lemma bio_abs_new_block:
  assumes "bio_abs s v h d" and "b < NBUF" and "\<not> locked (block (bufs s b))" and "\<not> bdirty (bufs s b)"
    and "buf_ok (bme s) v q" and "\<not> bdirty q" and "locked (block q)"
    and "\<And>i. i < NBUF \<Longrightarrow> i \<noteq> b \<Longrightarrow> buf_key (bufs s i) \<noteq> buf_key q"
  shows "bio_abs (s\<lparr>bufs := (bufs s)(b := q)\<rparr>) v (insert (buf_key q) h) d"
proof -
  note a = bio_absD [OF assms(1)]
  obtain bs where bs: "lru_ok (lru s) bs" using a(1) by auto
  show ?thesis
  proof (rule bio_absI [of _ bs])
    show "insert (buf_key q) h = keys (\<lambda>q. locked (block q)) (bufs (s\<lparr>bufs := (bufs s)(b := q)\<rparr>))"
      using a(5) assms(2,3,7) by (simp add: keys_upd_new)
    show "d = keys bdirty (bufs (s\<lparr>bufs := (bufs s)(b := q)\<rparr>))" using a(6) assms(2,4,6) by (simp add: keys_upd_new)
    fix i j assume "i < NBUF" "j < NBUF" and e: "buf_key (bufs (s\<lparr>bufs := (bufs s)(b := q)\<rparr>) i) = buf_key (bufs (s\<lparr>bufs := (bufs s)(b := q)\<rparr>) j)"
      "bdev (bufs (s\<lparr>bufs := (bufs s)(b := q)\<rparr>) i) \<noteq> 0"
    then show "i = j" using a(4) [of i j] assms(8) [of i] assms(8) [of j] by (auto split: if_splits)
  qed (use bs a(2,3,7) assms(5) in auto)
qed


subsection \<open>The operations\<close>

lemma locked_in: "bio_abs s v h d \<Longrightarrow> i < NBUF \<Longrightarrow> locked (block (bufs s i)) \<Longrightarrow> buf_key (bufs s i) \<in> h"
  using bio_absD(5) by (fastforce simp: keys_def)

lemma dirty_in: "bio_abs s v h d \<Longrightarrow> i < NBUF \<Longrightarrow> bdirty (bufs s i) \<Longrightarrow> buf_key (bufs s i) \<in> d"
  using bio_absD(6) by (fastforce simp: keys_def)

lemma refcnt_zero: "buf_ok me v q \<Longrightarrow> refcnt q = 0 \<longleftrightarrow> \<not> locked (block q)"
  by (simp add: buf_ok_def)

lemma free_buffer:
  assumes "bio_abs s v h d" and "card (h \<union> d) < NBUF"
  shows "\<exists>i<NBUF. refcnt (bufs s i) = 0 \<and> \<not> bdirty (bufs s i)"
proof (rule ccontr)
  note a = bio_absD [OF assms(1)]
  assume "\<not> (\<exists>i<NBUF. refcnt (bufs s i) = 0 \<and> \<not> bdirty (bufs s i))"
  then have busy: "locked (block (bufs s i)) \<or> bdirty (bufs s i)" if "i < NBUF" for i
    using that refcnt_zero [OF a(3) [OF that]] by blast
  have dev: "bdev (bufs s i) \<noteq> 0" if "i < NBUF" for i using busy [OF that] a(3) [OF that] by (auto simp: buf_ok_def)
  have "inj_on (\<lambda>i. buf_key (bufs s i)) {..<NBUF}" using a(4) dev by (auto intro: inj_onI)
  then have "card ((\<lambda>i. buf_key (bufs s i)) ` {..<NBUF}) = NBUF" by (simp add: card_image)
  moreover have "(\<lambda>i. buf_key (bufs s i)) ` {..<NBUF} \<subseteq> h \<union> d"
    using busy locked_in [OF assms(1)] dirty_in [OF assms(1)] by blast
  moreover have "finite (h \<union> d)" using a(5,6) by (simp add: keys_def)
  ultimately show False using assms(2) by (metis card_mono linorder_not_le)
qed

lemma bget_found:
  assumes "bio_abs s v h d" and "lru_ok (lru s) bs" and "find (\<lambda>b. buf_key (bufs s b) = k) bs = Some b"
  shows "b < NBUF" and "buf_key (bufs s b) = k"
  using assms(2,3) by (auto simp: find_Some_iff lru_ok_def dest: nth_mem)

text \<open>The buffer \<open>bread\<close> leaves behind, in the three ways it can find one.\<close>

definition read_into :: "buf \<Rightarrow> 'a bio_scheme \<Rightarrow> buf" where
  "read_into q s = (if bvalid q then q else q\<lparr>bdata := disk s (buf_key q), bvalid := True, bdirty := False\<rparr>)"

definition mine :: "int \<times> int \<Rightarrow> buf \<Rightarrow> buf" where
  "mine me q = q\<lparr>refcnt := 1, block := \<lparr>locked = True, lpid = fst me, ltid = snd me\<rparr>\<rparr>"

lemma bread_cached:
  assumes a: "bio_abs s v h d" and bs: "lru_ok (lru s) bs" and f: "find (\<lambda>b. buf_key (bufs s b) = (dev, bno)) bs = Some b"
    and k: "dev \<noteq> 0" "(dev, bno) \<notin> h" "unat bno < FSSIZE"
  shows "bread dev bno s = Inr (b, s\<lparr>bufs := (bufs s)(b := read_into (mine (bme s) (bufs s b)) s)\<rparr>)"
    and "bio_abs (s\<lparr>bufs := (bufs s)(b := read_into (mine (bme s) (bufs s b)) s)\<rparr>) v (insert (dev, bno) h) d"
proof -
  let ?q = "bufs s b" let ?q' = "read_into (mine (bme s) ?q) s"
  have b: "b < NBUF" "buf_key ?q = (dev, bno)" by (rule bget_found [OF a bs f])+
  note ok = bio_absD(3) [OF a b(1)]
  have l: "\<not> locked (block ?q)" using locked_in [OF a b(1)] b(2) k(2) by auto
  have r: "refcnt ?q = 0" using refcnt_zero [OF ok] l by simp
  have "bget_scan (Suc NBUF) (dev, bno) (nxt (lru s Bhead)) s = Inr (Some b)"
    using bs f lru_ok_length [OF bs] by (subst bget_scan_eq [of s Bhead bs]) (auto simp: lru_ok_def dlist_def)
  then have g: "bget dev bno s = Inr (b, s\<lparr>bufs := (bufs s)(b := mine (bme s) ?q)\<rparr>)"
    using l r by (simp add: bget_def lock_buf_def bupd_def take_sleeplock_def mine_def del: bget_scan.simps)
  have bk: "bdev ?q = dev" "blockno ?q = bno" using b(2) by (simp_all add: buf_key_def)
  have nd: "\<not> bdirty ?q" if "\<not> bvalid ?q" using that ok by (auto simp: buf_ok_def)
  show "bread dev bno s = Inr (b, s\<lparr>bufs := (bufs s)(b := ?q')\<rparr>)"
    using g nd bk k bio_absD(2) [OF a]
    by (auto simp: bread_def iderw_def read_into_def held_by_me_def mine_def bupd_def buf_key_def)
  have kd: "(dev, bno) \<in> d \<longleftrightarrow> bdirty ?q"
  proof
    assume "(dev, bno) \<in> d"
    then obtain i where i: "i < NBUF" "bdirty (bufs s i)" "buf_key (bufs s i) = (dev, bno)"
      unfolding bio_absD(6) [OF a] keys_def by auto
    then have "i = b" using bio_absD(4) [OF a i(1) b(1)] b(2) k(1) by (simp add: buf_key_def)
    with i(2) show "bdirty ?q" by simp
  qed (use dirty_in [OF a b(1)] b(2) in simp)
  have v: "bdata ?q' = v (dev, bno)" using ok nd kd b(2) k(2) bio_absD(7) [OF a]
    by (auto simp: read_into_def mine_def buf_ok_def buf_key_def)
  have "bio_abs (s\<lparr>bufs := (bufs s)(b := ?q'), disk := disk s, bwrites := bwrites s\<rparr>) (v((dev, bno) := bdata ?q'))
      (if locked (block ?q') then insert (dev, bno) h else h - {(dev, bno)}) (if bdirty ?q' then insert (dev, bno) d else d - {(dev, bno)})"
    using b k ok v by (intro bio_abs_same_block [OF a])
      (auto simp: buf_ok_def read_into_def mine_def held_by_me_def buf_key_def)
  moreover have "(if bdirty ?q' then insert (dev, bno) d else d - {(dev, bno)}) = d"
    using nd kd by (auto simp: read_into_def mine_def)
  moreover have "(if locked (block ?q') then insert (dev, bno) h else h - {(dev, bno)}) = insert (dev, bno) h"
    by (simp add: read_into_def mine_def)
  moreover have "v((dev, bno) := bdata ?q') = v" using v by simp
  moreover have "s\<lparr>bufs := (bufs s)(b := ?q'), disk := disk s, bwrites := bwrites s\<rparr> = s\<lparr>bufs := (bufs s)(b := ?q')\<rparr>" by simp
  ultimately show "bio_abs (s\<lparr>bufs := (bufs s)(b := ?q')\<rparr>) v (insert (dev, bno) h) d" by (simp only:)
qed

lemma bread_recycled:
  assumes a: "bio_abs s v h d" and bs: "lru_ok (lru s) bs" and n: "find (\<lambda>b. buf_key (bufs s b) = (dev, bno)) bs = None"
    and f: "find (\<lambda>b. refcnt (bufs s b) = 0 \<and> \<not> bdirty (bufs s b)) (rev bs) = Some b"
    and k: "dev \<noteq> 0" "(dev, bno) \<notin> h" "unat bno < FSSIZE"
  defines "q \<equiv> (bufs s b)\<lparr>bdev := dev, blockno := bno, bvalid := False, bdirty := False\<rparr>"
  shows "bread dev bno s = Inr (b, s\<lparr>bufs := (bufs s)(b := read_into (mine (bme s) q) s)\<rparr>)"
    and "bio_abs (s\<lparr>bufs := (bufs s)(b := read_into (mine (bme s) q) s)\<rparr>) v (insert (dev, bno) h) d"
proof -
  let ?q' = "read_into (mine (bme s) q) s"
  from f have "b \<in> set bs" and u: "refcnt (bufs s b) = 0" "\<not> bdirty (bufs s b)"
    using nth_mem [of _ "rev bs"] by (auto simp: find_Some_iff)
  then have b: "b < NBUF" using bs by (simp add: lru_ok_def)
  have l: "\<not> locked (block (bufs s b))" using refcnt_zero [OF bio_absD(3) [OF a b]] u by simp
  have no: "buf_key (bufs s i) \<noteq> (dev, bno)" if "i < NBUF" for i using n bs that by (auto simp: find_None_iff lru_ok_def)
  then have kd: "(dev, bno) \<notin> d" unfolding bio_absD(6) [OF a] keys_def by force
  have "bget_scan (Suc NBUF) (dev, bno) (nxt (lru s Bhead)) s = Inr None"
    using bs n lru_ok_length [OF bs] by (subst bget_scan_eq [of s Bhead bs]) (auto simp: lru_ok_def dlist_def)
  moreover have "bget_recycle (Suc NBUF) (prv (lru s Bhead)) s = Inr (Some b)"
    using bs f lru_ok_length [OF bs] by (subst bget_recycle_eq [of s bs Bhead]) (auto simp: lru_ok_def dlist_def)
  ultimately have g: "bget dev bno s = Inr (b, s\<lparr>bufs := (bufs s)(b := mine (bme s) q)\<rparr>)"
    using l by (simp add: bget_def lock_buf_def bupd_def take_sleeplock_def mine_def q_def del: bget_scan.simps bget_recycle.simps)
  show "bread dev bno s = Inr (b, s\<lparr>bufs := (bufs s)(b := ?q')\<rparr>)"
    using g k bio_absD(2) [OF a]
    by (auto simp: bread_def iderw_def read_into_def held_by_me_def mine_def bupd_def buf_key_def q_def)
  have "bdata ?q' = v (dev, bno)" using bio_absD(7) [OF a] k(2) kd by (simp add: read_into_def mine_def buf_key_def q_def)
  then have "buf_ok (bme s) v ?q'" "\<not> bdirty ?q'" "locked (block ?q')" "buf_key ?q' = (dev, bno)"
    using k(1) by (auto simp: buf_ok_def read_into_def mine_def held_by_me_def buf_key_def q_def)
  with bio_abs_new_block [OF a b l u(2), of ?q'] no show "bio_abs (s\<lparr>bufs := (bufs s)(b := ?q')\<rparr>) v (insert (dev, bno) h) d"
    by auto
qed


text \<open>
  The contract of each operation. \<open>bread\<close> locks one more block and leaves those that are locked; changing the data of a
  locked buffer changes the contents; \<open>bwrite\<close> sends a block to the disk; \<open>brelse\<close> gives back a block whose contents are on the
  disk or which is dirty.
\<close>

lemma bread_abs:
  assumes a: "bio_abs s v h d" and k: "dev \<noteq> 0" "(dev, bno) \<notin> h" "unat bno < FSSIZE"
    and r: "(dev, bno) \<in> d \<or> card (h \<union> d) < NBUF"
  obtains b s' where "bread dev bno s = Inr (b, s')" and "bio_abs s' v (insert (dev, bno) h) d" and "holds s' b (dev, bno)"
    and "evolves s s' []" and "\<And>c k'. holds s c k' \<Longrightarrow> holds s' c k' \<and> c \<noteq> b"
proof -
  obtain bs where bs: "lru_ok (lru s) bs" using bio_absD(1) [OF a] by auto
  have ev: "evolves s (s\<lparr>bufs := B\<rparr>) []" for B
    unfolding evolves_def by (intro exI [of _ B] exI [of _ "lru s"]) (simp add: apply_writes_def)
  have other: "holds s c k' \<Longrightarrow> holds (s\<lparr>bufs := (bufs s)(b := q)\<rparr>) c k' \<and> c \<noteq> b" if "\<not> locked (block (bufs s b))" for b c k' q
    using that by (auto simp: holds_def)
  show thesis
  proof (cases "find (\<lambda>b. buf_key (bufs s b) = (dev, bno)) bs")
    case (Some b)
    note c = bread_cached [OF a bs Some k] and f = bget_found [OF a bs Some]
    have "\<not> locked (block (bufs s b))" using locked_in [OF a f(1)] f(2) k(2) by auto
    then show thesis using that [OF c ] f ev other
      by (auto simp: holds_def read_into_def mine_def buf_key_def)
  next
    case None
    have "(dev, bno) \<notin> d" using None bs by (auto simp: bio_absD(6) [OF a] keys_def find_None_iff lru_ok_def)
    with r free_buffer [OF a] obtain i where "i < NBUF" "refcnt (bufs s i) = 0" "\<not> bdirty (bufs s i)" by auto
    then have "find (\<lambda>b. refcnt (bufs s b) = 0 \<and> \<not> bdirty (bufs s b)) (rev bs) \<noteq> None"
      using bs by (auto simp: find_None_iff lru_ok_def)
    then obtain b where b: "find (\<lambda>b. refcnt (bufs s b) = 0 \<and> \<not> bdirty (bufs s b)) (rev bs) = Some b" by auto
    note c = bread_recycled [OF a bs None b k]
    have "b \<in> set bs" "refcnt (bufs s b) = 0"
      using b nth_mem [of _ "rev bs"] by (auto simp: find_Some_iff)
    then have f: "b < NBUF" "\<not> locked (block (bufs s b))"
      using bs refcnt_zero [OF bio_absD(3) [OF a]] by (auto simp: lru_ok_def)
    then show thesis using that [OF c] ev other
      by (auto simp: holds_def read_into_def mine_def buf_key_def)
  qed
qed

lemma bread_step:
  assumes "bio_abs s v h d" and "dev \<noteq> 0" and "(dev, bno) \<notin> h" and "unat bno < FSSIZE"
    and "(dev, bno) \<in> d \<or> card (h \<union> d) < NBUF"
  shows "\<exists>b s'. bread dev bno s = Inr (b, s') \<and> bio_abs s' v (insert (dev, bno) h) d \<and> holds s' b (dev, bno) \<and>
    evolves s s' [] \<and> (\<forall>c k'. holds s c k' \<longrightarrow> holds s' c k' \<and> c \<noteq> b)"
  by (rule bread_abs [OF assms]) blast

lemma holds_dev: "bio_abs s v h d \<Longrightarrow> holds s b k \<Longrightarrow> b < NBUF \<and> buf_key (bufs s b) = k \<and> fst k \<noteq> 0"
  using bio_absD(3) [of s v h d b] by (auto simp: holds_def buf_ok_def buf_key_def)

lemma dirty_iff:
  assumes "bio_abs s v h d" and "b < NBUF" and "buf_key (bufs s b) = k" and "fst k \<noteq> 0"
  shows "k \<in> d \<longleftrightarrow> bdirty (bufs s b)"
proof
  assume "k \<in> d"
  then obtain i where i: "i < NBUF" "bdirty (bufs s i)" "buf_key (bufs s i) = k"
    unfolding bio_absD(6) [OF assms(1)] keys_def by auto
  then have "i = b" using bio_absD(4) [OF assms(1) i(1) assms(2)] assms(3,4) by (auto simp: buf_key_def)
  with i(2) show "bdirty (bufs s b)" by simp
qed (use dirty_in [OF assms(1,2)] assms(3) in simp)

lemma bio_abs_held:
  assumes "bio_abs s v h d" and "holds s b k" and "buf_key q = k" and "buf_ok (bme s) (v(k := bdata q)) q"
    and "\<And>k'. k' \<noteq> k \<Longrightarrow> D k' = disk s k'" and "locked (block q)"
  shows "bio_abs (s\<lparr>bufs := (bufs s)(b := q), disk := D, bwrites := W\<rparr>) (v(k := bdata q)) h (if bdirty q then insert k d else d - {k})"
  using bio_abs_same_block [OF assms(1) holds_dev [OF assms(1,2)] assms(3-5)] holds_in [OF assms(1,2)] assms(6)
  by (simp add: insert_absorb)

lemma modify_abs:
  assumes "bio_abs s v h d" and "holds s b k"
  shows "bio_abs (modify_buf b f s) (v(k := f (v k))) h d" and "holds (modify_buf b f s) c k' = holds s c k'"
proof -
  let ?q = "(bufs s b)\<lparr>bdata := f (bdata (bufs s b))\<rparr>"
  have "k \<in> d \<longleftrightarrow> bdirty (bufs s b)" using dirty_iff [OF assms(1)] holds_dev [OF assms] by blast
  moreover have "bio_abs (s\<lparr>bufs := (bufs s)(b := ?q), disk := disk s, bwrites := bwrites s\<rparr>) (v(k := bdata ?q)) h
      (if bdirty ?q then insert k d else d - {k})"
    using assms bio_absD(3) [OF assms(1), of b]
    by (intro bio_abs_held [OF assms]) (auto simp: holds_def buf_ok_def buf_key_def)
  moreover have "s\<lparr>bufs := (bufs s)(b := ?q), disk := disk s, bwrites := bwrites s\<rparr> = modify_buf b f s"
    by (simp add: modify_buf_def bupd_def)
  ultimately show "bio_abs (modify_buf b f s) (v(k := f (v k))) h d"
    using holds_data [OF assms] by (simp split: if_splits add: insert_absorb)
  show "holds (modify_buf b f s) c k' = holds s c k'" by (simp add: holds_def modify_buf_def bupd_def buf_key_def)
qed

lemma bwrite_abs:
  assumes "bio_abs s v h d" and "holds s b k" and "unat (snd k) < FSSIZE"
  obtains s' where "bwrite b s = Inr s'" and "bio_abs s' v h (d - {k})" and "evolves s s' [(k, v k)]"
    and "\<And>c k'. holds s' c k' = holds s c k'"
proof
  let ?q = "(bufs s b)\<lparr>bvalid := True, bdirty := False\<rparr>"
  let ?s = "s\<lparr>bufs := (bufs s)(b := ?q), disk := (disk s)(k := v k), bwrites := bwrites s @ [(k, v k)]\<rparr>"
  have k: "buf_key (bufs s b) = k" using assms(2) by (simp add: holds_def)
  note d = holds_data [OF assms(1,2)]
  show "bwrite b s = Inr ?s"
    using holds_me [OF assms(1,2)] bio_absD(2) [OF assms(1)] assms(3) k d
    by (auto simp: bwrite_def iderw_def bupd_def held_by_me_def buf_key_def)
  have "bio_abs ?s (v(k := bdata ?q)) h (if bdirty ?q then insert k d else d - {k})"
    using assms bio_absD(3) [OF assms(1), of b]
    by (intro bio_abs_held [OF assms(1,2)]) (auto simp: holds_def buf_ok_def buf_key_def)
  then show "bio_abs ?s v h (d - {k})" using d by simp
  show "evolves s ?s [(k, v k)]"
    unfolding evolves_def by (intro exI [of _ "bufs ?s"] exI [of _ "lru s"]) (simp add: apply_writes_def)
  show "holds ?s c k' = holds s c k'" for c k' by (simp add: holds_def buf_key_def)
qed

lemma bwrite_step:
  assumes "bio_abs s v h d" and "holds s b k" and "unat (snd k) < FSSIZE"
  shows "\<exists>s'. bwrite b s = Inr s' \<and> bio_abs s' v h (d - {k}) \<and> evolves s s' [(k, v k)] \<and> (\<forall>c k'. holds s' c k' = holds s c k')"
  by (rule bwrite_abs [OF assms]) blast

lemma dirty_abs:
  assumes "bio_abs s v h d" and "holds s b k"
  shows "bio_abs (bupd b (\<lambda>q. q\<lparr>bdirty := True\<rparr>) s) v h (insert k d)"
    and "holds (bupd b (\<lambda>q. q\<lparr>bdirty := True\<rparr>) s) c k' = holds s c k'"
proof -
  let ?q = "(bufs s b)\<lparr>bdirty := True\<rparr>"
  have "bio_abs (s\<lparr>bufs := (bufs s)(b := ?q), disk := disk s, bwrites := bwrites s\<rparr>) (v(k := bdata ?q)) h
      (if bdirty ?q then insert k d else d - {k})"
    using assms bio_absD(3) [OF assms(1), of b]
    by (intro bio_abs_held [OF assms]) (auto simp: holds_def buf_ok_def buf_key_def)
  then show "bio_abs (bupd b (\<lambda>q. q\<lparr>bdirty := True\<rparr>) s) v h (insert k d)"
    using holds_data [OF assms] by (simp add: bupd_def)
  show "holds (bupd b (\<lambda>q. q\<lparr>bdirty := True\<rparr>) s) c k' = holds s c k'" by (simp add: holds_def bupd_def buf_key_def)
qed

lemma bio_abs_lru:
  assumes "bio_abs s v h d" and "lru_ok lk bs"
  shows "bio_abs (s\<lparr>lru := lk\<rparr>) v h d"
  using bio_absD [OF assms(1)] assms(2) by (intro bio_absI [of _ bs]) simp_all

lemma brelse_abs:
  assumes "bio_abs s v h d" and "holds s b k" and "k \<in> d \<or> v k = disk s k"
  obtains s' where "brelse b s = Inr s'" and "bio_abs s' v (h - {k}) d" and "evolves s s' []"
    and "\<And>c k'. c \<noteq> b \<Longrightarrow> holds s' c k' = holds s c k'"
proof -
  let ?q = "(bufs s b)\<lparr>block := drop_sleeplock (block (bufs s b)), refcnt := 0\<rparr>"
  let ?s = "s\<lparr>bufs := (bufs s)(b := ?q)\<rparr>"
  have b: "b < NBUF" "buf_key (bufs s b) = k" "locked (block (bufs s b))" using assms(2) by (simp_all add: holds_def)
  note ok = bio_absD(3) [OF assms(1) b(1)] and kd = dirty_iff [OF assms(1) b(1,2)] and dev = holds_dev [OF assms(1,2)]
  have "bio_abs (s\<lparr>bufs := (bufs s)(b := ?q), disk := disk s, bwrites := bwrites s\<rparr>) (v(k := bdata ?q))
      (if locked (block ?q) then insert k h else h - {k}) (if bdirty ?q then insert k d else d - {k})"
  proof (rule bio_abs_same_block [OF assms(1) dev])
    show "buf_key ?q = k" using b(2) by (simp add: buf_key_def)
    then show "buf_ok (bme s) (v(k := bdata ?q)) ?q" using ok by (simp add: buf_ok_def drop_sleeplock_def)
    show "locked (block ?q) \<or> bdirty ?q \<or> bdata ?q = disk s k" using kd dev assms(3) holds_data [OF assms(1,2)] by auto
  qed simp
  then have a: "bio_abs ?s v (h - {k}) d"
    using kd dev holds_data [OF assms(1,2)] by (simp add: drop_sleeplock_def insert_absorb split: if_splits)
  obtain bs where bs: "lru_ok (lru s) bs" using bio_absD(1) [OF assms(1)] by auto
  from lru_move_ok [OF bs b(1)] obtain lk1 lk2 bs' where
    lk: "lru_unlink b (lru s) = Inr lk1" "lru_front b lk1 = Inr lk2" "lru_ok lk2 bs'" by auto
  have "brelse b s = Inr (?s\<lparr>lru := lk2\<rparr>)"
    using holds_me [OF assms(1,2)] b(3) ok lk(1,2) by (simp add: brelse_def bupd_def on_lru_def buf_ok_def)
  moreover have "evolves s (?s\<lparr>lru := lk2\<rparr>) []"
    unfolding evolves_def by (intro exI [of _ "bufs ?s"] exI [of _ lk2]) (simp add: apply_writes_def)
  moreover have "holds (?s\<lparr>lru := lk2\<rparr>) c k' = holds s c k'" if "c \<noteq> b" for c k'
    using that by (simp add: holds_def)
  ultimately show thesis using that bio_abs_lru [OF a lk(3)] by blast
qed


lemma brelse_step:
  assumes "bio_abs s v h d" and "holds s b k" and "k \<in> d \<or> v k = disk s k"
  shows "\<exists>s'. brelse b s = Inr s' \<and> bio_abs s' v (h - {k}) d \<and> evolves s s' [] \<and>
    (\<forall>c k'. c \<noteq> b \<longrightarrow> holds s' c k' = holds s c k')"
  by (rule brelse_abs [OF assms]) blast

subsection \<open>Booting\<close>

definition zero_buf :: buf where
  "zero_buf = \<lparr>bvalid = False, bdirty = False, bdev = 0, blockno = 0, block = initsleeplock, refcnt = 0, bdata = replicate BSIZE 0\<rparr>"

lemma binit_loop:
  assumes "dlist (lru s) Bhead []" and "bufs s = (\<lambda>_. zero_buf)" and "n \<le> NBUF"
  shows "\<exists>lk. rfold (\<lambda>b s. on_lru (lru_front b) (bupd b (\<lambda>q. q\<lparr>block := initsleeplock\<rparr>) s)) [0..<n] s = Inr (s\<lparr>lru := lk\<rparr>) \<and>
    dlist lk Bhead (map Buf (rev [0..<n]))"
  using assms(3)
proof (induction n)
  case 0
  then show ?case using assms(1) by (intro exI [of _ "lru s"]) simp
next
  case (Suc n)
  then obtain lk where lk: "rfold (\<lambda>b s. on_lru (lru_front b) (bupd b (\<lambda>q. q\<lparr>block := initsleeplock\<rparr>) s)) [0..<n] s = Inr (s\<lparr>lru := lk\<rparr>)"
    "dlist lk Bhead (map Buf (rev [0..<n]))" by auto
  from lru_front_ok [OF lk(2), of n] obtain lk' where "lru_front n lk = Inr lk'" "dlist lk' Bhead (map Buf (rev [0..<Suc n]))" by auto
  moreover have "bupd n (\<lambda>q. q\<lparr>block := initsleeplock\<rparr>) (s\<lparr>lru := lk\<rparr>) = s\<lparr>lru := lk\<rparr>"
    using assms(2) by (simp add: bupd_def zero_buf_def fun_upd_idem)
  ultimately show ?case using lk(1) by (intro exI [of _ lk']) (simp add: rfold_append on_lru_def)
qed

lemma binit_abs:
  assumes "bufs s = (\<lambda>_. zero_buf)" and "havedisk1 s"
  obtains s' where "binit s = Inr s'" and "bio_abs s' (disk s) {} {}" and "evolves s s' []"
proof -
  let ?s = "s\<lparr>lru := set_nxt Bhead (Some Bhead) (set_prv Bhead (Some Bhead) (lru s))\<rparr>"
  have "dlist (lru ?s) Bhead []" by (simp add: dlist_def)
  from binit_loop [OF this, of NBUF] assms(1) obtain lk where lk: "binit s = Inr (?s\<lparr>lru := lk\<rparr>)"
    "dlist lk Bhead (map Buf (rev [0..<NBUF]))" by (auto simp: binit_def Let_def simp del: upt_rec_numeral rfold.simps)
  have l: "lru_ok lk (rev [0..<NBUF])" using lk(2) by (auto simp: lru_ok_def)
  have z: "bvalid zero_buf = False" "bdirty zero_buf = False" "bdev zero_buf = 0" "refcnt zero_buf = 0" "locked (block zero_buf) = False"
    by (simp_all add: zero_buf_def initsleeplock_def)
  have "bio_abs (?s\<lparr>lru := lk\<rparr>) (disk s) {} {}"
    using l assms by (intro bio_absI) (auto simp: buf_ok_def keys_def z simp del: upt_rec_numeral)
  moreover have "evolves s (?s\<lparr>lru := lk\<rparr>) []"
    unfolding evolves_def by (intro exI [of _ "bufs s"] exI [of _ lk]) (simp add: apply_writes_def)
  ultimately show thesis using that lk(1) by blast
qed

subsection \<open>The cache as a whole\<close>

lemma modify_evolves: "evolves s (modify_buf b f s) []"
  unfolding evolves_def by (intro exI [of _ "bufs (modify_buf b f s)"] exI [of _ "lru s"])
    (simp add: apply_writes_def modify_buf_def bupd_def)

lemma evolves_disk: "evolves s s' ws \<Longrightarrow> disk s' = apply_writes ws (disk s) \<and> bwrites s' = bwrites s @ ws \<and> bme s' = bme s"
  by (auto simp: evolves_def)

lemma bread_locked:
  assumes "bio_abs s v h d" and "dev \<noteq> 0" and "(dev, bno) \<in> h"
  shows "bread dev bno s = Inl Blocks"
proof -
  obtain bs where bs: "lru_ok (lru s) bs" using bio_absD(1) [OF assms(1)] by auto
  from assms(3) obtain i where i: "i < NBUF" "locked (block (bufs s i))" "buf_key (bufs s i) = (dev, bno)"
    unfolding bio_absD(5) [OF assms(1)] keys_def by auto
  have "find (\<lambda>b. buf_key (bufs s b) = (dev, bno)) bs \<noteq> None" using bs i by (auto simp: find_None_iff lru_ok_def)
  then obtain b where f: "find (\<lambda>b. buf_key (bufs s b) = (dev, bno)) bs = Some b" by auto
  note b = bget_found [OF assms(1) bs f]
  have "i = b" using bio_absD(4) [OF assms(1) i(1) b(1)] i(3) b(2) assms(2) by (simp add: buf_key_def)
  moreover have "bget_scan (Suc NBUF) (dev, bno) (nxt (lru s Bhead)) s = Inr (Some b)"
    using bs f lru_ok_length [OF bs] by (subst bget_scan_eq [of s Bhead bs]) (auto simp: lru_ok_def dlist_def)
  ultimately show ?thesis using i(2)
    by (simp add: bread_def bget_def lock_buf_def bupd_def take_sleeplock_def del: bget_scan.simps)
qed

lemma bread_full:
  assumes "bio_abs s v h d" and "(dev, bno) \<notin> h \<union> d" and "card (h \<union> d) = NBUF"
  shows "bread dev bno s = Inl (Panic ''bget: no buffers'')"
proof -
  let ?B = "{i. i < NBUF \<and> (locked (block (bufs s i)) \<or> bdirty (bufs s i))}"
  have e: "h \<union> d = (\<lambda>i. buf_key (bufs s i)) ` ?B"
    unfolding bio_absD(5,6) [OF assms(1)] keys_def by blast
  have "card (h \<union> d) \<le> card ?B" unfolding e by (rule card_image_le) simp
  then have "NBUF \<le> card ?B" using assms(3) by simp
  moreover have "?B \<subseteq> {..<NBUF}" by auto
  ultimately have "?B = {..<NBUF}" using card_subset_eq [of "{..<NBUF}" ?B] card_mono [of "{..<NBUF}" ?B] by simp
  then have busy: "locked (block (bufs s i)) \<or> bdirty (bufs s i)" if "i < NBUF" for i using that by blast
  obtain bs where bs: "lru_ok (lru s) bs" using bio_absD(1) [OF assms(1)] by auto
  have 1: "find (\<lambda>b. buf_key (bufs s b) = (dev, bno)) bs = None"
    unfolding find_None_iff using bs busy assms(2) locked_in [OF assms(1)] dirty_in [OF assms(1)] unfolding lru_ok_def
    by (metis UnI1 UnI2 lessThan_iff)
  have 2: "find (\<lambda>b. refcnt (bufs s b) = 0 \<and> \<not> bdirty (bufs s b)) (rev bs) = None"
    using bs busy refcnt_zero [OF bio_absD(3) [OF assms(1)]] by (auto simp: find_None_iff lru_ok_def)
  have "bget_scan (Suc NBUF) (dev, bno) (nxt (lru s Bhead)) s = Inr None"
    using bs 1 lru_ok_length [OF bs] by (subst bget_scan_eq [of s Bhead bs]) (auto simp: lru_ok_def dlist_def)
  moreover have "bget_recycle (Suc NBUF) (prv (lru s Bhead)) s = Inr None"
    using bs 2 lru_ok_length [OF bs] by (subst bget_recycle_eq [of s bs Bhead]) (auto simp: lru_ok_def dlist_def)
  ultimately show ?thesis by (simp add: bread_def bget_def del: bget_scan.simps bget_recycle.simps)
qed

text \<open>
  C28. The buffer cache implements a disk whose blocks can be locked, changed and written. Reading a block that is not locked, while a buffer can be
  found for it, returns its current contents, wherever they are; after a change and \<open>bwrite\<close> the disk holds the changed block, \<open>brelse\<close> gives the
  block back, no other block changes, and the cache stays a faithful view. Reading a block that the thread has already locked waits for ever,
  and reading a new block while all buffers are locked or dirty panics.
\<close>

theorem cache_read_write:
  assumes "bio_abs s v h d" and "dev \<noteq> 0" and "unat bno < FSSIZE"
  shows "((dev, bno) \<notin> h \<and> card (h \<union> d) < NBUF \<longrightarrow>
      (\<exists>b s1 s2 s3. bread dev bno s = Inr (b, s1) \<and> bdata (bufs s1 b) = v (dev, bno) \<and> bio_abs s1 v (insert (dev, bno) h) d \<and>
         bwrite b (modify_buf b f s1) = Inr s2 \<and> disk s2 = (disk s)((dev, bno) := f (v (dev, bno))) \<and>
         brelse b s2 = Inr s3 \<and> bio_abs s3 (v((dev, bno) := f (v (dev, bno)))) h (d - {(dev, bno)}))) \<and>
    ((dev, bno) \<in> h \<longrightarrow> bread dev bno s = Inl Blocks) \<and>
    ((dev, bno) \<notin> h \<union> d \<and> card (h \<union> d) = NBUF \<longrightarrow> bread dev bno s = Inl (Panic ''bget: no buffers''))"
proof (intro conjI impI)
  let ?k = "(dev, bno)"
  assume k: "?k \<notin> h \<and> card (h \<union> d) < NBUF"
  from bread_abs [OF assms(1,2) _ assms(3)] k obtain b s1 where
    s1: "bread dev bno s = Inr (b, s1)" "bio_abs s1 v (insert ?k h) d" "holds s1 b ?k" "evolves s s1 []" by metis
  note m = modify_abs [OF s1(2,3)]
  have "holds (modify_buf b f s1) b ?k" using s1(3) m(2) by simp
  then obtain s2 where
    s2: "bwrite b (modify_buf b f s1) = Inr s2" "bio_abs s2 (v(?k := f (v ?k))) (insert ?k h) (d - {?k})"
      "evolves (modify_buf b f s1) s2 [(?k, f (v ?k))]" "holds s2 b ?k"
    using bwrite_step [OF m(1)] assms(3) by fastforce
  have d: "disk s2 = (disk s)(?k := f (v ?k))"
    using evolves_disk [OF evolves_trans [OF s1(4) evolves_trans [OF modify_evolves s2(3)]]] by (simp add: apply_writes_def)
  from brelse_step [OF s2(2,4)] d obtain s3 where
    "brelse b s2 = Inr s3" "bio_abs s3 (v(?k := f (v ?k))) (insert ?k h - {?k}) (d - {?k})" by auto
  moreover have "insert ?k h - {?k} = h" using k by auto
  ultimately show "\<exists>b s1 s2 s3. bread dev bno s = Inr (b, s1) \<and> bdata (bufs s1 b) = v ?k \<and> bio_abs s1 v (insert ?k h) d \<and>
         bwrite b (modify_buf b f s1) = Inr s2 \<and> disk s2 = (disk s)(?k := f (v ?k)) \<and>
         brelse b s2 = Inr s3 \<and> bio_abs s3 (v(?k := f (v ?k))) h (d - {?k})"
    using s1(1,2) s2(1) d holds_data [OF s1(2,3)] by metis
qed (use bread_locked [OF assms(1,2)] bread_full [OF assms(1)] in auto)

definition boot_bio :: bio where
  "boot_bio = \<lparr>bufs = (\<lambda>_. zero_buf), lru = (\<lambda>_. \<lparr>prv = None, nxt = None\<rparr>), disk = (\<lambda>k. replicate BSIZE (ucast (snd k))), bwrites = [],
     bme = (1, 1), havedisk1 = True\<rparr>"

theorem cache_read_write_witness:
  "\<exists>s b s1 s2. binit boot_bio = Inr s \<and> bread 1 7 s = Inr (b, s1) \<and> bdata (bufs s1 b) = replicate BSIZE 7 \<and>
     bwrite b (modify_buf b (map (\<lambda>x. x + 1)) s1) = Inr s2 \<and> disk s2 (1, 7) = replicate BSIZE 8"
proof -
  obtain s where s: "binit boot_bio = Inr s" "bio_abs s (disk boot_bio) {} {}"
    using binit_abs [of boot_bio] by (auto simp: boot_bio_def)
  show ?thesis using cache_read_write [OF s(2), of 1 7 "map (\<lambda>x. x + 1)"] s(1) by (auto simp: boot_bio_def)
qed

end
