(* ===== verification/Log_Commit.thy ===== *)
theory Log_Commit
  imports Bio_Cache
begin

section \<open>Commit and recovery\<close>

text \<open>
  The log of \<open>Log\<close> on the buffer cache. Each step of a commit is shown to perform a known list of disk writes (\<open>evolves\<close>) and to change the contents of the
  blocks accordingly; \<open>commit_writes\<close> is the list of a whole commit. A crash leaves the disk with a prefix of that list applied; the main theorem is that recovery from every such
  disk gives all of the transaction or nothing of it.
\<close>

subsection \<open>The header block\<close>

lemma length_put_head_fold:
  "4 * Suc (length bs) \<le> length d \<Longrightarrow> n \<le> length bs \<Longrightarrow> length (fold (\<lambda>i. put32 (Suc i) (bs ! i)) [0..<n] d) = length d"
  by (induction n) (simp_all add: length_put32)

lemma get_put_head_fold:
  "4 * Suc (length bs) \<le> length d \<Longrightarrow> n \<le> length bs \<Longrightarrow>
   get32 j (fold (\<lambda>i. put32 (Suc i) (bs ! i)) [0..<n] d) = (if 0 < j \<and> j \<le> n then bs ! (j - 1) else get32 j d)"
proof (induction n)
  case (Suc n)
  then show ?case
    by (cases "j = Suc n") (auto simp: get32_put32 get32_put32_other length_put_head_fold)
qed auto

lemma sint_small: "n \<le> 30 \<Longrightarrow> sint (of_nat n :: u32) = int n"
  by (simp add: signed_of_nat signed_take_bit_int_eq_self)

lemma head_of_put_head:
  assumes "length bs \<le> 30" and "length d = BSIZE"
  shows "head_of (put_head bs d) = Inr bs" and "length (put_head bs d) = BSIZE"
proof -
  let ?d = "put32 0 (of_nat (length bs)) d"
  have d: "length ?d = BSIZE" using assms(2) by (simp add: length_put32)
  have g: "get32 j (put_head bs d) = (if 0 < j \<and> j \<le> length bs then bs ! (j - 1) else get32 j ?d)" for j
    using get_put_head_fold [of bs ?d "length bs" j] d assms(1) by (simp add: put_head_def)
  have "sint (get32 0 (put_head bs d)) = int (length bs)"
    using g [of 0] assms by (simp add: get32_put32 sint_small)
  moreover have "map (\<lambda>i. get32 (Suc i) (put_head bs d)) [0..<length bs] = bs"
    by (rule nth_equalityI) (simp_all add: g)
  ultimately show "head_of (put_head bs d) = Inr bs" using assms(1) by (simp add: head_of_def Let_def)
  show "length (put_head bs d) = BSIZE"
    using length_put_head_fold [of bs ?d "length bs"] d assms(1) by (simp add: put_head_def)
qed


subsection \<open>The steps of a commit\<close>

text \<open>The blocks of the log: its header and the copy of the \<open>i\<close>-th block of the transaction.\<close>

definition head_key :: "'a log_scheme \<Rightarrow> bkey" where
  "head_key s = (ldev s, lstart s)"

definition copy_key :: "'a log_scheme \<Rightarrow> nat \<Rightarrow> bkey" where
  "copy_key s i = (ldev s, lstart s + of_nat i + 1)"

definition home_key :: "'a log_scheme \<Rightarrow> nat \<Rightarrow> bkey" where
  "home_key s i = (ldev s, lh s ! i)"

lemma evolves_log:
  "evolves s s' ws \<Longrightarrow> lh s' = lh s \<and> ldev s' = ldev s \<and> lstart s' = lstart s \<and> lsize s' = lsize s \<and>
    loutstanding s' = loutstanding s \<and> committing s' = committing s"
  by (auto simp: evolves_def)

lemma evolves_keys:
  "evolves s s' ws \<Longrightarrow> head_key s' = head_key s \<and> copy_key s' i = copy_key s i \<and> home_key s' i = home_key s i"
  using evolves_log [of s s' ws] by (simp add: head_key_def copy_key_def home_key_def)

lemma apply_writes_simps [simp]:
  "apply_writes [] v = v" "apply_writes ((k, x) # ws) v = apply_writes ws (v(k := x))"
  "apply_writes (ws @ ws') v = apply_writes ws' (apply_writes ws v)"
  by (simp_all add: apply_writes_def)

lemma two_reads:
  assumes a: "bio_abs s v {} d" and dev: "dev \<noteq> 0" and ne: "l \<noteq> m" and lim: "unat l < FSSIZE" "unat m < FSSIZE"
    and room: "card d < NBUF" "(dev, m) \<in> d \<or> Suc (card d) < NBUF"
  shows "\<exists>lb s1 mb s2. bread dev l s = Inr (lb, s1) \<and> bread dev m s1 = Inr (mb, s2) \<and>
    bio_abs s2 v {(dev, l), (dev, m)} d \<and> holds s2 lb (dev, l) \<and> holds s2 mb (dev, m) \<and> lb \<noteq> mb \<and> evolves s s1 [] \<and> evolves s s2 []"
proof -
  have f: "finite d" using bio_absD(6) [OF a] by (simp add: keys_def)
  obtain lb s1 where s1: "bread dev l s = Inr (lb, s1)" "bio_abs s1 v {(dev, l)} d" "holds s1 lb (dev, l)" "evolves s s1 []"
    using bread_step [OF a dev _ lim(1)] room(1) by auto
  have "(dev, m) \<in> d \<or> card ({(dev, l)} \<union> d) < NBUF"
    using room(2) f by (auto simp: card_insert_if)
  then obtain mb s2 where s2: "bread dev m s1 = Inr (mb, s2)" "bio_abs s2 v (insert (dev, m) {(dev, l)}) d" "holds s2 mb (dev, m)" "evolves s1 s2 []"
      "holds s2 lb (dev, l)" "lb \<noteq> mb"
    using bread_step [OF s1(2) dev _ lim(2)] ne s1(3) by fastforce
  have "evolves s s2 []" using evolves_trans [OF s1(4) s2(4)] by simp
  then show ?thesis using s1 s2 by (auto simp: insert_commute)
qed


lemma copy_and_release:
  assumes a: "bio_abs s v {S, T} d" and h: "holds s fb S" "holds s tb T" and ne: "S \<noteq> T" "fb \<noteq> tb" and lim: "unat (snd T) < FSSIZE"
    and clean: "S \<in> d \<or> v S = disk s S"
  shows "\<exists>s'. rbind (bwrite tb (modify_buf tb (\<lambda>_. bdata (bufs s fb)) s)) (\<lambda>s. rbind (brelse fb s) (brelse tb)) = Inr s' \<and>
    bio_abs s' (v(T := v S)) {} (d - {T}) \<and> evolves s s' [(T, v S)]"
proof -
  have x: "bdata (bufs s fb) = v S" by (rule holds_data [OF a h(1)])
  let ?s = "modify_buf tb (\<lambda>_. bdata (bufs s fb)) s"
  have m: "bio_abs ?s (v(T := v S)) {S, T} d" "holds ?s c k = holds s c k" for c k
    using modify_abs [OF a h(2), of "\<lambda>_. bdata (bufs s fb)"] x by simp_all
  have ht: "holds ?s tb T" using m(2) h(2) by simp
  obtain s1 where s1: "bwrite tb ?s = Inr s1" "bio_abs s1 (v(T := v S)) {S, T} (d - {T})" "evolves ?s s1 [(T, (v(T := v S)) T)]"
      and keep: "\<forall>c k. holds s1 c k = holds ?s c k"
    using bwrite_step [OF m(1) ht lim] by blast
  have hs: "holds s1 fb S" "holds s1 tb T" using keep m(2) h by blast+
  have e1: "evolves s s1 [(T, v S)]" using evolves_trans [OF modify_evolves s1(3)] by simp
  then have d1: "disk s1 = (disk s)(T := v S)" using evolves_disk by fastforce
  obtain s2 where s2: "brelse fb s1 = Inr s2" "bio_abs s2 (v(T := v S)) ({S, T} - {S}) (d - {T})" "evolves s1 s2 []" "holds s2 tb T"
  proof -
    have "S \<in> d - {T} \<or> (v(T := v S)) S = disk s1 S" using clean d1 ne by auto
    from brelse_step [OF s1(2) hs(1) this] hs(2) ne(2) that show thesis by metis
  qed
  have d2: "disk s2 = (disk s)(T := v S)" using evolves_disk [OF s2(3)] d1 by simp
  obtain s3 where s3: "brelse tb s2 = Inr s3" "bio_abs s3 (v(T := v S)) ({S, T} - {S} - {T}) (d - {T})" "evolves s2 s3 []"
    using brelse_step [OF s2(2,4)] d2 by auto
  have "evolves s s3 [(T, v S)]" using evolves_trans [OF e1 evolves_trans [OF s2(3) s3(3)]] by simp
  moreover have "bio_abs s3 (v(T := v S)) {} (d - {T})"
  proof -
    have "{S, T} - {S} - {T} = {}" by auto
    with s3(2) show ?thesis by (simp only:)
  qed
  ultimately show ?thesis using s1(1) s2(1) s3(1) by auto
qed

text \<open>What the log relies on while it copies: the block of the transaction and its copy are different and lie on the disk.\<close>

definition slot_ok :: "'a log_scheme \<Rightarrow> nat \<Rightarrow> bool" where
  "slot_ok s i = (ldev s \<noteq> 0 \<and> copy_key s i \<noteq> home_key s i \<and> unat (snd (copy_key s i)) < FSSIZE \<and> unat (snd (home_key s i)) < FSSIZE)"

lemma install_one_abs:
  assumes a: "bio_abs s v {} d" and ok: "slot_ok s i" and c: "copy_key s i \<notin> d"
    and room: "card d < NBUF" "home_key s i \<in> d \<or> Suc (card d) < NBUF"
  shows "\<exists>s'. install_one i s = Inr s' \<and> bio_abs s' (v(home_key s i := v (copy_key s i))) {} (d - {home_key s i}) \<and>
    evolves s s' [(home_key s i, v (copy_key s i))]"
proof -
  obtain lb s1 mb s2 where r: "bread (ldev s) (lstart s + of_nat i + 1) s = Inr (lb, s1)" "bread (ldev s) (lh s ! i) s1 = Inr (mb, s2)"
    "bio_abs s2 v {copy_key s i, home_key s i} d" "holds s2 lb (copy_key s i)" "holds s2 mb (home_key s i)" "lb \<noteq> mb"
    "evolves s s1 []" "evolves s s2 []"
    using two_reads [OF a, of "ldev s" "lstart s + of_nat i + 1" "lh s ! i"] ok room
    unfolding slot_ok_def copy_key_def home_key_def by auto
  have "v (copy_key s i) = disk s2 (copy_key s i)"
    using bio_absD(7) [OF a] c evolves_disk [OF r(8)] by auto
  then obtain s' where s': "rbind (bwrite mb (modify_buf mb (\<lambda>_. bdata (bufs s2 lb)) s2)) (\<lambda>s. rbind (brelse lb s) (brelse mb)) = Inr s'"
    "bio_abs s' (v(home_key s i := v (copy_key s i))) {} (d - {home_key s i})" "evolves s2 s' [(home_key s i, v (copy_key s i))]"
    using copy_and_release [OF r(3-5)] r(6) ok by (auto simp: slot_ok_def)
  have "install_one i s = Inr s'" using r(1,2) s'(1) evolves_log [OF r(7)] by (simp add: install_one_def Let_def)
  with s'(2) evolves_trans [OF r(8) s'(3)] show ?thesis by simp
qed

lemma write_log_one_abs:
  assumes a: "bio_abs s v {} d" and ok: "slot_ok s i" and c: "copy_key s i \<notin> d" and room: "card d < NBUF" "home_key s i \<in> d"
  shows "\<exists>s'. write_log_one i s = Inr s' \<and> bio_abs s' (v(copy_key s i := v (home_key s i))) {} d \<and>
    evolves s s' [(copy_key s i, v (home_key s i))]"
proof -
  obtain lb s1 mb s2 where r: "bread (ldev s) (lstart s + of_nat i + 1) s = Inr (lb, s1)" "bread (ldev s) (lh s ! i) s1 = Inr (mb, s2)"
    "bio_abs s2 v {copy_key s i, home_key s i} d" "holds s2 lb (copy_key s i)" "holds s2 mb (home_key s i)" "lb \<noteq> mb"
    "evolves s s1 []" "evolves s s2 []"
    using two_reads [OF a, of "ldev s" "lstart s + of_nat i + 1" "lh s ! i"] ok room
    unfolding slot_ok_def copy_key_def home_key_def by auto
  have a2: "bio_abs s2 v {home_key s i, copy_key s i} d" using r(3) by (simp add: insert_commute)
  obtain s' where s': "rbind (bwrite lb (modify_buf lb (\<lambda>_. bdata (bufs s2 mb)) s2)) (\<lambda>s. rbind (brelse mb s) (brelse lb)) = Inr s'"
    "bio_abs s' (v(copy_key s i := v (home_key s i))) {} (d - {copy_key s i})" "evolves s2 s' [(copy_key s i, v (home_key s i))]"
    using copy_and_release [OF a2 r(5,4)] r(6) ok room(2) by (auto simp: slot_ok_def)
  have "write_log_one i s = Inr s'" using r(1,2) s'(1) evolves_log [OF r(7)] by (simp add: write_log_one_def Let_def)
  with s'(2) evolves_trans [OF r(8) s'(3)] c show ?thesis by simp
qed

lemma write_head_abs:
  assumes a: "bio_abs s v {} d" and ok: "ldev s \<noteq> 0" "unat (lstart s) < FSSIZE" "card d < NBUF" and c: "head_key s \<notin> d"
  shows "\<exists>s'. write_head s = Inr s' \<and> bio_abs s' (v(head_key s := put_head (lh s) (v (head_key s)))) {} d \<and>
    evolves s s' [(head_key s, put_head (lh s) (v (head_key s)))]"
proof -
  obtain b s1 where s1: "bread (ldev s) (lstart s) s = Inr (b, s1)" "bio_abs s1 v {head_key s} d" "holds s1 b (head_key s)" "evolves s s1 []"
    using bread_step [OF a ok(1) _ ok(2)] ok(3) by (auto simp: head_key_def)
  let ?x = "put_head (lh s) (v (head_key s))"
  let ?s = "modify_buf b (put_head (lh s)) s1"
  have m: "bio_abs ?s (v(head_key s := ?x)) {head_key s} d" "holds ?s c k = holds s1 c k" for c k
    using modify_abs [OF s1(2,3), of "put_head (lh s)"] by simp_all
  have hb: "holds ?s b (head_key s)" "unat (snd (head_key s)) < FSSIZE" using m(2) s1(3) ok(2) by (simp_all add: head_key_def)
  obtain s2 where s2: "bwrite b ?s = Inr s2" "bio_abs s2 (v(head_key s := ?x)) {head_key s} (d - {head_key s})"
      "evolves ?s s2 [(head_key s, (v(head_key s := ?x)) (head_key s))]" "holds s2 b (head_key s)"
    using bwrite_step [OF m(1) hb] hb by blast
  have e: "evolves s s2 [(head_key s, ?x)]" using evolves_trans [OF s1(4) evolves_trans [OF modify_evolves s2(3)]] by simp
  obtain s3 where s3: "brelse b s2 = Inr s3" "bio_abs s3 (v(head_key s := ?x)) ({head_key s} - {head_key s}) (d - {head_key s})" "evolves s2 s3 []"
    using brelse_step [OF s2(2,4)] evolves_disk [OF e] by auto
  have "write_head s = Inr s3" using s1(1) s2(1) s3(1) evolves_log [OF s1(4)] by (simp add: write_head_def)
  with s3 evolves_trans [OF e s3(3)] c show ?thesis by simp
qed

lemma brelse_lh: "brelse b s = Inr s' \<Longrightarrow> brelse b (s\<lparr>lh := x\<rparr>) = Inr (s'\<lparr>lh := x\<rparr>)"
  by (auto simp: brelse_def on_lru_def bupd_def Let_def res_simps split: if_splits)

lemma read_head_abs:
  assumes a: "bio_abs s v {} d" and ok: "ldev s \<noteq> 0" "unat (lstart s) < FSSIZE" "card d < NBUF" and c: "head_key s \<notin> d"
    and "head_of (v (head_key s)) = Inr bs"
  shows "\<exists>s'. read_head s = Inr (s'\<lparr>lh := bs\<rparr>) \<and> bio_abs (s'\<lparr>lh := bs\<rparr>) v {} d \<and> evolves s s' []"
proof -
  obtain b s1 where s1: "bread (ldev s) (lstart s) s = Inr (b, s1)" "bio_abs s1 v {head_key s} d" "holds s1 b (head_key s)" "evolves s s1 []"
    using bread_step [OF a ok(1) _ ok(2)] ok(3) by (auto simp: head_key_def)
  have d: "bdata (bufs s1 b) = v (head_key s)" by (rule holds_data [OF s1(2,3)])
  have v: "v (head_key s) = disk s1 (head_key s)" using bio_absD(7) [OF a] c evolves_disk [OF s1(4)] by auto
  obtain s2 where s2: "brelse b s1 = Inr s2" "bio_abs s2 v ({head_key s} - {head_key s}) d" "evolves s1 s2 []"
    using brelse_step [OF s1(2,3)] v by auto
  have "brelse b (s1\<lparr>lh := bs\<rparr>) = Inr (s2\<lparr>lh := bs\<rparr>)" using s2(1) by (rule brelse_lh)
  moreover have "bio_abs (s2\<lparr>lh := bs\<rparr>) v {} d" using s2(2) by (simp add: bio_abs_def)
  ultimately show ?thesis using s1(1) d assms(6) evolves_trans [OF s1(4) s2(3)] by (auto simp: read_head_def)
qed


subsection \<open>The loops\<close>

text \<open>
  The state of the log at a commit of \<open>n\<close> blocks: the header, the copies and the blocks of the transaction are all different and lie
  on the disk.
\<close>

definition log_layout :: "'a log_scheme \<Rightarrow> bool" where
  "log_layout s = (ldev s \<noteq> 0 \<and> unat (lstart s) + length (lh s) < FSSIZE \<and> distinct (lh s) \<and>
     (\<forall>b\<in>set (lh s). unat b < FSSIZE \<and> (unat b < unat (lstart s) \<or> unat (lstart s) + length (lh s) < unat b)))"

lemma copy_unat:
  assumes "log_layout s" and "i < length (lh s)"
  shows "unat (lstart s + of_nat i + 1) = unat (lstart s) + i + 1"
proof -
  have l: "unat (lstart s) + i + 1 < FSSIZE" using assms by (simp add: log_layout_def)
  then have "unat (lstart s + of_nat (Suc i)) = unat (lstart s) + Suc i"
    using unat_add_fits [of "lstart s" "of_nat (Suc i)"] unat_of_nat32 [of "Suc i"] by simp
  then show ?thesis by (simp add: algebra_simps)
qed

lemma log_keys:
  assumes "log_layout s" and "i < length (lh s)" and "j < length (lh s)"
  shows "copy_key s i = copy_key s j \<longleftrightarrow> i = j" and "home_key s i = home_key s j \<longleftrightarrow> i = j" and "copy_key s i \<noteq> home_key s j"
    and "head_key s \<noteq> copy_key s i" and "head_key s \<noteq> home_key s i" and "slot_ok s i"
proof -
  let ?c = "\<lambda>m. unat (snd (copy_key s m))" and ?h = "\<lambda>m. unat (snd (home_key s m))"
  have c: "?c m = unat (lstart s) + m + 1" if "m < length (lh s)" for m
    using copy_unat [OF assms(1) that] by (simp only: copy_key_def snd_conv)
  have h: "?h m < unat (lstart s) \<or> unat (lstart s) + length (lh s) < ?h m" "?h m < FSSIZE" if "m < length (lh s)" for m
    using assms(1) nth_mem [OF that] by (auto simp: log_layout_def home_key_def)
  have hd: "unat (snd (head_key s)) = unat (lstart s)" by (simp add: head_key_def)
  show "copy_key s i = copy_key s j \<longleftrightarrow> i = j" using c [OF assms(2)] c [OF assms(3)] by (metis add_left_cancel add_right_cancel)
  show "home_key s i = home_key s j \<longleftrightarrow> i = j" using assms by (simp add: home_key_def log_layout_def nth_eq_iff_index_eq)
  have "?c i \<noteq> ?h m" if "m < length (lh s)" for m using c [OF assms(2)] h(1) [OF that] assms(2) by linarith
  then have ch: "copy_key s i \<noteq> home_key s m" if "m < length (lh s)" for m using that by metis
  then show "copy_key s i \<noteq> home_key s j" using assms(3) by simp
  have "unat (snd (head_key s)) \<noteq> ?c i" "unat (snd (head_key s)) \<noteq> ?h i" using c [OF assms(2)] h(1) [OF assms(2)] hd by linarith+
  then show "head_key s \<noteq> copy_key s i" "head_key s \<noteq> home_key s i" by metis+
  have "?c i < FSSIZE" "ldev s \<noteq> 0" using c [OF assms(2)] assms(1,2) by (simp_all add: log_layout_def)
  then show "slot_ok s i" using ch [OF assms(2)] h(2) [OF assms(2)] by (simp add: slot_ok_def)
qed

lemma log_layout_evolves: "evolves s s' ws \<Longrightarrow> log_layout s' = log_layout s"
  using evolves_log [of s s' ws] by (simp add: log_layout_def)

definition copies :: "'a log_scheme \<Rightarrow> (bkey \<Rightarrow> u8 list) \<Rightarrow> nat \<Rightarrow> (bkey \<times> u8 list) list" where
  "copies s v n = map (\<lambda>i. (copy_key s i, v (home_key s i))) [0..<n]"

definition homes :: "'a log_scheme \<Rightarrow> (bkey \<Rightarrow> u8 list) \<Rightarrow> nat \<Rightarrow> (bkey \<times> u8 list) list" where
  "homes s v n = map (\<lambda>i. (home_key s i, v (copy_key s i))) [0..<n]"

lemma copies_Suc: "copies s v (Suc n) = copies s v n @ [(copy_key s n, v (home_key s n))]"
  by (simp add: copies_def)

lemma homes_Suc: "homes s v (Suc n) = homes s v n @ [(home_key s n, v (copy_key s n))]"
  by (simp add: homes_def)

lemma apply_writes_snoc: "apply_writes (ws @ [(k, x)]) v = (apply_writes ws v)(k := x)"
  by simp

lemma apply_writes_other: "k \<notin> fst ` set ws \<Longrightarrow> apply_writes ws v k = v k"
  by (induction ws arbitrary: v) auto

lemma apply_writes_at: "distinct (map fst ws) \<Longrightarrow> (k, x) \<in> set ws \<Longrightarrow> apply_writes ws v k = x"
  by (induction ws arbitrary: v) (auto simp: apply_writes_other)

lemma distinct_copies: "log_layout s \<Longrightarrow> n \<le> length (lh s) \<Longrightarrow> distinct (map fst (copies s v n))"
  by (auto simp: copies_def distinct_map comp_def inj_on_def log_keys)

lemma distinct_homes: "log_layout s \<Longrightarrow> n \<le> length (lh s) \<Longrightarrow> distinct (map fst (homes s v n))"
  by (auto simp: homes_def distinct_map comp_def inj_on_def log_keys)

lemma apply_copies:
  assumes "log_layout s" and "n \<le> length (lh s)"
  shows "i < n \<Longrightarrow> apply_writes (copies s w n) v (copy_key s i) = w (home_key s i)"
    and "(\<And>i. i < n \<Longrightarrow> k \<noteq> copy_key s i) \<Longrightarrow> apply_writes (copies s w n) v k = v k"
proof -
  show "i < n \<Longrightarrow> apply_writes (copies s w n) v (copy_key s i) = w (home_key s i)"
    by (intro apply_writes_at distinct_copies [OF assms]) (auto simp: copies_def)
  show "apply_writes (copies s w n) v k = v k" if "\<And>i. i < n \<Longrightarrow> k \<noteq> copy_key s i"
    using that by (intro apply_writes_other) (force simp: copies_def)
qed

lemma apply_homes:
  assumes "log_layout s" and "n \<le> length (lh s)"
  shows "i < n \<Longrightarrow> apply_writes (homes s w n) v (home_key s i) = w (copy_key s i)"
    and "(\<And>i. i < n \<Longrightarrow> k \<noteq> home_key s i) \<Longrightarrow> apply_writes (homes s w n) v k = v k"
proof -
  show "i < n \<Longrightarrow> apply_writes (homes s w n) v (home_key s i) = w (copy_key s i)"
    by (intro apply_writes_at distinct_homes [OF assms]) (auto simp: homes_def)
  show "apply_writes (homes s w n) v k = v k" if "\<And>i. i < n \<Longrightarrow> k \<noteq> home_key s i"
    using that by (intro apply_writes_other) (force simp: homes_def)
qed

lemma write_log_abs:
  assumes a: "bio_abs s v {} d" and ok: "log_layout s" and d: "d = home_key s ` {..<length (lh s)}" "card d < NBUF"
    and n: "n \<le> length (lh s)"
  shows "\<exists>s'. rfold write_log_one [0..<n] s = Inr s' \<and> bio_abs s' (apply_writes (copies s v n) v) {} d \<and> evolves s s' (copies s v n)"
  using n
proof (induction n)
  case 0
  then show ?case using a evolves_refl [of s] by (simp add: copies_def)
next
  case (Suc n)
  then obtain s1 where s1: "rfold write_log_one [0..<n] s = Inr s1" "bio_abs s1 (apply_writes (copies s v n) v) {} d" "evolves s s1 (copies s v n)"
    by auto
  have n: "n < length (lh s)" using Suc.prems by simp
  note e = evolves_keys [OF s1(3), of n]
  have "slot_ok s1 n" using log_keys(6) [OF _ n n] ok e evolves_log [OF s1(3)] by (simp add: slot_ok_def)
  moreover have "copy_key s n \<notin> d" "home_key s n \<in> d" using d(1) n log_keys(3) [OF ok n] by auto
  ultimately obtain s' where s': "write_log_one n s1 = Inr s'"
    "bio_abs s' ((apply_writes (copies s v n) v)(copy_key s n := apply_writes (copies s v n) v (home_key s n))) {} d"
    "evolves s1 s' [(copy_key s n, apply_writes (copies s v n) v (home_key s n))]"
    using write_log_one_abs [OF s1(2), of n] d(2) e by auto
  have "apply_writes (copies s v n) v (home_key s n) = v (home_key s n)"
  proof (rule apply_copies(2) [OF ok])
    fix i assume "i < n"
    then have "i < length (lh s)" using n by simp
    from log_keys(3) [OF ok this n] show "home_key s n \<noteq> copy_key s i" by simp
  qed (use n in simp)
  with s' have "bio_abs s' (apply_writes (copies s v (Suc n)) v) {} d" "evolves s s' (copies s v (Suc n))"
    using evolves_trans [OF s1(3) s'(3)] by (simp_all only: copies_Suc apply_writes_snoc)
  then show ?case using s1(1) s'(1) by (auto simp: rfold_append)
qed


lemma install_abs:
  assumes a: "bio_abs s v {} d" and ok: "log_layout s" and d: "d = home_key s ` {..<length (lh s)} \<and> card d < NBUF \<or> d = {}"
    and n: "n \<le> length (lh s)"
  shows "\<exists>s'. rfold install_one [0..<n] s = Inr s' \<and> bio_abs s' (apply_writes (homes s v n) v) {} (d - home_key s ` {..<n}) \<and>
    evolves s s' (homes s v n)"
  using n
proof (induction n)
  case 0
  then show ?case using a evolves_refl [of s] by (simp add: homes_def)
next
  case (Suc n)
  let ?v = "apply_writes (homes s v n) v" and ?d = "d - home_key s ` {..<n}"
  from Suc obtain s1 where s1: "rfold install_one [0..<n] s = Inr s1" "bio_abs s1 ?v {} ?d" "evolves s s1 (homes s v n)" by auto
  have n: "n < length (lh s)" using Suc.prems by simp
  note e = evolves_keys [OF s1(3), of n]
  have ok1: "slot_ok s1 n" using log_keys(6) [OF _ n n] ok e evolves_log [OF s1(3)] by (simp add: slot_ok_def)
  have c: "copy_key s n \<notin> ?d" using d n log_keys(3) [OF ok n] by auto
  have "home_key s n \<notin> home_key s ` {..<n}" using n log_keys(2) [OF ok n] by (metis imageE lessThan_iff less_irrefl less_trans)
  then have h: "home_key s n \<in> ?d \<or> Suc (card ?d) < NBUF" using d n by auto
  have "finite d" using d by auto
  then have r: "card ?d < NBUF" using d card_mono [of d ?d] by auto
  obtain s' where s': "install_one n s1 = Inr s'" "bio_abs s' (?v(home_key s n := ?v (copy_key s n))) {} (?d - {home_key s n})"
    "evolves s1 s' [(home_key s n, ?v (copy_key s n))]"
    using install_one_abs [OF s1(2) ok1] c h r e by auto
  have "?v (copy_key s n) = v (copy_key s n)"
  proof (rule apply_homes(2) [OF ok])
    fix i assume "i < n"
    then have "i < length (lh s)" using n by simp
    from log_keys(3) [OF ok n this] show "copy_key s n \<noteq> home_key s i" .
  qed (use n in simp)
  moreover have "?d - {home_key s n} = d - home_key s ` {..<Suc n}" by (auto simp: lessThan_Suc)
  ultimately have "bio_abs s' (apply_writes (homes s v (Suc n)) v) {} (d - home_key s ` {..<Suc n})" "evolves s s' (homes s v (Suc n))"
    using s'(2,3) evolves_trans [OF s1(3) s'(3)] by (simp_all only: homes_Suc apply_writes_snoc)
  then show ?case using s1(1) s'(1) by (auto simp: rfold_append)
qed

text \<open>The disk writes of a commit, in order.\<close>

definition commit_writes :: "'a log_scheme \<Rightarrow> (bkey \<Rightarrow> u8 list) \<Rightarrow> (bkey \<times> u8 list) list" where
  "commit_writes s v =
     (let n = length (lh s); h = put_head (lh s) (v (head_key s))
      in copies s v n @ [(head_key s, h)] @ homes s (apply_writes (copies s v n) v) n @ [(head_key s, put_head [] h)])"

lemma evolves_lh: "evolves s s' ws \<Longrightarrow> evolves (s\<lparr>lh := bs\<rparr>) (s'\<lparr>lh := bs\<rparr>) ws"
proof -
  assume "evolves s s' ws"
  then obtain B L where "s' = s\<lparr>bufs := B, lru := L, disk := apply_writes ws (disk s), bwrites := bwrites s @ ws\<rparr>"
    unfolding evolves_def by blast
  then have "s'\<lparr>lh := bs\<rparr> = s\<lparr>lh := bs\<rparr>\<lparr>bufs := B, lru := L, disk := apply_writes ws (disk (s\<lparr>lh := bs\<rparr>)),
      bwrites := bwrites (s\<lparr>lh := bs\<rparr>) @ ws\<rparr>" by (cases s) simp
  then show ?thesis unfolding evolves_def by blast
qed

lemma bio_abs_lh [simp]: "bio_abs (s\<lparr>lh := bs\<rparr>) v h d = bio_abs s v h d"
  by (simp add: bio_abs_def)

lemma clear_head:
  assumes a: "bio_abs s v {} {}" and lim: "ldev s \<noteq> 0" "unat (lstart s) < FSSIZE"
  shows "\<exists>s'. write_head (s\<lparr>lh := []\<rparr>) = Inr (s'\<lparr>lh := []\<rparr>) \<and> bio_abs s' (v(head_key s := put_head [] (v (head_key s)))) {} {} \<and>
    evolves s s' [(head_key s, put_head [] (v (head_key s)))]"
proof -
  let ?w = "[(head_key s, put_head [] (v (head_key s)))]"
  have "head_key (s\<lparr>lh := []\<rparr>) = head_key s" by (simp add: head_key_def)
  then obtain s4 where s4: "write_head (s\<lparr>lh := []\<rparr>) = Inr s4" "bio_abs s4 (v(head_key s := put_head [] (v (head_key s)))) {} {}"
    "evolves (s\<lparr>lh := []\<rparr>) s4 ?w"
    using write_head_abs [of "s\<lparr>lh := []\<rparr>" v "{}"] a lim by auto
  have "evolves (s\<lparr>lh := []\<rparr>\<lparr>lh := lh s\<rparr>) (s4\<lparr>lh := lh s\<rparr>) ?w" by (rule evolves_lh [OF s4(3)])
  moreover have "s4 = s4\<lparr>lh := lh s\<rparr>\<lparr>lh := []\<rparr>" using evolves_log [OF s4(3)] by simp
  ultimately show ?thesis using s4(1,2) by (intro exI [of _ "s4\<lparr>lh := lh s\<rparr>"]) auto
qed

lemma commit_abs:
  assumes a: "bio_abs s v {} d" and ok: "log_layout s" and d: "d = home_key s ` {..<length (lh s)}" "card d < NBUF" and n: "lh s \<noteq> []"
  shows "\<exists>s'. commit s = Inr (s'\<lparr>lh := []\<rparr>) \<and> bio_abs s' (apply_writes (commit_writes s v) v) {} {} \<and> evolves s s' (commit_writes s v)"
proof -
  let ?n = "length (lh s)" let ?h = "put_head (lh s) (v (head_key s))"
  let ?v1 = "apply_writes (copies s v ?n) v" let ?v3 = "apply_writes (homes s ?v1 ?n) (?v1(head_key s := ?h))"
  have hk: "head_key s \<noteq> copy_key s i" "head_key s \<noteq> home_key s i" if "i < ?n" for i using log_keys(4,5) [OF ok that that] .
  have lim: "ldev s \<noteq> 0" "unat (lstart s) < FSSIZE" using ok by (auto simp: log_layout_def)
  obtain s1 where s1: "write_log s = Inr s1" "bio_abs s1 ?v1 {} d" "evolves s s1 (copies s v ?n)"
    using write_log_abs [OF a ok d, of ?n] by (auto simp: write_log_def)
  have v1: "?v1 (head_key s) = v (head_key s)" using hk by (intro apply_copies(2) [OF ok]) auto
  obtain s2 where s2: "write_head s1 = Inr s2" "bio_abs s2 (?v1(head_key s := ?h)) {} d" "evolves s1 s2 [(head_key s, ?h)]"
    using write_head_abs [OF s1(2)] evolves_log [OF s1(3)] lim d hk(2) v1 evolves_keys [OF s1(3)] by auto
  have e2: "evolves s s2 (copies s v ?n @ [(head_key s, ?h)])" by (rule evolves_trans [OF s1(3) s2(3)])
  have "homes s2 (?v1(head_key s := ?h)) ?n = homes s ?v1 ?n"
    unfolding homes_def using hk(1) evolves_keys [OF e2] by (intro map_cong) (simp_all, metis)
  then obtain s3 where s3: "install_trans s2 = Inr s3" "bio_abs s3 ?v3 {} {}" "evolves s2 s3 (homes s ?v1 ?n)"
    using install_abs [OF s2(2), of ?n] log_layout_evolves [OF e2] ok d evolves_keys [OF e2] evolves_log [OF e2]
    by (auto simp: install_trans_def)
  have e3: "evolves s s3 (copies s v ?n @ [(head_key s, ?h)] @ homes s ?v1 ?n)" using evolves_trans [OF e2 s3(3)] by simp
  have v3: "?v3 (head_key s) = ?h" using hk by (subst apply_homes(2) [OF ok]) auto
  obtain s4 where s4: "write_head (s3\<lparr>lh := []\<rparr>) = Inr (s4\<lparr>lh := []\<rparr>)" "bio_abs s4 (?v3(head_key s := put_head [] ?h)) {} {}"
    "evolves s3 s4 [(head_key s, put_head [] ?h)]"
    using clear_head [OF s3(2)] evolves_log [OF e3] evolves_keys [OF e3] lim v3 by auto
  have "commit s = Inr (s4\<lparr>lh := []\<rparr>)" using n s1(1) s2(1) s3(1) s4(1) by (simp add: commit_def)
  moreover have "bio_abs s4 (apply_writes (commit_writes s v) v) {} {}" using s4(2) by (simp add: commit_writes_def Let_def)
  moreover have "evolves s s4 (commit_writes s v)" using evolves_trans [OF e3 s4(3)] by (simp add: commit_writes_def Let_def)
  ultimately show ?thesis by blast
qed


subsection \<open>Recovery\<close>

lemma recover_abs:
  assumes a: "bio_abs s v {} {}" and h: "head_of (v (head_key s)) = Inr bs" and ok: "log_layout (s\<lparr>lh := bs\<rparr>)"
  shows "\<exists>s'. recover_from_log s = Inr s' \<and> lh s' = [] \<and>
    (\<forall>k. k \<noteq> head_key s \<longrightarrow> disk s' k = apply_writes (homes (s\<lparr>lh := bs\<rparr>) v (length bs)) v k)"
proof -
  let ?s = "s\<lparr>lh := bs\<rparr>" let ?v = "apply_writes (homes ?s v (length bs)) v"
  have lim: "ldev s \<noteq> 0" "unat (lstart s) < FSSIZE" using ok by (auto simp: log_layout_def)
  obtain s1 where s1: "read_head s = Inr (s1\<lparr>lh := bs\<rparr>)" "bio_abs (s1\<lparr>lh := bs\<rparr>) v {} {}" "evolves s s1 []"
    using read_head_abs [OF a lim _ _ h] by auto
  have e1: "evolves ?s (s1\<lparr>lh := bs\<rparr>) []" by (rule evolves_lh [OF s1(3)])
  have "homes (s1\<lparr>lh := bs\<rparr>) v (length bs) = homes ?s v (length bs)" using evolves_keys [OF e1] by (simp add: homes_def)
  then obtain s2 where s2: "install_trans (s1\<lparr>lh := bs\<rparr>) = Inr s2" "bio_abs s2 ?v {} {}" "evolves (s1\<lparr>lh := bs\<rparr>) s2 (homes ?s v (length bs))"
    using install_abs [OF s1(2), of "length bs"] log_layout_evolves [OF e1] ok by (auto simp: install_trans_def)
  have e2: "evolves ?s s2 (homes ?s v (length bs))" using evolves_trans [OF e1 s2(3)] by simp
  have hk: "head_key s2 = head_key s" using evolves_log [OF e2] by (simp add: head_key_def)
  obtain s3 where s3: "write_head (s2\<lparr>lh := []\<rparr>) = Inr (s3\<lparr>lh := []\<rparr>)"
    "bio_abs s3 (?v(head_key s := put_head [] (?v (head_key s)))) {} {}"
    using clear_head [OF s2(2)] evolves_log [OF e2] hk lim by auto
  have "disk s3 k = ?v k" if "k \<noteq> head_key s" for k using bio_absD(7) [OF s3(2), of k] that by simp
  then show ?thesis using s1(1) s2(1) s3(1) by (auto simp: recover_from_log_def)
qed


text \<open>Blocks that do not belong to the log.\<close>

definition log_area :: "'a log_scheme \<Rightarrow> bkey set" where
  "log_area s = insert (head_key s) (copy_key s ` {..<length (lh s)})"

lemma log_areaD: "k \<notin> log_area s \<Longrightarrow> k \<noteq> head_key s" "k \<notin> log_area s \<Longrightarrow> i < length (lh s) \<Longrightarrow> k \<noteq> copy_key s i"
  by (auto simp: log_area_def)

text \<open>A disk on which the header is empty, and one on which it lists the transaction whose blocks are in the log.\<close>

lemma recover_nothing:
  assumes "bio_abs t w {} {}" and "head_of (w (head_key s)) = Inr []" and "log_layout s" and "ldev t = ldev s" "lstart t = lstart s"
    and "\<And>k. k \<notin> log_area s \<Longrightarrow> w k = u k"
  shows "\<exists>t'. recover_from_log t = Inr t' \<and> (\<forall>k. k \<notin> log_area s \<longrightarrow> disk t' k = u k)"
proof -
  have h: "head_key t = head_key s" and "log_layout (t\<lparr>lh := []\<rparr>)" using assms(3-5) by (simp_all add: log_layout_def head_key_def)
  with recover_abs [OF assms(1) _ this(2)] assms(2) obtain t' where
    t': "recover_from_log t = Inr t'" "\<forall>k. k \<noteq> head_key s \<longrightarrow> disk t' k = w k" by (auto simp: homes_def)
  have "disk t' k = u k" if "k \<notin> log_area s" for k using t'(2) assms(6) [OF that] log_areaD(1) [OF that] by metis
  with t'(1) show ?thesis by blast
qed

lemma recover_logged:
  assumes a: "bio_abs t w {} {}" and h: "head_of (w (head_key s)) = Inr (lh s)" and ok: "log_layout s" and t: "ldev t = ldev s" "lstart t = lstart s"
    and c: "\<And>i. i < length (lh s) \<Longrightarrow> w (copy_key s i) = v (home_key s i)"
    and o: "\<And>k. k \<notin> log_area s \<Longrightarrow> k \<notin> home_key s ` {..<length (lh s)} \<Longrightarrow> w k = v k"
  shows "\<exists>t'. recover_from_log t = Inr t' \<and> (\<forall>k. k \<notin> log_area s \<longrightarrow> disk t' k = v k)"
proof -
  let ?t = "t\<lparr>lh := lh s\<rparr>"
  have k: "head_key t = head_key s" "copy_key ?t = copy_key s" "home_key ?t = home_key s"
    using t by (simp_all add: head_key_def copy_key_def home_key_def fun_eq_iff)
  have okt: "log_layout ?t" using ok t by (simp add: log_layout_def)
  have hm: "homes ?t w n = homes s w n" for n using k by (simp add: homes_def)
  from recover_abs [OF a _ okt] h k(1) hm obtain t' where
    t': "recover_from_log t = Inr t'" "\<And>k. k \<noteq> head_key s \<Longrightarrow> disk t' k = apply_writes (homes s w (length (lh s))) w k" by auto
  have "disk t' k = v k" if k: "k \<notin> log_area s" for k
  proof (cases "k \<in> home_key s ` {..<length (lh s)}")
    case True
    then obtain i where i: "i < length (lh s)" "k = home_key s i" by auto
    then show ?thesis using t'(2) [OF log_areaD(1) [OF k]] apply_homes(1) [OF ok order_refl i(1)] c by simp
  next
    case False
    then have "apply_writes (homes s w (length (lh s))) w k = w k" by (intro apply_homes(2) [OF ok order_refl]) auto
    then show ?thesis using t'(2) [OF log_areaD(1) [OF k]] o [OF k False] by simp
  qed
  with t'(1) show ?thesis by blast
qed

text \<open>The prefixes of the writes of a commit.\<close>

lemma take_commit_writes:
  fixes s :: "'a log_scheme" and v
  defines "n \<equiv> length (lh s)" and "h \<equiv> put_head (lh s) (v (head_key s))"
  shows "m \<le> n \<Longrightarrow> take m (commit_writes s v) = copies s v m"
    and "m \<le> n \<Longrightarrow> take (n + 1 + m) (commit_writes s v) = copies s v n @ [(head_key s, h)] @ homes s (apply_writes (copies s v n) v) m"
    and "m \<ge> n + 1 + n + 1 \<Longrightarrow> take m (commit_writes s v) = commit_writes s v"
  by (simp_all add: commit_writes_def Let_def copies_def homes_def n_def h_def take_map)


lemma crash_before:
  assumes "log_layout s" and "m \<le> length (lh s)" and "k = head_key s \<or> k \<notin> log_area s"
  shows "apply_writes (copies s v m) w k = w k"
proof (rule apply_copies(2) [OF assms(1,2)])
  fix i assume "i < m"
  with assms(2) have "i < length (lh s)" by simp
  then show "k \<noteq> copy_key s i" using assms(3) log_keys(4) [OF assms(1)] log_areaD(2) by metis
qed

lemma crash_after:
  fixes s :: "'a log_scheme" and v w
  defines "n \<equiv> length (lh s)" and "h \<equiv> put_head (lh s) (v (head_key s))"
  defines "w' m \<equiv> apply_writes (copies s v n @ [(head_key s, h)] @ homes s (apply_writes (copies s v n) v) m) w"
  assumes ok: "log_layout s" and m: "m \<le> n"
  shows "w' m (head_key s) = h" and "i < n \<Longrightarrow> w' m (copy_key s i) = v (home_key s i)"
    and "k \<notin> log_area s \<Longrightarrow> k \<notin> home_key s ` {..<m} \<Longrightarrow> w' m k = w k" and "i < m \<Longrightarrow> w' m (home_key s i) = v (home_key s i)"
proof -
  let ?v1 = "apply_writes (copies s v n) v" and ?w1 = "apply_writes (copies s v n) w"
  have w: "w' m = apply_writes (homes s ?v1 m) (?w1(head_key s := h))" for m by (simp add: w'_def)
  have l: "i < length (lh s)" if "i < m" for i using that m by (simp add: n_def)
  note hom = apply_homes(2) [OF ok m [unfolded n_def]]
  show "w' m (head_key s) = h" unfolding w using log_keys(5) [OF ok l l] by (subst hom) simp_all
  show "w' m (copy_key s i) = v (home_key s i)" if "i < n"
  proof -
    have i: "i < length (lh s)" using that by (simp add: n_def)
    have "w' m (copy_key s i) = (?w1(head_key s := h)) (copy_key s i)"
      unfolding w using log_keys(3) [OF ok i l] by (intro hom) simp
    also have "\<dots> = v (home_key s i)" using log_keys(4) [OF ok i i] apply_copies(1) [OF ok _ that, of v w] by (metis fun_upd_apply n_def order_refl)
    finally show ?thesis .
  qed
  show "w' m k = w k" if k: "k \<notin> log_area s" "k \<notin> home_key s ` {..<m}"
    unfolding w using k crash_before [OF ok, of n k v w] log_areaD(1) [OF k(1)] by (subst hom) (auto simp: n_def)
  show "w' m (home_key s i) = v (home_key s i)" if "i < m"
    unfolding w using apply_homes(1) [OF ok m [unfolded n_def] that] apply_copies(1) [OF ok, of n i v v] l [OF that] by (simp add: n_def)
qed


lemma installed:
  assumes "log_layout s" and "k \<notin> log_area s" and "k \<in> home_key s ` {..<length (lh s)} \<or> w k = v k"
  shows "apply_writes (copies s v (length (lh s)) @ [(head_key s, put_head (lh s) (v (head_key s)))] @
    homes s (apply_writes (copies s v (length (lh s))) v) (length (lh s))) w k = v k"
  using crash_after(4) [OF assms(1) order_refl, of _ v w] crash_after(3) [OF assms(1) order_refl assms(2), of v w] assms(3)
  by (cases "k \<in> home_key s ` {..<length (lh s)}") auto

lemma crash_recover:
  assumes a: "bio_abs s v {} d" and ok: "log_layout s" and d: "d = home_key s ` {..<length (lh s)}" and n: "length (lh s) < NBUF"
    and sz: "length (v (head_key s)) = BSIZE" and e: "head_of (disk s (head_key s)) = Inr []"
    and t: "bio_abs t (apply_writes (take m (commit_writes s v)) (disk s)) {} {}" "ldev t = ldev s" "lstart t = lstart s"
  shows "\<exists>t'. recover_from_log t = Inr t' \<and> (\<forall>k. k \<notin> log_area s \<longrightarrow> disk t' k = (if m \<le> length (lh s) then disk s k else v k))"
proof -
  let ?n = "length (lh s)" and ?h = "put_head (lh s) (v (head_key s))"
  let ?w = "\<lambda>j. apply_writes (copies s v ?n @ [(head_key s, ?h)] @ homes s (apply_writes (copies s v ?n) v) j) (disk s)"
  note h = head_of_put_head [OF _ sz, of "lh s"]
  have o: "?w j k = v k" if "j \<le> ?n" "k \<notin> log_area s" "k \<notin> home_key s ` {..<?n}" for j k
  proof -
    have "k \<notin> home_key s ` {..<j}" using that by auto
    then show ?thesis using crash_after(3) [OF ok that(1,2), of v "disk s"] that bio_absD(7) [OF a, of k] d by auto
  qed
  have "(\<exists>j. m = ?n + 1 + j \<and> j \<le> ?n)" if "\<not> m \<le> ?n" "\<not> m \<ge> ?n + 1 + ?n + 1"
    using that by (intro exI [of _ "m - ?n - 1"]) simp
  then consider "m \<le> ?n" | j where "m = ?n + 1 + j" "j \<le> ?n" | "m \<ge> ?n + 1 + ?n + 1" by blast
  then show ?thesis
  proof cases
    case 1
    have tk: "apply_writes (take m (commit_writes s v)) (disk s) = apply_writes (copies s v m) (disk s)"
      by (simp only: take_commit_writes(1) [OF 1])
    note cb = crash_before [OF ok 1, of _ v "disk s"]
    have "head_of (apply_writes (copies s v m) (disk s) (head_key s)) = Inr []" using cb [of "head_key s"] e by simp
    from recover_nothing [OF t(1) [unfolded tk] this ok t(2,3), of "disk s"] cb 1 show ?thesis by simp
  next
    case (2 j)
    then have tk: "apply_writes (take m (commit_writes s v)) (disk s) = ?w j" by (simp only: take_commit_writes(2))
    show ?thesis
      using recover_logged [OF t(1)[unfolded tk] _ ok t(2,3), of v] h crash_after(1,2) [OF ok 2(2)] o [OF 2(2)] n 2(1) by auto
  next
    case 3
    have tk: "apply_writes (take m (commit_writes s v)) (disk s) = (?w ?n)(head_key s := put_head [] ?h)"
      unfolding take_commit_writes(3) [OF 3] by (simp add: commit_writes_def Let_def)
    have "?w ?n k = v k" if "k \<notin> log_area s" for k
      by (rule installed [OF ok that]) (use bio_absD(7) [OF a, of k] d in auto)
    then have "((?w ?n)(head_key s := put_head [] ?h)) k = v k" if "k \<notin> log_area s" for k using that log_areaD(1) [OF that] by simp
    moreover have "head_of (((?w ?n)(head_key s := put_head [] ?h)) (head_key s)) = Inr []"
      using head_of_put_head(1) [of "[]" ?h] h n by simp
    ultimately show ?thesis using recover_nothing [OF t(1) [unfolded tk] _ ok t(2,3), of v] 3 by simp
  qed
qed

text \<open>
  C26. A commit is atomic. It ends with every block of the transaction at home and the log empty; and if the machine stops after any number of the
  disk writes of the commit, then the recovery at the next boot ends with a disk on which, outside of the log, either all blocks have
  their old contents or all have the new ones: the old as long as the header has not been written, the new from then on.
\<close>

theorem commit_crash_safe:
  assumes a: "bio_abs s v {} d" and ok: "log_layout s" and d: "d = home_key s ` {..<length (lh s)}" and n: "lh s \<noteq> []" "length (lh s) < NBUF"
    and sz: "length (v (head_key s)) = BSIZE" and e: "head_of (disk s (head_key s)) = Inr []"
  shows "\<exists>s' ws. commit s = Inr s' \<and> lh s' = [] \<and> bwrites s' = bwrites s @ ws \<and>
    (\<forall>k. k \<notin> log_area s \<longrightarrow> disk s' k = v k) \<and>
    (\<forall>m t. bio_abs t (apply_writes (take m ws) (disk s)) {} {} \<and> ldev t = ldev s \<and> lstart t = lstart s \<longrightarrow>
      (\<exists>t'. recover_from_log t = Inr t' \<and>
        (\<forall>k. k \<notin> log_area s \<longrightarrow> disk t' k = (if m \<le> length (lh s) then disk s k else v k))))"
proof -
  have "card d \<le> card {..<length (lh s)}" unfolding d by (rule card_image_le) simp
  then have c: "card d < NBUF" using n(2) by simp
  from commit_abs [OF a ok d c n(1)] obtain s' where
    s': "commit s = Inr (s'\<lparr>lh := []\<rparr>)" "bio_abs s' (apply_writes (commit_writes s v) v) {} {}" "evolves s s' (commit_writes s v)" by auto
  have "bio_abs (s'\<lparr>lh := []\<rparr>) (apply_writes (commit_writes s v) v) {} {}" using s'(2) by simp
  then have "disk (s'\<lparr>lh := []\<rparr>) k = v k" if "k \<notin> log_area s" for k
    using bio_absD(7) [of "s'\<lparr>lh := []\<rparr>", of _ "{}" "{}" k] installed [OF ok that, of v v] log_areaD(1) [OF that]
    by (simp add: commit_writes_def Let_def)
  moreover have "bwrites (s'\<lparr>lh := []\<rparr>) = bwrites s @ commit_writes s v" using evolves_disk [OF s'(3)] by simp
  moreover note crash_recover [OF a ok d n(2) sz e]
  ultimately show ?thesis using s'(1)
    by (intro exI [of _ "s'\<lparr>lh := []\<rparr>"] exI [of _ "commit_writes s v"] conjI allI impI) (simp, simp, assumption, assumption, blast)
qed


text \<open>
  C27. Admission to the log. \<open>begin_op\<close> lets three operations in at once, each entitled to \<open>MAXOPBLOCKS\<close> = 10 blocks; but with the \<open>LOGSIZE\<close> = 30 log
  blocks that \<open>mkfs\<close> lays out, \<open>log_write\<close> panics once 29 blocks are logged: the thirtieth block of three admitted operations,
  and even a block that is already in the log, cannot be written.
\<close>

theorem admitted_but_too_big:
  assumes "lsize s = LOGSIZE" and "lh s = []" and "loutstanding s = 0" and "\<not> committing s"
  shows "\<exists>s'. rbind (begin_op s) (\<lambda>s. rbind (begin_op s) begin_op) = Inr s' \<and> loutstanding s' = 3 \<and>
    begin_op s' = Inl Blocks \<and> (\<forall>bs b. length bs = 29 \<longrightarrow> log_write b (s'\<lparr>lh := bs\<rparr>) = Inl (Panic ''too big a transaction''))"
  using assms by (simp add: begin_op_def log_write_def)


subsection \<open>A transaction of one block\<close>

definition boot_log :: log where
  "boot_log = bio.extend (boot_bio\<lparr>disk := (\<lambda>_. replicate BSIZE 0)\<rparr>) (log.fields 2 30 0 False 1 [])"

lemma one_block_logged:
  "\<exists>s. bio_abs s ((\<lambda>_. replicate BSIZE 0)((1, 50) := replicate BSIZE 9)) {} {(1, 50)} \<and> disk s = (\<lambda>_. replicate BSIZE 0) \<and>
     ldev s = 1 \<and> lstart s = 2 \<and> (lh :: log \<Rightarrow> _) s = [50]"
proof -
  let ?z = "(\<lambda>_. replicate BSIZE 0) :: bkey \<Rightarrow> u8 list" and ?k = "(1, 50) :: bkey"
  let ?b = "boot_log\<lparr>lh := [50]\<rparr>"
  have b: "bufs ?b = (\<lambda>_. zero_buf)" "havedisk1 ?b" "disk ?b = ?z" "ldev ?b = 1" "lstart ?b = 2"
    by (simp_all add: boot_log_def boot_bio_def bio.defs log.defs)
  obtain s0 where s0: "bio_abs s0 ?z {} {}" "evolves ?b s0 []" using binit_abs [OF b(1,2)] b(3) by metis
  obtain c s1 where s1: "bio_abs s1 ?z {?k} {}" "holds s1 c ?k" "evolves s0 s1 []" using bread_step [OF s0(1), of 1 50] by auto
  let ?v = "?z(?k := replicate BSIZE 9)"
  let ?m = "modify_buf c (\<lambda>_. replicate BSIZE 9) s1" let ?s2 = "bupd c (\<lambda>q. q\<lparr>bdirty := True\<rparr>) ?m"
  have m: "bio_abs ?m ?v {?k} {}" "holds ?m c ?k" using modify_abs [OF s1(1,2), of "\<lambda>_. replicate BSIZE 9"] s1(2) by simp_all
  have d: "bio_abs ?s2 ?v {?k} {?k}" "holds ?s2 c ?k" using dirty_abs [OF m] m(2) by simp_all
  obtain s3 where s3: "bio_abs s3 ?v {} {?k}" "evolves ?s2 s3 []" using brelse_step [OF d] by auto
  have f: "disk ?s2 = disk s1" "ldev ?s2 = ldev s1" "lstart ?s2 = lstart s1" "lh ?s2 = lh s1" by (simp_all add: modify_buf_def bupd_def)
  have e: "evolves ?b s1 []" using evolves_trans [OF s0(2) s1(3)] by simp
  have "disk s3 = ?z" "ldev s3 = 1" "lstart s3 = 2" "lh s3 = [50]"
    using evolves_disk [OF s3(2)] evolves_log [OF s3(2)] f evolves_disk [OF e] evolves_log [OF e] b by simp_all
  with s3(1) show ?thesis by blast
qed

theorem commit_crash_safe_witness:
  "\<exists>(s :: log) s'. lh s = [50] \<and> disk s (1, 50) = replicate BSIZE 0 \<and> commit s = Inr s' \<and> lh s' = [] \<and> disk s' (1, 50) = replicate BSIZE 9"
proof -
  obtain s where s: "bio_abs s ((\<lambda>_. replicate BSIZE 0)((1, 50) := replicate BSIZE 9)) {} {(1, 50)}"
    "disk s = (\<lambda>_. replicate BSIZE 0)" "ldev s = 1" "lstart s = 2" "(lh :: log \<Rightarrow> _) s = [50]"
    using one_block_logged by blast
  have k: "head_key s = (1, 2)" "copy_key s 0 = (1, 3)" "home_key s 0 = (1, 50)" using s by (simp_all add: head_key_def copy_key_def home_key_def)
  have "log_layout s" "{(1, 50)} = home_key s ` {..<length (lh s)}" "head_of (disk s (head_key s)) = Inr []"
    using s k by (simp_all add: log_layout_def lessThan_Suc head_of_def get32_zeros)
  from commit_crash_safe [OF s(1) this(1,2) _ _ _ this(3)] s k obtain s' where
    "commit s = Inr s'" "lh s' = []" "\<forall>k. k \<notin> log_area s \<longrightarrow> disk s' k = ((\<lambda>_. replicate BSIZE 0)((1, 50) := replicate BSIZE 9)) k"
    by auto
  moreover have "(1, 50) \<notin> log_area s" using s k by (simp add: log_area_def lessThan_Suc)
  ultimately show ?thesis using s by (intro exI [of _ s] exI [of _ s']) auto
qed

theorem admitted_but_too_big_witness:
  "\<exists>s'. rbind (begin_op boot_log) (\<lambda>s. rbind (begin_op s) begin_op) = Inr s' \<and>
     log_write 0 (s'\<lparr>lh := replicate 29 7\<rparr>) = Inl (Panic ''too big a transaction'')"
  using admitted_but_too_big [of boot_log] by (auto simp: boot_log_def boot_bio_def bio.defs log.defs)

end
