(* ===== verification/Sched_Wakeup.thy ===== *)
theory Sched_Wakeup
  imports Sched
begin

section \<open>Wakeups and CPU shares\<close>

text \<open>
  Correctness of \<open>wakeup\<close> and \<open>set_cpu_share\<close> of \<open>Sched\<close> on a table whose lists are intact: a wakeup takes exactly the threads that sleep on the
  channel off the sleep list and makes them ready, and a CPU share is taken from the tickets of the MLFQ and given to the process.
\<close>

subsection \<open>Waking up\<close>

text \<open>
  The lists of the table with other sleepers and other queues; the threads of a process share their level and their type, and
  the ready ones are on the queue of the level (\<open>sleeper_ok\<close>).
\<close>

definition relist :: "(node \<Rightarrow> node list option) \<Rightarrow> nat list \<Rightarrow> (nat \<Rightarrow> nat list) \<Rightarrow> node \<Rightarrow> node list option" where
  "relist L zs qs h = (case h of
     Sleep_head \<Rightarrow> Some (map Sleep zs)
   | Queue l \<Rightarrow> if l < QSIZE then Some (map Mlfq (qs l)) else L h
   | _ \<Rightarrow> L h)"

definition sleeper_ok :: "'a ptable_scheme \<Rightarrow> (node \<Rightarrow> node list option) \<Rightarrow> (nat \<Rightarrow> nat list) \<Rightarrow> nat \<Rightarrow> bool" where
  "sleeper_ok s L qs p = (type (procs s p) = MLFQ \<longrightarrow>
     (\<exists>l ts. level_of p s = Inr l \<and> l < QSIZE \<and> (\<forall>l<QSIZE. p \<notin> set (qs l)) \<and> in_ring L p ts \<and>
        (\<forall>t\<in>set ts. type (procs s t) = MLFQ \<and> level_of t s = Inr l \<and> (active (procs s t) \<longrightarrow> t \<in> set (qs l)))))"

lemma relist_relist [simp]: "relist (relist L zs qs) zs' qs' = relist L zs' qs'"
  by (auto simp: relist_def fun_eq_iff split: node.split)

lemma relist_self: "L Sleep_head = Some (map Sleep zs) \<Longrightarrow> queues L qs \<Longrightarrow> relist L zs qs = L"
  by (auto simp: relist_def queues_def fun_eq_iff split: node.split)

lemma queues_relist [simp]: "queues (relist L zs qs) qs"
  by (simp add: queues_def relist_def)

lemma in_ring_relist [simp]: "in_ring (relist L zs qs) p ts = in_ring L p ts"
  by (simp add: in_ring_def relist_def)

lemma relist_sleep: "(relist L zs qs)(Sleep_head \<mapsto> map Sleep zs') = relist L zs' qs"
  by (auto simp: relist_def fun_eq_iff split: node.split)

lemma relist_queue: "l < QSIZE \<Longrightarrow> (relist L zs qs)(Queue l \<mapsto> map Mlfq q) = relist L zs (qs(l := q))"
  by (auto simp: relist_def fun_eq_iff split: node.split)

text \<open>No list but a queue holds the queue link of a thread.\<close>

definition mlfq_free :: "(node \<Rightarrow> node list option) \<Rightarrow> bool" where
  "mlfq_free L = (\<forall>h xs p. L h = Some xs \<longrightarrow> (\<forall>l<QSIZE. h \<noteq> Queue l) \<longrightarrow> Mlfq p \<notin> set (h # xs))"

lemma fresh_relist: "mlfq_free L \<Longrightarrow> (\<And>l. l < QSIZE \<Longrightarrow> p \<notin> set (qs l)) \<Longrightarrow> fresh_node (relist L zs qs) (Mlfq p)"
  unfolding fresh_node_def mlfq_free_def relist_def by (auto split: node.splits if_splits) 

lemma main_thread_state: "main_thread_from n p (upd q (\<lambda>x. x\<lparr>state := st\<rparr>) s) = main_thread_from n p s"
  by (induction n arbitrary: p) (auto simp: upd_def)

lemma level_of_state [simp]: "level_of p (upd q (\<lambda>x. x\<lparr>state := st\<rparr>) s) = level_of p s"
proof -
  have "main_thread p (upd q (\<lambda>x. x\<lparr>state := st\<rparr>) s) = main_thread p s" by (simp add: main_thread_def main_thread_state)
  then show ?thesis unfolding level_of_def by (auto simp: upd_def intro!: rbind_cong)
qed


definition wake :: "nat \<Rightarrow> 'a ptable_scheme \<Rightarrow> 'a ptable_scheme res" where
  "wake p s =
     rbind (on_links (list_del (Sleep p)) s) (\<lambda>s.
     let s = upd p (\<lambda>q. q\<lparr>state := RUNNABLE\<rparr>) s
     in if type (procs s p) = MLFQ then enqueue_thread p s else Inr s)"

lemma wakeup1_loop_wake:
  "chan (procs s p) = ch \<Longrightarrow>
   wakeup1_loop (Suc fuel) ch (Some (Sleep p)) s = rbind (wake p s) (wakeup1_loop fuel ch (nxt (links s (Sleep p))))"
  by (simp add: wake_def rbind_assoc Let_def cong: rbind_cong)

lemma wake_ok:
  assumes l: "lists (links s) (relist L (xs @ p # ys) qs)" and ok: "sleeper_ok s L qs p" and f: "mlfq_free L"
  shows "\<exists>lk qs'. wake p s = Inr ((upd p (\<lambda>q. q\<lparr>state := RUNNABLE\<rparr>) s)\<lparr>links := lk\<rparr>) \<and> lists lk (relist L (xs @ ys) qs') \<and>
    (\<forall>l. set (qs' l) = (if type (procs s p) = MLFQ \<and> level_of p s = Inr l then insert p (set (qs l)) else set (qs l)))"
proof -
  let ?s = "upd p (\<lambda>q. q\<lparr>state := RUNNABLE\<rparr>) s"
  have "relist L (xs @ p # ys) qs Sleep_head = Some (map Sleep xs @ Sleep p # map Sleep ys)" by (simp add: relist_def)
  from lists_del [OF l this] obtain lk where lk: "list_del (Sleep p) (links s) = Inr lk" "lists lk (relist L (xs @ ys) qs)"
    by (metis relist_sleep map_append)
  have t: "type (procs ?s p) = type (procs s p)" by (simp add: upd_def)
  have u: "upd p (\<lambda>q. q\<lparr>state := RUNNABLE\<rparr>) (s\<lparr>links := lk\<rparr>) = ?s\<lparr>links := lk\<rparr>" by (simp add: upd_def)
  show ?thesis
  proof (cases "type (procs s p) = MLFQ")
    case False
    then show ?thesis using lk t u by (intro exI [of _ lk] exI [of _ qs]) (simp add: wake_def on_links_eq)
  next
    case True
    with ok obtain lv ts where lv: "level_of p s = Inr lv" "lv < QSIZE" "\<And>l. l < QSIZE \<Longrightarrow> p \<notin> set (qs l)" "in_ring L p ts"
      and ts: "\<And>x. x \<in> set ts \<Longrightarrow> active (procs s x) \<Longrightarrow> x \<in> set (qs lv)" unfolding sleeper_ok_def by auto
    have "tgroup lk p ts" using in_ring_tgroup [OF lk(2)] lv(4) by simp
    then have "p \<notin> set ts" by (auto simp: tgroup_def dlist_def)
    then have act: "active (procs (?s\<lparr>links := lk\<rparr>) x) = active (procs s x)" if "x \<in> set ts" for x using that by (auto simp: upd_def)
    have st: "state (procs ?s p) = RUNNABLE" by (simp add: upd_def)
    obtain lk' where lk': "enqueue_thread p (?s\<lparr>links := lk\<rparr>) = Inr (?s\<lparr>links := lk\<rparr>\<lparr>links := lk'\<rparr>)"
      "lists lk' ((relist L (xs @ ys) qs)(Queue lv \<mapsto> map Mlfq (enq (\<lambda>t. active (procs (?s\<lparr>links := lk\<rparr>) t)) ts p (qs lv))))"
      by (rule enqueue_thread_eq [of "?s\<lparr>links := lk\<rparr>" "relist L (xs @ ys) qs" qs p lv ts])
        (use lk(2) lv ts act fresh_relist [OF f] st in auto)
    let ?q = "enq (\<lambda>t. active (procs (?s\<lparr>links := lk\<rparr>) t)) ts p (qs lv)"
    have "set ?q = insert p (set (qs lv))" using ts act by (intro set_enq) auto
    then show ?thesis using lk lk' u t True lv(1) relist_queue [OF lv(2), of L "xs @ ys" qs ?q]
      by (intro exI [of _ lk'] exI [of _ "qs(lv := ?q)"]) (auto simp: wake_def on_links_eq)
  qed
qed


lemma sleeper_ok_wake:
  assumes "sleeper_ok s L qs x" and "sleeper_ok s L qs p" and "x \<noteq> p" and "\<And>l. set (qs' l) = (if type (procs s p) = MLFQ \<and> level_of p s = Inr l then insert p (set (qs l)) else set (qs l))"
  shows "sleeper_ok ((upd p (\<lambda>q. q\<lparr>state := RUNNABLE\<rparr>) s)\<lparr>links := lk\<rparr>) L qs' x"
  unfolding sleeper_ok_def
proof
  let ?s = "(upd p (\<lambda>q. q\<lparr>state := RUNNABLE\<rparr>) s)\<lparr>links := lk\<rparr>"
  have pr: "type (procs ?s y) = type (procs s y)" "active (procs ?s y) = (y = p \<or> active (procs s y))" "level_of y ?s = level_of y s" for y
    by (auto simp: upd_def active_def level_of_state [unfolded upd_def])
  assume "type (procs ?s x) = MLFQ"
  with assms(1) pr(1) obtain l ts where x: "level_of x s = Inr l" "l < QSIZE" "\<And>l. l < QSIZE \<Longrightarrow> x \<notin> set (qs l)" "in_ring L x ts"
    "\<And>t. t \<in> set ts \<Longrightarrow> type (procs s t) = MLFQ \<and> level_of t s = Inr l \<and> (active (procs s t) \<longrightarrow> t \<in> set (qs l))"
    unfolding sleeper_ok_def by auto
  then show "\<exists>l ts. level_of x ?s = Inr l \<and> l < QSIZE \<and> (\<forall>l<QSIZE. x \<notin> set (qs' l)) \<and> in_ring L x ts \<and>
      (\<forall>t\<in>set ts. type (procs ?s t) = MLFQ \<and> level_of t ?s = Inr l \<and> (active (procs ?s t) \<longrightarrow> t \<in> set (qs' l)))"
    unfolding pr assms(4) using assms(3) by (intro exI [of _ l] exI [of _ ts]) (auto split: if_splits)
qed

text \<open>The state after the sleepers \<open>ps\<close> on the channel have been made ready.\<close>

definition awake :: "chan option \<Rightarrow> nat list \<Rightarrow> (nat \<Rightarrow> proc) \<Rightarrow> nat \<Rightarrow> proc" where
  "awake ch ps pr q = (if q \<in> set ps \<and> chan (pr q) = ch then (pr q)\<lparr>state := RUNNABLE\<rparr> else pr q)"

definition woken_on :: "'a ptable_scheme \<Rightarrow> chan option \<Rightarrow> nat list \<Rightarrow> nat \<Rightarrow> nat set" where
  "woken_on s ch ps l = {p \<in> set ps. chan (procs s p) = ch \<and> type (procs s p) = MLFQ \<and> level_of p s = Inr l}"

lemma wakeup1_loop_ok:
  assumes "lists (links s) (relist L (xs @ ps) qs)" and "\<And>p. p \<in> set ps \<Longrightarrow> sleeper_ok s L qs p" and "mlfq_free L" and "length ps < fuel"
  shows "\<exists>lk qs'. wakeup1_loop fuel ch (Some (hd (map Sleep ps @ [Sleep_head]))) s = Inr (s\<lparr>procs := awake ch ps (procs s), links := lk\<rparr>) \<and>
    lists lk (relist L (xs @ filter (\<lambda>p. chan (procs s p) \<noteq> ch) ps) qs') \<and> (\<forall>l. set (qs' l) = set (qs l) \<union> woken_on s ch ps l)"
  using assms(1,2,4)
proof (induction ps arbitrary: s xs qs fuel)
  case Nil
  have "awake ch [] (procs s) = procs s" by (simp add: awake_def fun_eq_iff)
  with Nil show ?case by (cases fuel) (simp, intro exI [of _ "links s"] exI [of _ qs], simp add: woken_on_def)
next
  case (Cons p ps)
  obtain fl where fl: "fuel = Suc fl" using Cons.prems(3) by (cases fuel) auto
  have dl: "dlist (links s) Sleep_head (map Sleep xs @ Sleep p # map Sleep ps)"
    using listsD [OF Cons.prems(1)] by (simp add: relist_def)
  then have nx: "nxt (links s (Sleep p)) = Some (hd (map Sleep ps @ [Sleep_head]))" by (rule dlist_split_links(2))
  have dis: "p \<notin> set ps" using dl by (auto simp: dlist_def)
  show ?case
  proof (cases "chan (procs s p) = ch")
    case True
    let ?s = "upd p (\<lambda>q. q\<lparr>state := RUNNABLE\<rparr>) s"
    obtain lk qs1 where w: "wake p s = Inr (?s\<lparr>links := lk\<rparr>)" "lists lk (relist L (xs @ ps) qs1)"
      "\<And>l. set (qs1 l) = (if type (procs s p) = MLFQ \<and> level_of p s = Inr l then insert p (set (qs l)) else set (qs l))"
      using wake_ok [OF Cons.prems(1) Cons.prems(2) assms(3)] by auto
    have ok: "sleeper_ok (?s\<lparr>links := lk\<rparr>) L qs1 x" if "x \<in> set ps" for x
      using that dis Cons.prems(2) by (intro sleeper_ok_wake [OF _ _ _ w(3)]) auto
    obtain lk' qs' where r: "wakeup1_loop fl ch (Some (hd (map Sleep ps @ [Sleep_head]))) (?s\<lparr>links := lk\<rparr>) =
        Inr (?s\<lparr>links := lk\<rparr>\<lparr>procs := awake ch ps (procs (?s\<lparr>links := lk\<rparr>)), links := lk'\<rparr>)"
      "lists lk' (relist L (xs @ filter (\<lambda>p. chan (procs (?s\<lparr>links := lk\<rparr>) p) \<noteq> ch) ps) qs')"
      "\<And>l. set (qs' l) = set (qs1 l) \<union> woken_on (?s\<lparr>links := lk\<rparr>) ch ps l"
      using Cons.IH [of "?s\<lparr>links := lk\<rparr>" xs qs1 fl] w(2) ok Cons.prems(3) fl by auto
    have eq: "?s\<lparr>links := lk\<rparr>\<lparr>procs := awake ch ps (procs (?s\<lparr>links := lk\<rparr>)), links := lk'\<rparr> =
        s\<lparr>procs := awake ch (p # ps) (procs s), links := lk'\<rparr>"
    proof -
      have "awake ch ps (procs ?s) = awake ch (p # ps) (procs s)" using True dis by (auto simp: awake_def upd_def fun_eq_iff)
      then show ?thesis by (simp add: upd_def)
    qed
    have same: "chan (procs (?s\<lparr>links := lk\<rparr>) q) = chan (procs s q)" "type (procs (?s\<lparr>links := lk\<rparr>) q) = type (procs s q)"
      "level_of q (?s\<lparr>links := lk\<rparr>) = level_of q s" for q by (simp_all, simp_all add: upd_def)
    have "set (qs' l) = set (qs l) \<union> woken_on s ch (p # ps) l" for l
      unfolding r(3) w(3) woken_on_def same using True by auto
    then show ?thesis using True r(1) [unfolded eq] r(2) [unfolded same] w(1) nx fl wakeup1_loop_wake [OF True, of fl]
      by (intro exI [of _ lk'] exI [of _ qs']) (simp del: wakeup1_loop.simps)
  next
    case False
    obtain lk qs' where r: "wakeup1_loop fl ch (Some (hd (map Sleep ps @ [Sleep_head]))) s = Inr (s\<lparr>procs := awake ch ps (procs s), links := lk\<rparr>)"
      "lists lk (relist L ((xs @ [p]) @ filter (\<lambda>p. chan (procs s p) \<noteq> ch) ps) qs')" "\<And>l. set (qs' l) = set (qs l) \<union> woken_on s ch ps l"
      using Cons.IH [of s "xs @ [p]" qs fl] Cons.prems fl by auto
    have "awake ch (p # ps) (procs s) = awake ch ps (procs s)" "woken_on s ch (p # ps) l = woken_on s ch ps l" for l
      using False by (auto simp: awake_def woken_on_def fun_eq_iff)
    then show ?thesis using False r nx fl by (intro exI [of _ lk] exI [of _ qs']) simp
  qed
qed


text \<open>
  C29. \<open>wakeup\<close> wakes every thread that sleeps on the channel and no other: on a table whose lists are intact it returns, each of those threads is
  off the sleep list, ready and, if the MLFQ schedules it, on the queue of its level, from which the scheduler will pick it; the threads that sleep on other
  channels stay asleep, and no ready thread is lost.
\<close>

theorem wakeup_wakes:
  assumes "\<not> plock s" and "lists (links s) L" and "L Sleep_head = Some (map Sleep ps)" and "length ps \<le> NPROC" and "queues L qs" and "mlfq_free L"
    and "\<And>p. p \<in> set ps \<Longrightarrow> sleeper_ok s L qs p"
  shows "\<exists>s' qs'. wakeup ch s = Inr s' \<and> lists (links s') (relist L (filter (\<lambda>p. chan (procs s p) \<noteq> ch) ps) qs') \<and>
    (\<forall>p\<in>set ps. chan (procs s p) = ch \<longrightarrow> state (procs s' p) = RUNNABLE \<and>
       (type (procs s p) = MLFQ \<longrightarrow> (\<exists>l<QSIZE. level_of p s = Inr l \<and> p \<in> set (qs' l)))) \<and>
    (\<forall>q. q \<notin> set ps \<or> chan (procs s q) \<noteq> ch \<longrightarrow> procs s' q = procs s q) \<and> (\<forall>l. set (qs l) \<subseteq> set (qs' l))"
proof -
  let ?s = "s\<lparr>plock := True, nheld := nheld s + 1\<rparr>"
  have l: "lists (links ?s) (relist L ([] @ ps) qs)" using assms(2,3,5) by (simp add: relist_self)
  have lv: "level_of q ?s = level_of q s" for q by (simp add: level_of_def main_thread_cong [of ?s s])
  have ok: "sleeper_ok ?s L qs p" if "p \<in> set ps" for p using assms(7) [OF that] unfolding sleeper_ok_def lv by simp
  from wakeup1_loop_ok [OF l ok assms(6), of "Suc NPROC" ch] assms(4) obtain lk qs' where
    w: "wakeup1_loop (Suc NPROC) ch (Some (hd (map Sleep ps @ [Sleep_head]))) ?s = Inr (?s\<lparr>procs := awake ch ps (procs ?s), links := lk\<rparr>)"
      "lists lk (relist L (filter (\<lambda>p. chan (procs s p) \<noteq> ch) ps) qs')" "\<And>l. set (qs' l) = set (qs l) \<union> woken_on ?s ch ps l"
    by auto
  have nx: "nxt (links s Sleep_head) = Some (hd (map Sleep ps @ [Sleep_head]))" by (rule dlist_next [OF listsD [OF assms(2,3)]])
  let ?s' = "s\<lparr>procs := awake ch ps (procs s), links := lk\<rparr>"
  have "wakeup ch s = Inr ?s'"
    using w(1) nx assms(1) by (simp add: wakeup_def wakeup1_def ptable_acquire_def ptable_release_def take_lock_def drop_lock_def del: wakeup1_loop.simps)
  moreover have "\<exists>l<QSIZE. level_of p s = Inr l \<and> p \<in> set (qs' l)" if "p \<in> set ps" "chan (procs s p) = ch" "type (procs s p) = MLFQ" for p
    using assms(7) [OF that(1)] that unfolding sleeper_ok_def w(3) woken_on_def lv by auto
  ultimately show ?thesis using w(2,3) by (intro exI [of _ ?s'] exI [of _ qs']) (auto simp: awake_def)
qed


subsection \<open>CPU shares\<close>

definition set_type :: "nat list \<Rightarrow> (nat \<Rightarrow> proc) \<Rightarrow> nat \<Rightarrow> proc" where
  "set_type ths pr q = (if q \<in> set ths then (pr q)\<lparr>type := STRIDE\<rparr> else pr q)"

lemma fold_set_type: "fold (\<lambda>th. upd th (\<lambda>p. p\<lparr>type := STRIDE\<rparr>)) ths s = s\<lparr>procs := set_type ths (procs s)\<rparr>"
proof (induction ths arbitrary: s)
  case Nil
  then show ?case by (simp add: set_type_def [abs_def])
next
  case (Cons th ths)
  have "set_type ths ((procs s)(th := (procs s th)\<lparr>type := STRIDE\<rparr>)) = set_type (th # ths) (procs s)" by (auto simp: set_type_def fun_eq_iff)
  moreover have "procs (upd th (\<lambda>p. p\<lparr>type := STRIDE\<rparr>) s) = (procs s)(th := (procs s th)\<lparr>type := STRIDE\<rparr>)"
    "(upd th (\<lambda>p. p\<lparr>type := STRIDE\<rparr>) s)\<lparr>procs := x\<rparr> = s\<lparr>procs := x\<rparr>" for x by (simp_all add: upd_def)
  ultimately show ?case by (simp only: fold.simps comp_apply Cons)
qed

lemma set_stride_all:
  assumes "tgroup (links s) p ts"
  shows "threads_apply0 p routine_set_stride s = Inr (None, s\<lparr>procs := set_type (ts @ [p]) (procs s)\<rparr>)"
proof -
  have "keeps_groups routine_set_stride" by (auto simp: keeps_groups_def routine_set_stride_def upd_def)
  then have "threads_apply0 p routine_set_stride s = apply_until routine_set_stride (ts @ [p]) s" by (rule threads_apply0_eq [OF assms])
  also have "\<dots> = rbind (rfold (\<lambda>th s. Inr (upd th (\<lambda>p. p\<lparr>type := STRIDE\<rparr>) s)) (ts @ [p]) s) (\<lambda>s. Inr (None, s))"
    by (rule apply_until_all) (simp add: routine_set_stride_def)
  also have "\<dots> = Inr (None, s\<lparr>procs := set_type (ts @ [p]) (procs s)\<rparr>)"
    by (subst rfold_total [of _ "\<lambda>th. upd th (\<lambda>p. p\<lparr>type := STRIDE\<rparr>)"]) (simp, simp only: fold_set_type rbind_Inr)
  finally show ?thesis .
qed

text \<open>The tickets the main thread \<open>p\<close> can get: those of the MLFQ and, if it has a share already, its own.\<close>

definition avail :: "'a ptable_scheme \<Rightarrow> nat \<Rightarrow> int" where
  "avail s p = mlfq_tickets s + (if type (procs s p) = STRIDE then tickets (procs s p) else 0)"

definition switch_ready :: "'a ptable_scheme \<Rightarrow> nat \<Rightarrow> bool" where
  "switch_ready s p = (\<exists>L qs ts l rs mp. enqueued s L qs p ts l \<and> pin_ok (pin s) qs \<and> L Run_head = Some rs \<and> fresh_node L (Run p) \<and>
     getminpass s = Inr mp)"

lemma to_stride:
  assumes "switch_ready s p" and "main_thread p s = Inr p"
  shows "\<exists>s1 mp s3 x s4. dequeue_proc p s = Inr s1 \<and> getminpass s1 = Inr mp \<and>
    threads_apply0 p routine_set_stride (upd p (\<lambda>q. q\<lparr>pass := if mp < mlfq_pass s1 then mp else mlfq_pass s1\<rparr>) s1) = Inr (x, s3) \<and>
    on_links (list_add (Run p) Run_head) s3 = Inr s4 \<and> mlfq_tickets s4 = mlfq_tickets s \<and> plock s4 = plock s \<and>
    type (procs s4 p) = STRIDE \<and> (\<forall>q. tickets (procs s4 q) = tickets (procs s q))"
proof -
  obtain L qs ts l rs mp where h: "enqueued s L qs p ts l" "pin_ok (pin s) qs" "L Run_head = Some rs" "fresh_node L (Run p)" "getminpass s = Inr mp"
    using assms(1) unfolding switch_ready_def by blast
  obtain n lk where d: "dequeue_proc p s = Inr (s\<lparr>pin := (pin s)(l := n), links := lk\<rparr>)"
    "lists lk (L(Queue l \<mapsto> map Mlfq (filter (\<lambda>x. x \<notin> set (p # ts)) (qs l))))"
    using h(1,2) by (rule dequeue_proc_eq)
  let ?L = "L(Queue l \<mapsto> map Mlfq (filter (\<lambda>x. x \<notin> set (p # ts)) (qs l)))"
  let ?s1 = "s\<lparr>pin := (pin s)(l := n), links := lk\<rparr>"
  let ?s2 = "upd p (\<lambda>q. q\<lparr>pass := if mp < mlfq_pass ?s1 then mp else mlfq_pass ?s1\<rparr>) ?s1"
  have m: "getminpass ?s1 = Inr mp" using h(5) by (simp add: getminpass_def heap_entry_def pass_of_def split: if_splits)
  have "in_ring L p ts" using h(1) by (simp add: enqueued_def)
  then have "tgroup (links ?s2) p ts" using in_ring_tgroup [OF d(2)] by (simp add: upd_def)
  note st = set_stride_all [OF this]
  have "?L Run_head = Some rs" "fresh_node ?L (Run p)" using h(3,4) by (auto simp: fresh_node_def)
  then obtain lk' where "list_add (Run p) Run_head lk = Inr lk'" using lists_add [OF d(2)] by blast
  moreover define s3 where "s3 = ?s2\<lparr>procs := set_type (ts @ [p]) (procs ?s2)\<rparr>"
  ultimately have a: "on_links (list_add (Run p) Run_head) s3 = Inr (s3\<lparr>links := lk'\<rparr>)" by (intro on_links_eq) (simp add: upd_def)
  have k: "mlfq_tickets s3 = mlfq_tickets s" "plock s3 = plock s" "type (procs s3 p) = STRIDE" "tickets (procs s3 q) = tickets (procs s q)" for q
    by (simp_all add: s3_def upd_def) (simp_all add: set_type_def)
  show ?thesis
    by (rule exI [of _ ?s1], rule exI [of _ mp], rule exI [of _ s3], rule exI [of _ None], rule exI [of _ "s3\<lparr>links := lk'\<rparr>"])
      (use d(1) m st [folded s3_def] a k in \<open>simp split del: if_split cong: if_cong\<close>)
qed

text \<open>
  C30. CPU shares are conserved. When the main thread of a process asks for a share between 1 and 80 that leaves the MLFQ its reserve, \<open>set_cpu_share\<close>
  returns 0, moves exactly the difference between the MLFQ and the process, which is then scheduled by stride, and changes nobody else's tickets; any
  other request returns -1 and changes nothing. The MLFQ therefore never falls below \<open>RESERVE\<close>.
\<close>

theorem set_cpu_share_conserves:
  assumes "\<not> plock s" and "cur s = Some p" and "main_thread p s = Inr p" and "type (procs s p) = STRIDE \<or> switch_ready (s\<lparr>plock := True, nheld := nheld s + 1\<rparr>) p"
  shows "if 1 \<le> share \<and> share \<le> 100 - RESERVE \<and> RESERVE \<le> avail s p - share
    then \<exists>s'. set_cpu_share share s = Inr (0, s') \<and> mlfq_tickets s' = avail s p - share \<and> RESERVE \<le> mlfq_tickets s' \<and>
      tickets (procs s' p) = share \<and> type (procs s' p) = STRIDE \<and> (\<forall>q. q \<noteq> p \<longrightarrow> tickets (procs s' q) = tickets (procs s q)) \<and> \<not> plock s'
    else set_cpu_share share s = Inr (-1, s)"
proof -
  let ?s = "s\<lparr>plock := True, nheld := nheld s + 1\<rparr>"
  have acq: "ptable_acquire s = Inr ?s" using assms(1) by (simp add: ptable_acquire_def take_lock_def)
  have mt: "main_thread p ?s = Inr p" using assms(3) main_thread_cong [of ?s s p] by simp
  have my: "myproc ?s = Inr p" using assms(2) by (simp add: myproc_def)
  note defs = Let_def set_cpu_share_def acq mt my ptable_release_def drop_lock_def avail_def
  show ?thesis
  proof (cases "1 \<le> share \<and> share \<le> 100 - RESERVE \<and> RESERVE \<le> avail s p - share")
    case False
    then show ?thesis using assms(1) by (auto simp: defs)
  next
    case True
    show ?thesis
    proof (cases "type (procs s p) = STRIDE")
      case stride: True
      then show ?thesis using True by (simp add: defs) (simp add: upd_def)
    next
      case False
      then have ty: "type (procs s p) = MLFQ" by (cases "type (procs s p)") auto
      from False assms(4) to_stride [of ?s p] mt obtain s1 mp s3 x s4 where
        "dequeue_proc p ?s = Inr s1" "getminpass s1 = Inr mp"
        "threads_apply0 p routine_set_stride (upd p (\<lambda>q. q\<lparr>pass := if mp < mlfq_pass s1 then mp else mlfq_pass s1\<rparr>) s1) = Inr (x, s3)"
        "on_links (list_add (Run p) Run_head) s3 = Inr s4" "mlfq_tickets s4 = mlfq_tickets ?s" "plock s4 = plock ?s"
        "type (procs s4 p) = STRIDE" "\<forall>q. tickets (procs s4 q) = tickets (procs ?s q)" by blast
      then show ?thesis using True ty by (simp add: defs) (simp add: upd_def)
    qed
  qed
qed


subsection \<open>A sleeping thread\<close>

text \<open>The small table of \<open>Mlfq\<close> with thread 2 asleep on the clock.\<close>

definition drowsy :: ptable where
  "drowsy = demo\<lparr>links := res_or demo_links (list_add_tail (Sleep 2) Sleep_head demo_links),
     procs := demo_procs(2 := zero_proc\<lparr>state := SLEEPING, pid := 1, tid := 1, thmain := Some 1, chan := Some Chan_ticks\<rparr>), cur := Some 1\<rparr>"

lemma drowsy_lists: "lists (links drowsy) (demo_lists(Sleep_head \<mapsto> [Sleep 2]))"
  using lists_add_tail_or [OF demo_lists, of Sleep_head "[]" "Sleep 2" demo_links]
  by (simp add: drowsy_def demo_def demo_lists_def fun_upd_twist)

theorem wakeup_wakes_witness:
  "\<exists>s'. wakeup (Some Chan_ticks) drowsy = Inr s' \<and> state (procs s' 2) = RUNNABLE \<and> procs s' 3 = procs drowsy 3"
proof -
  let ?L = "demo_lists(Sleep_head \<mapsto> [Sleep 2])"
  have lv: "level_of 1 drowsy = Inr 0" "level_of 2 drowsy = Inr 0"
    by (simp_all add: level_of_def drowsy_def demo_procs_def main_thread_self main_thread_step zero_proc_def)
  have r: "in_ring ?L 2 [1]"
    unfolding in_ring_def by (intro conjI disjI2 exI [of _ 1] exI [of _ "[]"]) (simp_all add: demo_lists_def)
  have q: "queues ?L demo_queues" using demo_queues by (simp add: queues_def)
  have f: "mlfq_free ?L" by (auto simp: mlfq_free_def demo_lists_def split: if_splits)
  have ok: "sleeper_ok drowsy ?L demo_queues 2"
    unfolding sleeper_ok_def using lv r
    by (intro impI exI [of _ 0] exI [of _ "[1]"]) (simp add: demo_queues_def drowsy_def demo_procs_def zero_proc_def)
  have "\<not> plock drowsy" by (simp add: drowsy_def demo_def zero_ptable_def)
  from wakeup_wakes [OF this drowsy_lists, of "[2]" demo_queues "Some Chan_ticks"] q f ok show ?thesis
    by (auto simp: drowsy_def)
qed

theorem set_cpu_share_conserves_witness:
  "\<exists>s'. set_cpu_share 30 (drowsy\<lparr>procs := demo_procs(1 := zero_proc\<lparr>type := STRIDE, tickets := 10, thmain := Some 1\<rparr>), mlfq_tickets := 90\<rparr>) = Inr (0, s') \<and>
     mlfq_tickets s' = 70 \<and> tickets (procs s' 1) = 30"
  using set_cpu_share_conserves [of "drowsy\<lparr>procs := demo_procs(1 := zero_proc\<lparr>type := STRIDE, tickets := 10, thmain := Some 1\<rparr>), mlfq_tickets := 90\<rparr>" 1 30]
  by (auto simp: drowsy_def demo_def zero_ptable_def avail_def main_thread_self)

end
