(* ===== verification/Thread.thy ===== *)
theory Thread
  imports Sleeplock Bytes
begin

section \<open>Threads and futexes (thread.c, futex.c)\<close>

text \<open>
  Creating, ending and joining threads, taking over a process before \<open>exec\<close>, and the futex
  system calls. \<open>thread_join\<close> loops over a test and a sleep: the test is \<open>thread_join_try\<close>, the rest
  of the loop after a wakeup \<open>thread_join_resume\<close>. A pointer to a result is a user address, or
  \<open>None\<close> where the kernel passes a local variable of its own. The lock of the futexes counts in
  \<open>nheld\<close>.
\<close>

abbreviation MAGICEXIT :: u32 where "MAGICEXIT \<equiv> 0xE0E0E0E0"
abbreviation TF_EAX :: u32 where "TF_EAX \<equiv> 28"
abbreviation TF_ES :: u32 where "TF_ES \<equiv> 40"
abbreviation TF_DS :: u32 where "TF_DS \<equiv> 44"
abbreviation TF_EIP :: u32 where "TF_EIP \<equiv> 56"
abbreviation TF_CS :: u32 where "TF_CS \<equiv> 60"
abbreviation TF_EFLAGS :: u32 where "TF_EFLAGS \<equiv> 64"
abbreviation TF_ESP :: u32 where "TF_ESP \<equiv> 68"
abbreviation TF_SS :: u32 where "TF_SS \<equiv> 72"

text \<open>The fields a slot loses when it is freed.\<close>

definition scrub :: "proc \<Rightarrow> proc" where
  "scrub q = q\<lparr>pid := 0, parent := None, pname := (pname q)[0 := 0], type := MLFQ, killed := False,
     tickets := 0, pass := 0, ticks := 0, privlevel := 0, state := UNUSED\<rparr>"

definition free_thread :: "nat \<Rightarrow> 'a ptable_scheme \<Rightarrow> 'a ptable_scheme res" where
  "free_thread th s =
     rbind (kfree (kstack (procs s th)) s) (\<lambda>s.
     let s = upd th (\<lambda>q. q\<lparr>kstack := 0\<rparr>) s
     in rbind (deallocustack (pgdir (procs s th)) (ustack (procs s th)) s) (\<lambda>s.
        let s = upd th (\<lambda>q. (scrub q)\<lparr>tid := 0, retval := 0\<rparr>) s; s = s\<lparr>nproc := nproc s + 1\<rparr>
        in on_links (list_add (Free th) Free_head) s))"

definition take_files :: "proc \<Rightarrow> proc \<Rightarrow> proc" where
  "take_files m q =
     q\<lparr>ofile := map (\<lambda>i. if ofile m ! i \<noteq> None then ofile m ! i else ofile q ! i) [0..<NOFILE]\<rparr>"

definition usurp_proc :: "nat \<Rightarrow> 'a ptable_scheme \<Rightarrow> 'a ptable_scheme res" where
  "usurp_proc th s =
     rbind (main_thread th s) (\<lambda>m.
     let pm = procs s m;
         s = upd th (\<lambda>q. q\<lparr>sz := sz pm, ticks := ticks pm\<rparr>) s;
         s = upd th (take_files pm) s;
         s = upd th (\<lambda>q. q\<lparr>cwd := cwd pm\<rparr>) s;
         s = (if type (procs s th) = STRIDE
              then upd th (\<lambda>q. q\<lparr>tickets := tickets pm, pass := pass pm\<rparr>) s else s)
     in rbind (threads_apply1 th routine_usurp_proc th s) (\<lambda>(_, s).
        let s = upd m (\<lambda>q. q\<lparr>tid := tid (procs s th)\<rparr>) s
        in Inr (upd th (\<lambda>q. q\<lparr>tid := 0\<rparr>) s)))"

subsection \<open>Joining\<close>

definition store_ret :: "u32 option \<Rightarrow> u32 \<Rightarrow> u32 \<Rightarrow> 'a ptable_scheme \<Rightarrow> 'a ptable_scheme res" where
  "store_ret dst pd v s = (case dst of None \<Rightarrow> Inr s | Some va \<Rightarrow> user_store32 pd va v s)"

definition thread_join_try :: "int \<Rightarrow> u32 option \<Rightarrow> 'a ptable_scheme \<Rightarrow> (int, unit, 'a ptable_scheme) outcome res" where
  "thread_join_try thread dst s =
     rbind (myproc s) (\<lambda>curth.
     rbind (get_thread curth thread s) (\<lambda>found.
     case found of
       None \<Rightarrow> rbind (ptable_release s) (\<lambda>s. Inr (Returns (-1) s))
     | Some th \<Rightarrow>
         if killed (procs s curth) then rbind (ptable_release s) (\<lambda>s. Inr (Returns (-1) s))
         else if state (procs s th) = ZOMBIE \<and> thmain (procs s th) = Some curth
         then rbind (store_ret dst (pgdir (procs s curth)) (retval (procs s th)) s) (\<lambda>s.
              rbind (on_links (list_del (Thgroup th)) s) (\<lambda>s.
              rbind (on_links (list_del (Sibling th)) s) (\<lambda>s.
              rbind (free_thread th s) (\<lambda>s.
              rbind (ptable_release s) (\<lambda>s. Inr (Returns 0 s))))))
         else rbind (sleep (Chan_proc curth) None s) (\<lambda>(sw, s). Inr (Sleeps () sw s))))"

definition thread_join :: "int \<Rightarrow> u32 option \<Rightarrow> 'a ptable_scheme \<Rightarrow> (int, unit, 'a ptable_scheme) outcome res" where
  "thread_join thread dst s = rbind (ptable_acquire s) (thread_join_try thread dst)"

definition thread_join_resume :: "int \<Rightarrow> u32 option \<Rightarrow> 'a ptable_scheme \<Rightarrow> (int, unit, 'a ptable_scheme) outcome res" where
  "thread_join_resume thread dst s = rbind (sleep_resume None s) (thread_join_try thread dst)"

text \<open>
  The loop of \<open>monopolize_proc\<close> that joins every other thread. When it sleeps, the thread it
  waits for is the value to continue with.
\<close>

fun join_all :: "nat \<Rightarrow> nat \<Rightarrow> 'a ptable_scheme \<Rightarrow> (int, int, 'a ptable_scheme) outcome res" where
  "join_all 0 p s = Inl Diverges"
| "join_all (Suc fuel) p s =
     (if list_empty (Thgroup p) (links s) then Inr (Returns 0 s)
      else rbind (rbind (deref (nxt (links s (Thgroup p)))) entry_thgroup) (\<lambda>th.
           let t = tid (procs s th)
           in rbind (thread_join t None s) (\<lambda>r.
              case r of
                Sleeps _ sw s \<Rightarrow> Inr (Sleeps t sw s)
              | Returns v s \<Rightarrow> if v < 0 then Inr (Returns (-1) s) else join_all fuel p s)))"

definition monopolize_proc :: "nat \<Rightarrow> 'a ptable_scheme \<Rightarrow> (int, int, 'a ptable_scheme) outcome res" where
  "monopolize_proc p s =
     rbind (ptable_acquire s) (\<lambda>s.
     rbind (if thmain (procs s p) \<noteq> Some p
            then rbind (wakeup1 (map_option Chan_proc (thmain (procs s p))) s) (usurp_proc p)
            else Inr s) (\<lambda>s.
     rbind (terminate_proc p s) (\<lambda>s.
     rbind (ptable_release (upd p (\<lambda>q. q\<lparr>killed := False\<rparr>) s)) (join_all NPROC p))))"

definition monopolize_resume :: "nat \<Rightarrow> int \<Rightarrow> 'a ptable_scheme \<Rightarrow> (int, int, 'a ptable_scheme) outcome res" where
  "monopolize_resume p t s =
     rbind (thread_join_resume t None s) (\<lambda>r.
     case r of
       Sleeps _ sw s \<Rightarrow> Inr (Sleeps t sw s)
     | Returns v s \<Rightarrow> if v < 0 then Inr (Returns (-1) s) else join_all NPROC p s)"

subsection \<open>Creating and ending\<close>

text \<open>The failure path of \<open>thread_create\<close>, when there is no memory for the user stack.\<close>

definition thread_create_undo :: "nat \<Rightarrow> 'a ptable_scheme \<Rightarrow> (int \<times> 'a ptable_scheme) res" where
  "thread_create_undo nw s =
     rbind (kfree (kstack (procs s nw)) s) (\<lambda>s.
     let s = upd nw (\<lambda>q. q\<lparr>kstack := 0\<rparr>) s
     in rbind (on_links (list_del (Sibling nw)) s) (\<lambda>s.
        let s = upd nw (\<lambda>q. q\<lparr>state := UNUSED\<rparr>) s; s = s\<lparr>nproc := nproc s + 1\<rparr>
        in rbind (on_links (list_add (Free nw) Free_head) s) (\<lambda>s.
           rbind (ptable_release s) (\<lambda>s. Inr (-1, s)))))"

text \<open>From the user stack on: \<open>sp\<close> is its top.\<close>

definition thread_create_run :: "nat \<Rightarrow> nat \<Rightarrow> nat \<Rightarrow> nat \<Rightarrow> u32 \<Rightarrow> u32 \<Rightarrow> u32 \<Rightarrow> u32 \<Rightarrow> 'a ptable_scheme \<Rightarrow>
    (int \<times> 'a ptable_scheme) res" where
  "thread_create_run nw curth m thlast sp thread start_routine arg s =
     (let s = upd nw (\<lambda>q. q\<lparr>ustack := sp - USTACKSIZE\<rparr>) s; pd = pgdir (procs s nw)
      in rbind (user_store32 pd (sp - 4) arg s) (\<lambda>s.
         rbind (user_store32 pd (sp - 8) MAGICEXIT s) (\<lambda>s.
         let s = upd nw (\<lambda>q. q\<lparr>tid := tid (procs s thlast) + 1, thmain := Some curth\<rparr>) s
         in rbind (on_links (list_add_tail (Thgroup nw) (Thgroup m)) s) (\<lambda>s.
            rbind (user_store32 pd thread (of_int (tid (procs s nw))) s) (\<lambda>s.
            let t = tf (procs s nw);
                s = kmemmove t (tf (procs s curth)) TRAPFRAME s;
                s = store32 (t + TF_EAX) 0 s;
                s = store32 (t + TF_ESP) (sp - 8) s;
                s = store32 (t + TF_EIP) start_routine s
            in rbind (safestrcpy (pname (procs s nw)) (cview (pname (procs s m))) 16) (\<lambda>nm.
               let s = upd nw (\<lambda>q. q\<lparr>pname := nm, state := RUNNABLE\<rparr>) s
               in rbind (if type (procs s nw) = MLFQ then enqueue_thread nw s else Inr s) (\<lambda>s.
                  rbind (ptable_release (invalidate_tlb curth s)) (\<lambda>s. Inr (0, s)))))))))"

definition thread_create :: "u32 \<Rightarrow> u32 \<Rightarrow> u32 \<Rightarrow> 'a ptable_scheme \<Rightarrow> (int \<times> 'a ptable_scheme) res" where
  "thread_create thread start_routine arg s =
     rbind (ptable_acquire s) (\<lambda>s.
     rbind (myproc s) (\<lambda>curth.
     rbind (main_thread curth s) (\<lambda>m.
     rbind (rbind (deref (prv (links s (Thgroup m)))) entry_thgroup) (\<lambda>thlast.
     rbind (allocproc s) (\<lambda>(r, s).
     case r of
       None \<Rightarrow> rbind (ptable_release s) (\<lambda>s. Inr (-1, s))
     | Some nw \<Rightarrow>
         let pm = procs s m;
             s = upd nw (\<lambda>q. q\<lparr>pid := pid pm, pgdir := pgdir pm, parent := parent pm\<rparr>) s
         in rbind (deref (parent pm)) (\<lambda>par.
            rbind (on_links (list_add_tail (Sibling nw) (Children par)) s) (\<lambda>s.
            let s = upd nw (\<lambda>q. q\<lparr>type := type pm\<rparr>) s;
                sp = PGROUNDDOWN (ustack (procs s thlast)) - PGSIZE
            in rbind (allocustack (pgdir (procs s nw)) (sp - USTACKSIZE) s) (\<lambda>(r, s).
               if r = 0 then thread_create_undo nw s
               else thread_create_run nw curth m thlast sp thread start_routine arg s))))))))"

text \<open>Handing children over: the new parent is set, then the list is moved.\<close>

definition pass_children :: "nat \<Rightarrow> nat \<Rightarrow> (nat \<Rightarrow> 'a ptable_scheme \<Rightarrow> 'a ptable_scheme res) \<Rightarrow>
    'a ptable_scheme \<Rightarrow> 'a ptable_scheme res" where
  "pass_children p new each s =
     rbind (walk (Suc NPROC) (Children p) (nxt (links s (Children p))) (links s)) (\<lambda>itrs.
     rbind (rfold (\<lambda>itr s. rbind (entry_sibling itr) (\<lambda>c.
              each c (upd c (\<lambda>q. q\<lparr>parent := Some new\<rparr>) s))) itrs s) (\<lambda>s.
     on_links (list_bulk_move_tail (Children p) (Children new)) s))"

definition thread_exit :: "u32 \<Rightarrow> 'a ptable_scheme \<Rightarrow> (switch option \<times> 'a ptable_scheme) res" where
  "thread_exit rv s =
     rbind (myproc s) (\<lambda>curth.
     if thmain (procs s curth) = Some curth then Inr (None, s)
     else let s = upd curth (\<lambda>q. q\<lparr>ofile := replicate NOFILE None, cwd := None\<rparr>) s
          in rbind (ptable_acquire s) (\<lambda>s.
             let s = upd curth (\<lambda>q. q\<lparr>retval := rv\<rparr>) s
             in rbind (wakeup1 (map_option Chan_proc (thmain (procs s curth))) s) (\<lambda>s.
                rbind (threads_apply1 curth routine_handle_orphan_thread curth s) (\<lambda>(_, s).
                rbind (main_thread curth s) (\<lambda>m.
                rbind (pass_children curth m (\<lambda>_ s. Inr s) s) (\<lambda>s.
                rbind (if type (procs s curth) = MLFQ then dequeue_thread curth s else Inr s) (\<lambda>s.
                rbind (sched (upd curth (\<lambda>q. q\<lparr>state := ZOMBIE\<rparr>) s)) (\<lambda>(sw, s). Inr (Some sw, s)))))))))"

subsection \<open>Futexes\<close>

definition futex_wait :: "u32 \<Rightarrow> int \<Rightarrow> 'a ptable_scheme \<Rightarrow> (int, unit, 'a ptable_scheme) outcome res" where
  "futex_wait addr t s =
     rbind (myproc s) (\<lambda>th.
     let s = spin_enter s
     in rbind (user_load32 (pgdir (procs s th)) addr s) (\<lambda>v.
        if sint v = t
        then if t = tid (procs s th)
             then rbind (sleep (Chan_proc th) (Some (\<lambda>s. Inr (spin_leave s))) s) (\<lambda>(sw, s). Inr (Sleeps () sw s))
             else Inr (Returns (-1) (spin_leave s))
        else Inr (Returns 0 (spin_leave s))))"

definition futex_wait_resume :: "'a ptable_scheme \<Rightarrow> (int, unit, 'a ptable_scheme) outcome res" where
  "futex_wait_resume s =
     rbind (sleep_resume (Some (\<lambda>s. Inr (spin_enter s))) s) (\<lambda>s. Inr (Returns 0 (spin_leave s)))"

definition futex_wake :: "u32 \<Rightarrow> 'a ptable_scheme \<Rightarrow> (int \<times> 'a ptable_scheme) res" where
  "futex_wake addr s =
     rbind (myproc s) (\<lambda>me.
     let s = spin_enter s
     in rbind (user_load32 (pgdir (procs s me)) addr s) (\<lambda>v.
        rbind (get_thread me (sint v) s) (\<lambda>th.
        case th of
          Some th \<Rightarrow> rbind (wakeup (Some (Chan_proc th)) s) (\<lambda>s. Inr (0, spin_leave s))
        | None \<Rightarrow> Inr (-1, spin_leave s))))"

end
