(* ===== verification/Futex_Exit.thy ===== *)
theory Futex_Exit
  imports Thread
begin

section \<open>Wakeups that are not meant for a futex\<close>

text \<open>
  A thread in \<open>futex_wait\<close> sleeps on the address of its own \<open>struct proc\<close>, which is also the channel on which \<open>thread_exit\<close> wakes the thread
  that has created the exiting one (\<open>wakeup1(curth->thmain)\<close>), and \<open>futex_wait\<close> does not look at its word again. A run of the
  functions of \<open>Thread\<close> and \<open>Sched\<close> shows the consequence: a process with a CPU share and two threads, 2 and 3, of which 2 has created 3; \<open>two\<close> is a
  state of the kernel with these threads.
\<close>

definition two :: "mem \<Rightarrow> node lstore \<Rightarrow> proc \<Rightarrow> proc \<Rightarrow> nat \<Rightarrow> bool \<Rightarrow> int \<Rightarrow> ptable" where
  "two m lk p1 p2 c l n = zero_ptable\<lparr>pmem := m, links := lk, procs := (\<lambda>_. zero_proc)(2 := p1, 3 := p2), cur := Some c, plock := l, nheld := n,
     esp0 := KSTACKSIZE\<rparr>"

definition pair_links :: "node lstore" where
  "pair_links = (\<lambda>n. \<lparr>prv = Some n, nxt = Some n\<rparr>)(Thgroup 2 := \<lparr>prv = Some (Thgroup 3), nxt = Some (Thgroup 3)\<rparr>,
     Thgroup 3 := \<lparr>prv = Some (Thgroup 2), nxt = Some (Thgroup 2)\<rparr>)"

definition asleep_links :: "node lstore" where
  "asleep_links = pair_links(Sleep_head := \<lparr>prv = Some (Sleep 2), nxt = Some (Sleep 2)\<rparr>,
     Sleep 2 := \<lparr>prv = Some Sleep_head, nxt = Some Sleep_head\<rparr>)"

definition woken_links :: "node lstore" where
  "woken_links = pair_links(Sleep 2 := \<lparr>prv = None, nxt = None\<rparr>)"

definition peer :: "int \<Rightarrow> proc" where
  "peer t = zero_proc\<lparr>pid := 1, tid := t, thmain := Some 2, type := STRIDE, ticks := 1, pgdir := 0x80001000\<rparr>"

text \<open>What the steps of the run do to the links and to the two threads.\<close>

lemma links_steps:
  "list_add (Sleep 2) Sleep_head pair_links = Inr asleep_links"
  "list_del (Sleep 2) asleep_links = Inr woken_links"
  "list_bulk_move_tail (Children 3) (Children 2) woken_links = Inr woken_links"
  by (auto simp: list_add_def ll_list_add_def list_del_def ll_list_del_entry_def ll_list_del_def list_bulk_move_tail_def list_empty_def
      asleep_links_def woken_links_def pair_links_def Let_def link_simps fun_eq_iff)

lemma pair_groups:
  assumes "lk \<in> {pair_links, asleep_links, woken_links}"
  shows "tgroup lk 2 [3]" "tgroup lk 3 [2]"
  using assms by (auto simp: tgroup_def dlist_def asleep_links_def woken_links_def pair_links_def)

lemma two_sel [simp]:
  "links (two m lk p1 p2 c l n) = lk" "procs (two m lk p1 p2 c l n) = (\<lambda>_. zero_proc)(2 := p1, 3 := p2)"
  "cur (two m lk p1 p2 c l n) = Some c" "plock (two m lk p1 p2 c l n) = l" "nheld (two m lk p1 p2 c l n) = n"
  "pmem (two m lk p1 p2 c l n) = m"
  by (simp_all add: two_def)

lemma two_upd [simp]:
  "upd 2 f (two m lk p1 p2 c l n) = two m lk (f p1) p2 c l n" "upd 3 f (two m lk p1 p2 c l n) = two m lk p1 (f p2) c l n"
  "(two m lk p1 p2 c l n)\<lparr>links := lk'\<rparr> = two m lk' p1 p2 c l n" "(two m lk p1 p2 c l n)\<lparr>cur := Some c'\<rparr> = two m lk p1 p2 c' l n"
  "(two m lk p1 p2 c l n)\<lparr>plock := l'\<rparr> = two m lk p1 p2 c l' n" "(two m lk p1 p2 c l n)\<lparr>nheld := n'\<rparr> = two m lk p1 p2 c l n'"
  by (simp_all add: two_def upd_def fun_upd_twist)

lemma two_switch: "kstack p1 = 0 \<Longrightarrow> kstack p2 = 0 \<Longrightarrow> p \<in> {2, 3} \<Longrightarrow> vswitchuvm p (two m lk p1 p2 c l n) = two m lk p1 p2 c l n"
  by (auto simp: vswitchuvm_def two_def)

lemma two_myproc [simp]: "myproc (two m lk p1 p2 c l n) = Inr c"
  by (simp add: myproc_def)

lemma two_locks [simp]:
  "ptable_acquire (two m lk p1 p2 c False n) = Inr (two m lk p1 p2 c True (n + 1))"
  "ptable_release (two m lk p1 p2 c True n) = Inr (two m lk p1 p2 c False (n - 1))"
  "spin_enter (two m lk p1 p2 c l n) = two m lk p1 p2 c l (n + 1)" "spin_leave (two m lk p1 p2 c l n) = two m lk p1 p2 c l (n - 1)"
  by (simp_all add: ptable_acquire_def ptable_release_def take_lock_def drop_lock_def spin_enter_def spin_leave_def)

lemma two_main:
  "thmain p1 = Some 2 \<Longrightarrow> thmain p2 = Some 2 \<Longrightarrow> main_thread 2 (two m lk p1 p2 c l n) = Inr 2"
  "thmain p1 = Some 2 \<Longrightarrow> thmain p2 = Some 2 \<Longrightarrow> main_thread 3 (two m lk p1 p2 c l n) = Inr 2"
  by (auto intro: main_thread_self main_thread_step)

lemma two_ready:
  assumes "lk \<in> {pair_links, asleep_links, woken_links}"
  shows "ready_thread 2 (two m lk p1 p2 c l n) = Inr (find (\<lambda>t. state (if t = 2 then p1 else p2) = RUNNABLE) [3, 2])"
    "ready_thread 3 (two m lk p1 p2 c l n) = Inr (find (\<lambda>t. state (if t = 2 then p1 else p2) = RUNNABLE) [2, 3])"
  using ready_thread_eq [of "two m lk p1 p2 c l n" 2 "[3]"] ready_thread_eq [of "two m lk p1 p2 c l n" 3 "[2]"] pair_groups [OF assms] by auto

lemma sleep_pair:
  "sleep (Chan_proc 2) (Some (\<lambda>s. Inr (spin_leave s))) (two m pair_links ((peer 2)\<lparr>state := RUNNING\<rparr>) ((peer 3)\<lparr>state := RUNNABLE\<rparr>) 2 False 1) =
   Inr (To_thread 3, two m asleep_links ((peer 2)\<lparr>state := SLEEPING, chan := Some (Chan_proc 2)\<rparr>) ((peer 3)\<lparr>state := RUNNING\<rparr>) 3 True 1)"
  by (simp add: sleep_def sched_def on_links_def links_steps two_ready two_main two_switch peer_def Let_def zero_proc_def)


definition word_mem :: mem where
  "word_mem = write32 0x80001000 0x2007 (write32 0x80002000 0x3007 (write32 0x80003010 2 (\<lambda>_. 0)))"

lemma word_mem_load: "user_load32 0x80001000 0x10 (two word_mem lk p1 p2 c l n) = Inr 2"
proof -
  have "read32 0x80001000 word_mem = 0x2007" "read32 0x80002000 word_mem = 0x3007" "read32 0x80003010 word_mem = 2" by code_simp+
  moreover have "PDX 0x10 = 0" "PTX 0x10 = 0" "P2V (PTE_ADDR 0x2007) = 0x80002000" "P2V (PTE_ADDR 0x3007) = 0x80003000" by code_simp+
  ultimately show ?thesis by (simp add: user_load32_def walkpgdir_def load32_def Let_def) 
qed

lemma wakeup_pair:
  assumes "chan p1 = Some (Chan_proc 2)" and "type p1 = STRIDE"
  shows "wakeup1 (Some (Chan_proc 2)) (two m asleep_links p1 p2 c l n) = Inr (two m woken_links (p1\<lparr>state := RUNNABLE\<rparr>) p2 c l n)"
proof -
  have nx: "nxt (asleep_links Sleep_head) = Some (Sleep 2)" "nxt (asleep_links (Sleep 2)) = Some Sleep_head"
    by (simp_all add: asleep_links_def)
  show ?thesis
    using assms wakeup1_loop.simps(2) [of 256 "Some (Chan_proc 2)" "Some (Sleep 2)" "two m asleep_links p1 p2 c l n"]
      wakeup1_loop.simps(2) [of 255 "Some (Chan_proc 2)" "Some Sleep_head" "two m woken_links (p1\<lparr>state := RUNNABLE\<rparr>) p2 c l n"]
    by (simp add: wakeup1_def nx on_links_def links_steps Let_def)
qed

lemma orphan_pair:
  assumes "thmain p1 = Some 2" "thmain p2 = Some 2"
  shows "threads_apply1 3 routine_handle_orphan_thread 3 (two m woken_links p1 p2 c l n) = Inr (None, two m woken_links p1 p2 c l n)"
proof -
  have "tgroup woken_links 3 [2]" by (rule pair_groups) simp
  then have "threads_apply1 3 routine_handle_orphan_thread 3 (two m woken_links p1 p2 c l n) =
      apply_until (\<lambda>th. routine_handle_orphan_thread th 3) ([2] @ [3]) (two m woken_links p1 p2 c l n)"
    by (intro threads_apply1_eq) simp_all
  then show ?thesis using assms by (simp add: routine_handle_orphan_thread_def)
qed

lemma children_pair: "pass_children 3 2 (\<lambda>_ s. Inr s) (two m woken_links p1 p2 c l n) = Inr (two m woken_links p1 p2 c l n)"
proof -
  have "nxt (woken_links (Children 3)) = Some (Children 3)" by (simp add: woken_links_def pair_links_def)
  then show ?thesis
    using walk.simps(2) [of 256 "Children 3" "Some (Children 3)" woken_links] by (simp add: pass_children_def on_links_def links_steps)
qed

lemma exit_pair:
  "thread_exit rv (two m asleep_links ((peer 2)\<lparr>state := SLEEPING, chan := Some (Chan_proc 2)\<rparr>) ((peer 3)\<lparr>state := RUNNING\<rparr>) 3 False 0) =
   Inr (Some (To_thread 2), two m woken_links ((peer 2)\<lparr>state := RUNNING, chan := Some (Chan_proc 2)\<rparr>)
     ((peer 3)\<lparr>state := ZOMBIE, retval := rv\<rparr>) 2 True 1)"
  by (simp add: thread_exit_def sched_def wakeup_pair orphan_pair children_pair two_ready two_main two_switch peer_def Let_def zero_proc_def)


text \<open>
  C37. A thread that waits in \<open>futex_wait\<close>, as a waiter of a semaphore does, returns when a thread that it has created exits. There is a
  run of the kernel in which thread 2 sleeps in \<open>futex_wait\<close> on the word at address 16; the CPU goes to thread 3, which it has created and which
  returns from its \<open>yield\<close> and calls \<open>thread_exit\<close>; the CPU goes back to thread 2, whose \<open>futex_wait\<close> returns 0, although nobody has called
  \<open>futex_wake\<close> and the word still holds the value that thread 2 waits to change.
\<close>

theorem exit_ends_futex_wait:
  "\<exists>(s0 :: ptable) s1 s2 s3 s4. cur s0 = Some 2 \<and> futex_wait 16 (tid (procs s0 2)) s0 = Inr (Sleeps () (To_thread 3) s1) \<and> state (procs s1 2) = SLEEPING \<and>
     yield_resume s1 = Inr s2 \<and> cur s2 = Some 3 \<and> thmain (procs s2 3) = Some 2 \<and> thread_exit 0 s2 = Inr (Some (To_thread 2), s3) \<and>
     futex_wait_resume s3 = Inr (Returns 0 s4) \<and> cur s4 = Some 2 \<and>
     rbind (user_load32 (pgdir (procs s4 2)) 16 s4) (\<lambda>v. Inr (sint v)) = Inr (tid (procs s4 2))"
proof -
  let ?s0 = "two word_mem pair_links ((peer 2)\<lparr>state := RUNNING\<rparr>) ((peer 3)\<lparr>state := RUNNABLE\<rparr>) 2 False 0"
  let ?p2 = "(peer 2)\<lparr>state := SLEEPING, chan := Some (Chan_proc 2)\<rparr>" and ?p3 = "(peer 3)\<lparr>state := RUNNING\<rparr>"
  let ?s3 = "two word_mem woken_links ((peer 2)\<lparr>state := RUNNING, chan := Some (Chan_proc 2)\<rparr>) ((peer 3)\<lparr>state := ZOMBIE, retval := 0\<rparr>) 2 True 1"
  let ?s4 = "two word_mem woken_links ((peer 2)\<lparr>state := RUNNING, chan := None\<rparr>) ((peer 3)\<lparr>state := ZOMBIE, retval := 0\<rparr>) 2 False 0"
  have peers: "tid (peer 2) = 2" "pgdir (peer 2) = 0x80001000" "thmain (peer 3) = Some 2" by (simp_all add: peer_def)
  have two: "sint (2 :: 32 word) = 2" by code_simp
  have "futex_wait 16 2 ?s0 = Inr (Sleeps () (To_thread 3) (two word_mem asleep_links ?p2 ?p3 3 True 1))"
    using sleep_pair [of word_mem] by (simp add: futex_wait_def Let_def word_mem_load peers two)
  moreover have "yield_resume (two word_mem asleep_links ?p2 ?p3 3 True 1) = Inr (two word_mem asleep_links ?p2 ?p3 3 False 0)"
    by (simp add: yield_resume_def)
  moreover have "futex_wait_resume ?s3 = Inr (Returns 0 ?s4)"
    by (simp add: futex_wait_resume_def sleep_resume_def Let_def)
  ultimately show ?thesis
    using exit_pair [of 0 word_mem] word_mem_load [of woken_links] peers two
    by (intro exI [of _ ?s0] exI [of _ "two word_mem asleep_links ?p2 ?p3 3 True 1"] exI [of _ "two word_mem asleep_links ?p2 ?p3 3 False 0"]
        exI [of _ ?s3] exI [of _ ?s4]) simp
qed

end
