(* ===== verification/File.thy ===== *)
theory File
  imports Fs
begin

section \<open>Open files and pipes (file.c, pipe.c)\<close>

text \<open>
  The table of open files and the pipes. A \<open>struct file\<close> is a slot of the table, named by its
  index. A pipe lives in a page of its own and is named by the page's address; its fields are kept in
  \<open>pipes\<close> instead of the bytes of the page. The lock of a pipe counts in \<open>nheld\<close>.

  \<open>pipewrite\<close> and \<open>piperead\<close> may sleep. The calls then end with \<open>Sleeps\<close>, with the number of bytes
  already moved; \<open>pipewrite_resume\<close> and \<open>piperead_resume\<close> are the rest of the source's loops after
  the wakeup. The bytes of a read are returned; a write takes the bytes of the caller's buffer.
\<close>

abbreviation NFILE :: nat where "NFILE \<equiv> 100"
abbreviation PIPESIZE :: nat where "PIPESIZE \<equiv> 512"

datatype ftype = FD_NONE | FD_PIPE | FD_INODE

record kfile =
  fdtype :: ftype
  fref :: int
  readable :: bool
  writable :: bool
  fpipe :: u32
  fip :: nat
  foff :: u32

record pipe =
  pdata :: "u8 list"
  nread :: u32
  nwrite :: u32
  readopen :: bool
  writeopen :: bool

record files = fsys +
  ftable :: "nat \<Rightarrow> kfile"
  pipes :: "u32 \<Rightarrow> pipe"

definition fupd :: "nat \<Rightarrow> (kfile \<Rightarrow> kfile) \<Rightarrow> 'a files_scheme \<Rightarrow> 'a files_scheme" where
  "fupd f g s = s\<lparr>ftable := (ftable s)(f := g (ftable s f))\<rparr>"

definition pupd :: "u32 \<Rightarrow> (pipe \<Rightarrow> pipe) \<Rightarrow> 'a files_scheme \<Rightarrow> 'a files_scheme" where
  "pupd p g s = s\<lparr>pipes := (pipes s)(p := g (pipes s p))\<rparr>"

subsection \<open>Pipes\<close>

definition pipeclose :: "u32 \<Rightarrow> bool \<Rightarrow> 'a files_scheme \<Rightarrow> 'a files_scheme res" where
  "pipeclose p wr s =
     (let s = spin_enter s
      in rbind (if wr then wakeup (Some (Chan_nread p)) (pupd p (\<lambda>q. q\<lparr>writeopen := False\<rparr>) s)
                else wakeup (Some (Chan_nwrite p)) (pupd p (\<lambda>q. q\<lparr>readopen := False\<rparr>) s)) (\<lambda>s.
         let s = spin_leave s
         in if \<not> readopen (pipes s p) \<and> \<not> writeopen (pipes s p) then kfree p s else Inr s))"

definition put_byte :: "u8 \<Rightarrow> pipe \<Rightarrow> pipe" where
  "put_byte c q = q\<lparr>pdata := (pdata q)[unat (nwrite q mod 512) := c], nwrite := nwrite q + 1\<rparr>"

definition get_byte :: "pipe \<Rightarrow> u8 \<times> pipe" where
  "get_byte q = (pdata q ! unat (nread q mod 512), q\<lparr>nread := nread q + 1\<rparr>)"

fun pipewrite_loop :: "u32 \<Rightarrow> u8 list \<Rightarrow> nat \<Rightarrow> 'a files_scheme \<Rightarrow> (int, nat, 'a files_scheme) outcome res" where
  "pipewrite_loop p [] i s =
     rbind (wakeup (Some (Chan_nread p)) s) (\<lambda>s. Inr (Returns (int i) (spin_leave s)))"
| "pipewrite_loop p (c # cs) i s =
     (if nwrite (pipes s p) = nread (pipes s p) + of_nat PIPESIZE
      then rbind (myproc s) (\<lambda>me.
           if \<not> readopen (pipes s p) \<or> killed (procs s me) then Inr (Returns (-1) (spin_leave s))
           else rbind (wakeup (Some (Chan_nread p)) s) (\<lambda>s.
                rbind (sleep (Chan_nwrite p) (Some (\<lambda>s. Inr (spin_leave s))) s) (\<lambda>(sw, s).
                Inr (Sleeps i sw s))))
      else pipewrite_loop p cs (Suc i) (pupd p (put_byte c) s))"

definition pipewrite :: "u32 \<Rightarrow> u8 list \<Rightarrow> 'a files_scheme \<Rightarrow> (int, nat, 'a files_scheme) outcome res" where
  "pipewrite p addr s = pipewrite_loop p addr 0 (spin_enter s)"

definition pipewrite_resume :: "u32 \<Rightarrow> u8 list \<Rightarrow> nat \<Rightarrow> 'a files_scheme \<Rightarrow> (int, nat, 'a files_scheme) outcome res" where
  "pipewrite_resume p addr i s =
     rbind (sleep_resume (Some (\<lambda>s. Inr (spin_enter s))) s) (pipewrite_loop p (drop i addr) i)"

fun piperead_copy :: "u32 \<Rightarrow> nat \<Rightarrow> 'a files_scheme \<Rightarrow> u8 list \<times> 'a files_scheme" where
  "piperead_copy p 0 s = ([], s)"
| "piperead_copy p (Suc n) s =
     (if nread (pipes s p) = nwrite (pipes s p) then ([], s)
      else let (c, q) = get_byte (pipes s p); (cs, s) = piperead_copy p n (pupd p (\<lambda>_. q) s)
           in (c # cs, s))"

text \<open>\<open>piperead_wait\<close> is the loop from its test on, with the pipe locked.\<close>

definition piperead_wait :: "u32 \<Rightarrow> int \<Rightarrow> 'a files_scheme \<Rightarrow> (int \<times> u8 list, nat, 'a files_scheme) outcome res" where
  "piperead_wait p n s =
     (if nread (pipes s p) = nwrite (pipes s p) \<and> writeopen (pipes s p)
      then rbind (myproc s) (\<lambda>me.
           if killed (procs s me) then Inr (Returns (-1, []) (spin_leave s))
           else rbind (sleep (Chan_nread p) (Some (\<lambda>s. Inr (spin_leave s))) s) (\<lambda>(sw, s). Inr (Sleeps 0 sw s)))
      else let (d, s) = piperead_copy p (nat n) s
           in rbind (wakeup (Some (Chan_nwrite p)) s) (\<lambda>s.
              Inr (Returns (int (length d), d) (spin_leave s))))"

definition piperead :: "u32 \<Rightarrow> int \<Rightarrow> 'a files_scheme \<Rightarrow> (int \<times> u8 list, nat, 'a files_scheme) outcome res" where
  "piperead p n s = piperead_wait p n (spin_enter s)"

definition piperead_resume :: "u32 \<Rightarrow> int \<Rightarrow> 'a files_scheme \<Rightarrow> (int \<times> u8 list, nat, 'a files_scheme) outcome res" where
  "piperead_resume p n s = rbind (sleep_resume (Some (\<lambda>s. Inr (spin_enter s))) s) (piperead_wait p n)"

subsection \<open>Open files\<close>

definition filealloc :: "'a files_scheme \<Rightarrow> nat option \<times> 'a files_scheme" where
  "filealloc s =
     (case find (\<lambda>f. fref (ftable s f) = 0) [0..<NFILE] of
        Some f \<Rightarrow> (Some f, fupd f (\<lambda>e. e\<lparr>fref := 1\<rparr>) s)
      | None \<Rightarrow> (None, s))"

definition filedup :: "nat \<Rightarrow> 'a files_scheme \<Rightarrow> 'a files_scheme res" where
  "filedup f s =
     (if fref (ftable s f) < 1 then Inl (Panic ''filedup'')
      else Inr (fupd f (\<lambda>e. e\<lparr>fref := fref e + 1\<rparr>) s))"

definition fileclose :: "nat \<Rightarrow> 'a files_scheme \<Rightarrow> 'a files_scheme res" where
  "fileclose f s =
     (if fref (ftable s f) < 1 then Inl (Panic ''fileclose'')
      else let s = fupd f (\<lambda>e. e\<lparr>fref := fref e - 1\<rparr>) s
           in if fref (ftable s f) > 0 then Inr s
              else let ff = ftable s f;
                       s = fupd f (\<lambda>e. e\<lparr>fref := 0, fdtype := FD_NONE\<rparr>) s
                   in case fdtype ff of
                        FD_PIPE \<Rightarrow> pipeclose (fpipe ff) (writable ff) s
                      | FD_INODE \<Rightarrow> rbind (op_begin s) (\<lambda>s. rbind (iput (fip ff) s) op_end)
                      | FD_NONE \<Rightarrow> Inr s)"

definition filestat :: "nat \<Rightarrow> 'a files_scheme \<Rightarrow> (int \<times> stat option \<times> 'a files_scheme) res" where
  "filestat f s =
     (if fdtype (ftable s f) = FD_INODE
      then let ip = fip (ftable s f)
           in rbind (ilock ip s) (\<lambda>s.
              let st = stati ip s in rbind (iunlock ip s) (\<lambda>s. Inr (0, Some st, s)))
      else Inr (-1, None, s))"

definition fileread :: "nat \<Rightarrow> int \<Rightarrow> int \<Rightarrow> 'a files_scheme \<Rightarrow> (int \<times> u8 list, nat, 'a files_scheme) outcome res" where
  "fileread f n off s =
     (if \<not> readable (ftable s f) then Inr (Returns (-1, []) s)
      else case fdtype (ftable s f) of
             FD_PIPE \<Rightarrow> piperead (fpipe (ftable s f)) n s
           | FD_INODE \<Rightarrow>
               (let ip = fip (ftable s f)
                in rbind (ilock ip s) (\<lambda>s.
                   rbind (if off < 0
                          then rbind (readi ip (foff (ftable s f)) (of_int n) s) (\<lambda>(r, d, s).
                               Inr (r, d, if r > 0 then fupd f (\<lambda>e. e\<lparr>foff := foff e + of_int r\<rparr>) s else s))
                          else readi ip (of_int off) (of_int n) s) (\<lambda>(r, d, s).
                   rbind (iunlock ip s) (\<lambda>s. Inr (Returns (r, d) s)))))
           | FD_NONE \<Rightarrow> Inl (Panic ''fileread''))"

abbreviation WRITEMAX :: int where "WRITEMAX \<equiv> 1536"

fun filewrite_loop :: "nat \<Rightarrow> nat \<Rightarrow> u8 list \<Rightarrow> int \<Rightarrow> int \<Rightarrow> bool \<Rightarrow> u32 \<Rightarrow> 'a files_scheme \<Rightarrow> (int \<times> 'a files_scheme) res" where
  "filewrite_loop 0 f addr n i seq off s = Inl Diverges"
| "filewrite_loop (Suc fuel) f addr n i seq off s =
     (if i < n
      then let n1 = min (n - i) WRITEMAX; ip = fip (ftable s f)
           in rbind (op_begin s) (\<lambda>s.
              rbind (ilock ip s) (\<lambda>s.
              rbind (writei ip (drop (nat i) addr) (if seq then foff (ftable s f) else off) (of_int n1) s) (\<lambda>(r, s).
              let (off, s) = (if r > 0
                              then if seq then (off, fupd f (\<lambda>e. e\<lparr>foff := foff e + of_int r\<rparr>) s)
                                   else (off + of_int r, s)
                              else (off, s))
              in rbind (iunlock ip s) (\<lambda>s.
                 rbind (op_end s) (\<lambda>s.
                 if r < 0 then Inr (if i = n then n else -1, s)
                 else if r \<noteq> n1 then Inl (Panic ''short filewrite'')
                 else filewrite_loop fuel f addr n (i + r) seq off s)))))
      else Inr (if i = n then n else -1, s))"

definition filewrite :: "nat \<Rightarrow> u8 list \<Rightarrow> int \<Rightarrow> int \<Rightarrow> 'a files_scheme \<Rightarrow> (int, nat, 'a files_scheme) outcome res" where
  "filewrite f addr n off s =
     (if \<not> writable (ftable s f) then Inr (Returns (-1) s)
      else case fdtype (ftable s f) of
             FD_PIPE \<Rightarrow> pipewrite (fpipe (ftable s f)) (take (nat n) addr) s
           | FD_INODE \<Rightarrow>
               rbind (filewrite_loop (Suc (nat n)) f addr n 0 (off < 0) (of_int off) s) (\<lambda>(r, s).
               Inr (Returns r s))
           | FD_NONE \<Rightarrow> Inl (Panic ''filewrite''))"

definition pipealloc :: "'a files_scheme \<Rightarrow> (int \<times> (nat \<times> nat) option \<times> 'a files_scheme) res" where
  "pipealloc s =
     (let (f0, s) = filealloc s
      in case f0 of
           None \<Rightarrow> Inr (-1, None, s)
         | Some f0 \<Rightarrow>
             (let (f1, s) = filealloc s
              in case f1 of
                   None \<Rightarrow> rbind (fileclose f0 s) (\<lambda>s. Inr (-1, None, s))
                 | Some f1 \<Rightarrow>
                     rbind (kalloc s) (\<lambda>(p, s).
                     if p = 0
                     then rbind (fileclose f0 s) (\<lambda>s. rbind (fileclose f1 s) (\<lambda>s. Inr (-1, None, s)))
                     else let s = pupd p (\<lambda>q. q\<lparr>readopen := True, writeopen := True, nwrite := 0, nread := 0\<rparr>) s;
                              s = fupd f0 (\<lambda>e. e\<lparr>fdtype := FD_PIPE, readable := True, writable := False, fpipe := p\<rparr>) s;
                              s = fupd f1 (\<lambda>e. e\<lparr>fdtype := FD_PIPE, readable := False, writable := True, fpipe := p\<rparr>) s
                          in Inr (0, Some (f0, f1), s))))"

subsection \<open>A pipe is a queue of bytes\<close>

text \<open>
  The two counters of a pipe run freely and wrap at \<open>2 ^ 32\<close>; since the size of the ring divides that, the
  indices stay consistent. \<open>contents\<close> are the bytes written and not yet read.
\<close>

definition pipe_ok :: "pipe \<Rightarrow> bool" where
  "pipe_ok q = (length (pdata q) = PIPESIZE \<and> nwrite q - nread q \<le> 512)"

definition contents :: "pipe \<Rightarrow> u8 list" where
  "contents q = map (\<lambda>i. pdata q ! unat ((nread q + of_nat i) mod 512)) [0..<unat (nwrite q - nread q)]"

definition room :: "pipe \<Rightarrow> bool" where
  "room q = (nwrite q \<noteq> nread q + of_nat PIPESIZE)"

locale byte_channel =
  fixes ok :: "'q \<Rightarrow> bool" and cap :: nat and bytes :: "'q \<Rightarrow> 'b list"
    and put :: "'b \<Rightarrow> 'q \<Rightarrow> 'q" and get :: "'q \<Rightarrow> 'b \<times> 'q"
  assumes bounded: "ok q \<Longrightarrow> length (bytes q) \<le> cap"
    and put: "ok q \<Longrightarrow> length (bytes q) < cap \<Longrightarrow> ok (put c q) \<and> bytes (put c q) = bytes q @ [c]"
    and get: "ok q \<Longrightarrow> bytes q = c # cs \<Longrightarrow> \<exists>q'. get q = (c, q') \<and> ok q' \<and> bytes q' = cs"
begin

lemma put_all:
  "ok q \<Longrightarrow> length (bytes q) + length cs \<le> cap \<Longrightarrow> ok (fold put cs q) \<and> bytes (fold put cs q) = bytes q @ cs"
  by (induction cs arbitrary: q) (use put in auto)

end

lemma mod_add_512: "unat ((a + b :: u32) mod 512) = (unat (a mod 512) + unat b) mod 512"
proof -
  have "unat ((a + b) mod 512) = (unat a + unat b) mod 2 ^ 32 mod 512"
    by (simp add: unat_mod unat_word_ariths)
  also have "\<dots> = (unat a + unat b) mod 512" by (simp add: mod_mod_cancel)
  finally show ?thesis by (simp add: unat_mod mod_simps)
qed

lemma unat_mod_512: "unat ((a::u32) mod 512) < 512"
  by (simp add: unat_mod)

lemma ring_inj: "i \<le> n \<Longrightarrow> n < (512::nat) \<Longrightarrow> (a + i) mod 512 = (a + n) mod 512 \<longleftrightarrow> i = n"
  using mod_shift_inj [of i 512 n a] by auto

lemma pipe_length: "pipe_ok q \<Longrightarrow> length (contents q) \<le> PIPESIZE"
  by (simp add: pipe_ok_def contents_def word_le_nat_alt)

lemma contents_empty: "contents q = [] \<longleftrightarrow> nread q = nwrite q"
  by (auto simp: contents_def unsigned_eq_0_iff)

lemma room_iff: "pipe_ok q \<Longrightarrow> room q \<longleftrightarrow> length (contents q) < PIPESIZE"
proof -
  assume ok: "pipe_ok q"
  have "room q \<longleftrightarrow> nwrite q - nread q \<noteq> 512" by (simp add: room_def algebra_simps)
  also have "\<dots> \<longleftrightarrow> unat (nwrite q - nread q) \<noteq> 512" by (simp add: word_unat_eq_iff)
  finally show ?thesis using ok by (auto simp: pipe_ok_def contents_def word_le_nat_alt)
qed

lemma put_byte_contents:
  assumes ok: "pipe_ok q" and r: "length (contents q) < PIPESIZE"
  shows "pipe_ok (put_byte c q) \<and> contents (put_byte c q) = contents q @ [c]"
proof -
  let ?n = "unat (nwrite q - nread q)"
  have n: "?n < 512" using r by (simp add: contents_def)
  have s: "unat (nwrite q + 1 - nread q) = Suc ?n"
    using n unat_add_fits [of "nwrite q - nread q" 1] by (simp add: algebra_simps)
  have w: "nwrite q = nread q + of_nat ?n" by simp
  have i: "unat ((nread q + of_nat i) mod 512) = unat (nwrite q mod 512) \<longleftrightarrow> i = ?n" if "i \<le> ?n" for i
  proof -
    have "unat ((nread q + of_nat i) mod 512) = (unat (nread q mod 512) + i) mod 512"
      using that n by (simp add: mod_add_512 unat_of_nat32)
    moreover have "unat (nwrite q mod 512) = (unat (nread q mod 512) + ?n) mod 512"
      by (subst w, subst mod_add_512) (simp add: unat_of_nat32)
    ultimately show ?thesis using ring_inj [OF that n] by simp
  qed
  have j: "unat (nwrite q mod 512) \<noteq> unat ((nread q + of_nat i) mod 512)" if "i < ?n" for i
    using i [of i] that by auto
  show ?thesis
    using ok n j s by (auto simp: pipe_ok_def contents_def put_byte_def word_le_nat_alt nth_list_update unat_mod_512 intro!: map_cong)
qed

lemma get_byte_contents:
  assumes ok: "pipe_ok q" and c: "contents q = c # cs"
  shows "\<exists>q'. get_byte q = (c, q') \<and> pipe_ok q' \<and> contents q' = cs"
proof -
  let ?n = "unat (nwrite q - nread q)"
  have "length (contents q) = Suc (length cs)" using c by simp
  then have n: "?n = Suc (length cs)" by (simp add: contents_def)
  have s: "unat (nwrite q - (nread q + 1)) = length cs"
    using n unat_minus_one [of "nwrite q - nread q"] by (fastforce simp: algebra_simps)
  have "contents q = map (\<lambda>i. pdata q ! unat ((nread q + of_nat i) mod 512)) (0 # map Suc [0..<length cs])"
    unfolding contents_def n by (simp add: map_Suc_upt upt_conv_Cons del: upt_Suc)
  with c have c': "c = pdata q ! unat (nread q mod 512)"
    and cs: "cs = map (\<lambda>i. pdata q ! unat ((nread q + of_nat (Suc i)) mod 512)) [0..<length cs]"
    by (simp_all add: comp_def)
  have "contents (snd (get_byte q)) = cs"
    using cs by (simp add: get_byte_def contents_def s add.assoc)
  then show ?thesis using ok n s c' by (simp add: get_byte_def pipe_ok_def word_le_nat_alt)
qed

interpretation bc: byte_channel pipe_ok PIPESIZE contents put_byte get_byte
  by unfold_locales (use pipe_length put_byte_contents get_byte_contents in blast)+


subsection \<open>Reading and writing a pipe\<close>

lemma pupd_pupd: "pupd p f (pupd p g s) = pupd p (f \<circ> g) s"
  by (simp add: pupd_def)

lemma pupd_at [simp]: "pipes (pupd p f s) p = f (pipes s p)"
  by (simp add: pupd_def)

lemma quiet_pupd [simp]: "quiet (pupd p f s) = quiet s"
  by (simp add: pupd_def quiet_def)

lemma pupd_id: "pupd p (\<lambda>q. q) s = s"
  by (simp add: pupd_def)

lemma quiet_spin [simp]: "quiet (spin_enter s) = quiet s" "quiet (spin_leave s) = quiet s"
  by (simp_all add: quiet_def spin_enter_def spin_leave_def)

lemma spin_pupd [simp]:
  "spin_leave (pupd p f s) = pupd p f (spin_leave s)" "pupd p f (spin_enter s) = spin_enter (pupd p f s)"
  "pipes (spin_enter s) = pipes s" "pipes (spin_leave s) = pipes s"
  by (simp_all add: spin_leave_def spin_enter_def pupd_def)

lemma pipewrite_fits:
  assumes "quiet s" and "pipe_ok (pipes s p)" and "length (contents (pipes s p)) + length cs \<le> PIPESIZE"
  shows "pipewrite_loop p cs i s = Inr (Returns (int (i + length cs)) (spin_leave (pupd p (fold put_byte cs) s)))"
  using assms
proof (induction cs arbitrary: i s)
  case Nil
  then show ?case by (simp add: wakeup_quiet pupd_id)
next
  case (Cons c cs)
  then have "room (pipes s p)" by (simp add: room_iff)
  moreover have "pipe_ok (put_byte c (pipes s p))" "contents (put_byte c (pipes s p)) = contents (pipes s p) @ [c]"
    using Cons.prems put_byte_contents by auto
  ultimately show ?case using Cons.prems Cons.IH [of "pupd p (put_byte c) s" "Suc i"]
    by (simp add: room_def pupd_pupd comp_def)
qed

lemma piperead_takes:
  "pipe_ok (pipes s p) \<Longrightarrow> \<exists>q. piperead_copy p n s = (take n (contents (pipes s p)), pupd p (\<lambda>_. q) s) \<and>
     pipe_ok q \<and> contents q = drop n (contents (pipes s p))"
proof (induction n arbitrary: s)
  case 0
  then show ?case by (intro exI [of _ "pipes s p"]) (simp add: pupd_def)
next
  case (Suc n)
  show ?case
  proof (cases "contents (pipes s p)")
    case Nil
    then have "nread (pipes s p) = nwrite (pipes s p)" by (simp add: contents_empty)
    with Suc.prems Nil show ?thesis by (intro exI [of _ "pipes s p"]) (simp add: pupd_def)
  next
    case (Cons c cs)
    then have ne: "nread (pipes s p) \<noteq> nwrite (pipes s p)" by (simp flip: contents_empty)
    obtain q where q: "get_byte (pipes s p) = (c, q)" "pipe_ok q" "contents q = cs"
      using get_byte_contents [OF Suc.prems Cons] by auto
    from Suc.IH [of "pupd p (\<lambda>_. q) s"] q(2) obtain q' where
      "piperead_copy p n (pupd p (\<lambda>_. q) s) = (take n cs, pupd p (\<lambda>_. q') s)" "pipe_ok q'" "contents q' = drop n cs"
      using q(3) by (auto simp: pupd_pupd comp_def)
    then show ?thesis using ne q(1) Cons by (intro exI [of _ q']) (simp add: q)
  qed
qed


lemma pipewrite_full:
  assumes "cur s = Some me" and "\<not> readopen (pipes s p) \<or> killed (procs s me)" and "pipe_ok (pipes s p)"
    and "length (contents (pipes s p)) + length cs > PIPESIZE"
  shows "pipewrite_loop p cs i s =
    Inr (Returns (-1) (spin_leave (pupd p (fold put_byte (take (PIPESIZE - length (contents (pipes s p))) cs)) s)))"
  using assms
proof (induction cs arbitrary: i s)
  case Nil
  then show ?case using pipe_length [of "pipes s p"] by simp
next
  case (Cons c cs)
  show ?case
  proof (cases "length (contents (pipes s p)) < PIPESIZE")
    case False
    then have "\<not> room (pipes s p)" and "PIPESIZE - length (contents (pipes s p)) = 0"
      using Cons.prems(3) by (simp_all add: room_iff)
    then show ?thesis using Cons.prems by (auto simp: room_def myproc_def pupd_id)
  next
    case True
    then have r: "room (pipes s p)" using Cons.prems by (simp add: room_iff)
    have b: "pipe_ok (put_byte c (pipes s p))" "contents (put_byte c (pipes s p)) = contents (pipes s p) @ [c]"
      using Cons.prems True put_byte_contents by auto
    have k: "cur (pupd p f s) = cur s" "procs (pupd p f s) = procs s" "readopen (put_byte c q) = readopen q" for f q
      by (simp_all add: pupd_def put_byte_def)
    from True obtain d where d: "PIPESIZE - length (contents (pipes s p)) = Suc d"
      "PIPESIZE - Suc (length (contents (pipes s p))) = d"
      by (metis Suc_diff_Suc)
    then show ?thesis using r b Cons.prems Cons.IH [of "pupd p (put_byte c) s" "Suc i"]
      by (simp add: room_def pupd_pupd comp_def k)
  qed
qed

text \<open>
  C16. A pipe delivers bytes in the order they were written. On a pipe with room for them, \<open>pipewrite\<close>
  returns their number and appends them to the contents, whatever the values of the two
  wrapping counters; \<open>piperead\<close> then returns the first \<open>n\<close> bytes of the contents and leaves the rest.
\<close>

theorem pipe_fifo:
  assumes "quiet s" and "pipe_ok (pipes s p)" and "length (contents (pipes s p)) + length cs \<le> PIPESIZE"
    and "contents (pipes s p) @ cs \<noteq> []" and "0 \<le> n"
  shows "\<exists>s1 s2 d. pipewrite p cs s = Inr (Returns (int (length cs)) s1) \<and>
    piperead p n s1 = Inr (Returns (int (length d), d) s2) \<and> d = take (nat n) (contents (pipes s p) @ cs) \<and>
    pipe_ok (pipes s2 p) \<and> contents (pipes s2 p) = drop (nat n) (contents (pipes s p) @ cs) \<and>
    (\<forall>p'. p' \<noteq> p \<longrightarrow> pipes s2 p' = pipes s p')"
proof -
  let ?s1 = "pupd p (fold put_byte cs) s"
  have w: "pipewrite p cs s = Inr (Returns (int (length cs)) ?s1)"
    using pipewrite_fits [of "spin_enter s" p cs 0] assms(1-3) by (simp add: pipewrite_def)
  have c: "pipe_ok (pipes ?s1 p)" "contents (pipes ?s1 p) = contents (pipes s p) @ cs"
    using bc.put_all [OF assms(2,3)] by simp_all
  then have ne: "nread (pipes ?s1 p) \<noteq> nwrite (pipes ?s1 p)"
    using assms(4) by (metis contents_empty)
  from piperead_takes [of "spin_enter ?s1" p "nat n"] c obtain q where
    q: "piperead_copy p (nat n) (spin_enter ?s1) = (take (nat n) (contents (pipes s p) @ cs), pupd p (\<lambda>_. q) (spin_enter ?s1))"
    "pipe_ok q" "contents q = drop (nat n) (contents (pipes s p) @ cs)"
    by auto
  have "piperead p n ?s1 = Inr (Returns (int (length (take (nat n) (contents (pipes s p) @ cs))),
    take (nat n) (contents (pipes s p) @ cs)) (pupd p (\<lambda>_. q) ?s1))"
    using ne q(1) assms(1) by (simp add: piperead_def piperead_wait_def wakeup_quiet del: length_take take_append)
  moreover have "\<forall>p'. p' \<noteq> p \<longrightarrow> pipes (pupd p (\<lambda>_. q) ?s1) p' = pipes s p'" by (simp add: pupd_def)
  ultimately show ?thesis using w q(2,3) by (intro exI conjI) (assumption | rule refl | simp)+
qed

text \<open>
  C17. Writing more than fits into a pipe nobody can read any more: \<open>pipewrite\<close> fills the pipe, returns -1
  and sleeps never; the pipe keeps the bytes that fitted.
\<close>

theorem pipewrite_no_reader:
  assumes "cur s = Some me" and "\<not> readopen (pipes s p)" and "pipe_ok (pipes s p)"
    and "length (contents (pipes s p)) + length cs > PIPESIZE"
  shows "\<exists>s'. pipewrite p cs s = Inr (Returns (-1) s') \<and> nheld s' = nheld s \<and> pipe_ok (pipes s' p) \<and>
    contents (pipes s' p) = contents (pipes s p) @ take (PIPESIZE - length (contents (pipes s p))) cs \<and>
    length (contents (pipes s' p)) = PIPESIZE"
proof -
  let ?fit = "take (PIPESIZE - length (contents (pipes s p))) cs"
  have "pipewrite p cs s = Inr (Returns (-1) (pupd p (fold put_byte ?fit) s))"
    using pipewrite_full [of "spin_enter s" me p cs 0] assms by (simp add: pipewrite_def) (simp add: spin_enter_def)
  moreover have "pipe_ok (pipes (pupd p (fold put_byte ?fit) s) p) \<and>
      contents (pipes (pupd p (fold put_byte ?fit) s) p) = contents (pipes s p) @ ?fit"
    using bc.put_all [OF assms(3), of ?fit] pipe_length [OF assms(3)] by simp
  ultimately show ?thesis using assms(4) pipe_length [OF assms(3)]
    by (intro exI [of _ "pupd p (fold put_byte ?fit) s"]) (auto simp: pupd_def)
qed

text \<open>No open files, and pipes whose counters are about to wrap.\<close>

definition zero_files :: files where
  "zero_files = fsys.extend zero_fsys
     (files.fields (\<lambda>_. \<lparr>fdtype = FD_NONE, fref = 0, readable = False, writable = False, fpipe = 0, fip = 0, foff = 0\<rparr>)
       (\<lambda>_. \<lparr>pdata = replicate PIPESIZE 0, nread = -2, nwrite = -2, readopen = False, writeopen = True\<rparr>))"

lemmas zero_state = zero_files_def zero_fsys_def zero_blocks_def zero_ptable_def ptable.defs blocks.defs fsys.defs files.defs

lemma quiet_zero: "quiet zero_files"
  by (simp add: quiet_def zero_state still_links_def dlist_def list_head_init_def)

lemma zero_pipe: "pipe_ok (pipes zero_files p)" "contents (pipes zero_files p) = []"
  by (simp_all add: zero_state pipe_ok_def contents_def)

theorem pipe_fifo_witness:
  "\<exists>s1 s2. pipewrite 4096 [10, 20, 30] zero_files = Inr (Returns 3 s1) \<and>
     piperead 4096 2 s1 = Inr (Returns (2, [10, 20]) s2) \<and> contents (pipes s2 4096) = [30]"
  using pipe_fifo [OF quiet_zero zero_pipe(1), of 4096 "[10, 20, 30]" 2] zero_pipe(2) [of 4096] by auto

theorem pipewrite_no_reader_witness:
  "\<exists>s'. pipewrite 4096 (replicate 600 7) zero_files = Inr (Returns (-1) s') \<and>
     contents (pipes s' 4096) = replicate 512 7"
proof -
  have "cur zero_files = Some 1" and "\<not> readopen (pipes zero_files 4096)" by (simp_all add: zero_state)
  from pipewrite_no_reader [OF this zero_pipe(1), of "replicate 600 7"] show ?thesis
    by (auto simp: zero_pipe(2))
qed

end
