(* ===== verification/Process.thy ===== *)
theory Process
  imports Thread File
begin

section \<open>Processes (proc.c, vm.c)\<close>

text \<open>
  The life of a process: the first process, growing memory, \<open>fork\<close> with its copies of the address
  space (\<open>copyuvm\<close>), of the open files and of every thread, \<open>exit\<close> and \<open>wait\<close>. The bytes of the first program
  are linked into the kernel at an address that is a parameter of \<open>userinit\<close>.

  \<open>exit\<close> joins the other threads first, which may sleep; \<open>exit_join\<close> is that loop and
  \<open>exit_finish\<close> what follows it. \<open>wait_try\<close> is one round of the loop of \<open>wait\<close>.
\<close>

subsection \<open>Copying an address space\<close>

text \<open>One page of \<open>copyuvm\<close> and of \<open>routine_copy_ustack\<close>; the result is false when memory is short.\<close>

definition copy_page :: "string \<Rightarrow> string \<Rightarrow> u32 \<Rightarrow> u32 \<Rightarrow> u32 \<Rightarrow> 'a kmem_scheme \<Rightarrow> (bool \<times> 'a kmem_scheme) res" where
  "copy_page exist present pd d i s =
     rbind (walkpgdir pd i False s) (\<lambda>(pte, s).
     if pte = 0 then Inl (Panic exist)
     else if load32 pte s AND PTE_P = 0 then Inl (Panic present)
     else let pa = PTE_ADDR (load32 pte s); flags = PTE_FLAGS (load32 pte s)
          in rbind (kalloc s) (\<lambda>(mem, s).
             if mem = 0 then Inr (False, s)
             else let s = kmemmove mem (P2V pa) PGSIZE s
                  in rbind (mappages d i PGSIZE (V2P mem) flags s) (\<lambda>(r, s).
                     if r < 0 then rbind (kfree mem s) (\<lambda>s. Inr (False, s)) else Inr (True, s))))"

fun copy_pages :: "nat \<Rightarrow> string \<Rightarrow> string \<Rightarrow> u32 \<Rightarrow> u32 \<Rightarrow> u32 \<Rightarrow> u32 \<Rightarrow> 'a kmem_scheme \<Rightarrow> (bool \<times> 'a kmem_scheme) res" where
  "copy_pages 0 exist present pd d i lim s = Inl Diverges"
| "copy_pages (Suc fuel) exist present pd d i lim s =
     (if i < lim
      then rbind (copy_page exist present pd d i s) (\<lambda>(ok, s).
           if ok then copy_pages fuel exist present pd d (i + PGSIZE) lim s else Inr (False, s))
      else Inr (True, s))"

definition routine_copy_ustack :: "nat \<Rightarrow> u32 \<Rightarrow> 'a ptable_scheme \<Rightarrow> (bool \<times> 'a ptable_scheme) res" where
  "routine_copy_ustack th d s =
     (let us = ustack (procs s th)
      in rbind (copy_pages PAGES ''__routine_copy_ustack: pte should exist'' ''__routine_copy_ustack: page not present''
                  (pgdir (procs s th)) d (PGROUNDDOWN us - PGSIZE) (us + USTACKSIZE) s) (\<lambda>(ok, s).
         Inr (\<not> ok, s)))"

definition copyuvm :: "nat \<Rightarrow> 'a ptable_scheme \<Rightarrow> (u32 \<times> 'a ptable_scheme) res" where
  "copyuvm p s =
     rbind (setupkvm s) (\<lambda>(d, s).
     if d = 0 then Inr (0, s)
     else rbind (copy_pages PAGES ''copyuvm: pte should exist'' ''copyuvm: page not present''
                   (pgdir (procs s p)) d 0 (sz (procs s p)) s) (\<lambda>(ok, s).
          rbind (if ok then threads_apply1 p routine_copy_ustack d s else Inr (Some p, s)) (\<lambda>(th, s).
          if th = None then Inr (d, s) else rbind (freevm d s) (\<lambda>s. Inr (0, s)))))"

subsection \<open>The first process, and growing\<close>

abbreviation SEG_UCODE :: u32 where "SEG_UCODE \<equiv> 3"
abbreviation SEG_UDATA :: u32 where "SEG_UDATA \<equiv> 4"
abbreviation DPL_USER :: u32 where "DPL_USER \<equiv> 3"
abbreviation FL_IF :: u32 where "FL_IF \<equiv> 0x200"

definition initcode_name :: "u8 list" where
  "initcode_name = [105, 110, 105, 116, 99, 111, 100, 101]"

definition userinit :: "u32 \<Rightarrow> u32 \<Rightarrow> 'a files_scheme \<Rightarrow> 'a files_scheme res" where
  "userinit initcode_start initcode_size s =
     rbind (allocproc s) (\<lambda>(r, s).
     rbind (deref r) (\<lambda>p.
     let s = s\<lparr>initproc := Some p\<rparr>;
         s = upd p (\<lambda>q. q\<lparr>pid := nextpid s\<rparr>) s; s = s\<lparr>nextpid := nextpid s + 1\<rparr>
     in rbind (setupkvm s) (\<lambda>(d, s).
        let s = upd p (\<lambda>q. q\<lparr>pgdir := d\<rparr>) s
        in if d = 0 then Inl (Panic ''userinit: out of memory?'')
           else rbind (inituvm d initcode_start initcode_size s) (\<lambda>s.
                let s = upd p (\<lambda>q. q\<lparr>sz := PGSIZE, type := MLFQ, privlevel := 0\<rparr>) s;
                    s = s\<lparr>links := list_head_init (Thgroup p) (links s)\<rparr>;
                    s = upd p (\<lambda>q. q\<lparr>thmain := Some p\<rparr>) s;
                    t = tf (procs s p);
                    s = kmemset t 0 TRAPFRAME s;
                    s = store32 (t + TF_CS) (push_bit 3 SEG_UCODE OR DPL_USER) s;
                    s = store32 (t + TF_DS) (push_bit 3 SEG_UDATA OR DPL_USER) s;
                    s = store32 (t + TF_ES) (load32 (t + TF_DS) s) s;
                    s = store32 (t + TF_SS) (load32 (t + TF_DS) s) s;
                    s = store32 (t + TF_EFLAGS) FL_IF s;
                    s = store32 (t + TF_ESP) PGSIZE s;
                    s = store32 (t + TF_EIP) 0 s
                in rbind (safestrcpy (pname (procs s p)) (cview initcode_name) 16) (\<lambda>nm.
                   let s = upd p (\<lambda>q. q\<lparr>pname := nm\<rparr>) s
                   in rbind (namei [SLASH] s) (\<lambda>(root, s).
                      let s = upd p (\<lambda>q. q\<lparr>cwd := root\<rparr>) s
                      in rbind (ptable_acquire s) (\<lambda>s.
                         let s = upd p (\<lambda>q. q\<lparr>state := RUNNABLE\<rparr>) s
                         in rbind (enqueue_proc p s) ptable_release)))))))"

definition growproc :: "int \<Rightarrow> 'a ptable_scheme \<Rightarrow> (int \<times> 'a ptable_scheme) res" where
  "growproc n s =
     rbind (myproc s) (\<lambda>c.
     rbind (main_thread c s) (\<lambda>m.
     rbind (ptable_acquire s) (\<lambda>s.
     let z = sz (procs s m); pd = pgdir (procs s c)
     in rbind (if n > 0 then allocuvm pd z (z + of_int n) s
               else if n < 0 then deallocuvm pd z (z + of_int n) s
               else Inr (z, s)) (\<lambda>(z, s).
        if n \<noteq> 0 \<and> z = 0 then rbind (ptable_release s) (\<lambda>s. Inr (-1, s))
        else let s = invalidate_tlb c (upd m (\<lambda>q. q\<lparr>sz := z\<rparr>) s)
             in rbind (ptable_release s) (\<lambda>s. Inr (0, s))))))"

subsection \<open>Fork\<close>

definition search_thmain :: "nat \<Rightarrow> nat \<Rightarrow> 'a ptable_scheme \<Rightarrow> nat option res" where
  "search_thmain th1 th2 s =
     rbind (deref (thmain (procs s th1))) (\<lambda>m. get_thread th2 (tid (procs s m)) s)"

definition routine_fork_thread :: "nat \<Rightarrow> nat \<Rightarrow> 'a ptable_scheme \<Rightarrow> (bool \<times> 'a ptable_scheme) res" where
  "routine_fork_thread th m s =
     (if tid (procs s th) = 0 then Inr (False, s)
      else if state (procs s th) \<notin> {RUNNABLE, RUNNING, SLEEPING} then Inr (False, s)
      else rbind (allocproc s) (\<lambda>(r, s).
           case r of
             None \<Rightarrow> Inr (True, s)
           | Some nw \<Rightarrow>
               let pm = procs s m; pt = procs s th;
                   s = upd nw (\<lambda>q. q\<lparr>pgdir := pgdir pm, parent := parent pm\<rparr>) s
               in rbind (deref (parent pm)) (\<lambda>par.
                  rbind (on_links (list_add_tail (Sibling nw) (Children par)) s) (\<lambda>s.
                  let s = upd nw (take_files pm) s; s = upd nw (\<lambda>q. q\<lparr>cwd := cwd pm\<rparr>) s
                  in rbind (safestrcpy (pname (procs s nw)) (cview (pname pm)) 16) (\<lambda>nm.
                     let s = upd nw (\<lambda>q. q\<lparr>pname := nm, pid := pid pm, ustack := ustack pt, tid := tid pt\<rparr>) s
                     in rbind (on_links (list_add_tail (Thgroup nw) (Thgroup m)) s) (\<lambda>s.
                        rbind (deref (thmain pt)) (\<lambda>tm.
                        rbind (if tid (procs s tm) = 0 then Inr (Some m) else search_thmain th nw s) (\<lambda>found.
                        Inr (False, upd nw (\<lambda>q. q\<lparr>thmain := (if found = None then Some m else found)\<rparr>) s)))))))))"

definition routine_rollback_thread :: "nat \<Rightarrow> 'a ptable_scheme \<Rightarrow> (bool \<times> 'a ptable_scheme) res" where
  "routine_rollback_thread th s =
     rbind (on_links (list_del (Sibling th)) s) (\<lambda>s.
     rbind (kfree (kstack (procs s th)) s) (\<lambda>s.
     let s = upd th (\<lambda>q. q\<lparr>kstack := 0, state := UNUSED\<rparr>) s; s = s\<lparr>nproc := nproc s + 1\<rparr>
     in rbind (on_links (list_add (Free th) Free_head) s) (\<lambda>s. Inr (False, s))))"

text \<open>Duplicating the open files, in the order of the descriptors.\<close>

definition dup_file :: "nat \<Rightarrow> nat \<Rightarrow> nat \<Rightarrow> 'a files_scheme \<Rightarrow> 'a files_scheme res" where
  "dup_file np m fd s =
     (case ofile (procs s m) ! fd of
        None \<Rightarrow> Inr s
      | Some f \<Rightarrow> rbind (filedup f s) (\<lambda>s. Inr (upd np (\<lambda>q. q\<lparr>ofile := (ofile q)[fd := Some f]\<rparr>) s)))"

definition close_file :: "nat \<Rightarrow> nat \<Rightarrow> 'a files_scheme \<Rightarrow> 'a files_scheme res" where
  "close_file p fd s =
     (case ofile (procs s p) ! fd of
        None \<Rightarrow> Inr s
      | Some f \<Rightarrow> rbind (fileclose f s) (\<lambda>s. Inr (upd p (\<lambda>q. q\<lparr>ofile := (ofile q)[fd := None]\<rparr>) s)))"

definition drop_cwd :: "nat \<Rightarrow> 'a files_scheme \<Rightarrow> 'a files_scheme res" where
  "drop_cwd p s =
     rbind (op_begin s) (\<lambda>s.
     rbind (deref (cwd (procs s p))) (\<lambda>ip.
     rbind (iput ip s) (\<lambda>s.
     rbind (op_end s) (\<lambda>s. Inr (upd p (\<lambda>q. q\<lparr>cwd := None\<rparr>) s)))))"

definition fork_rollback :: "nat \<Rightarrow> 'a files_scheme \<Rightarrow> (int \<times> 'a files_scheme) res" where
  "fork_rollback np s =
     rbind (rfold (close_file np) [0..<NOFILE] s) (\<lambda>s.
     rbind (drop_cwd np s) (\<lambda>s.
     rbind (threads_apply0 np routine_rollback_thread s) (\<lambda>(_, s).
     rbind (freevm (pgdir (procs s np)) s) (\<lambda>s.
     rbind (ptable_release s) (\<lambda>s. Inr (-1, s))))))"

text \<open>
  The kernel stack of a thread that is not the caller: a copy in which every word that points into the
  old stack is moved to the new one.
\<close>

definition relocate_word :: "u32 \<Rightarrow> u32 \<Rightarrow> nat \<Rightarrow> 'a kmem_scheme \<Rightarrow> 'a kmem_scheme" where
  "relocate_word old new i s =
     (let a = new + 4 * of_nat i; v = load32 a s
      in if sint old < sint v \<and> sint v < sint (old + KSTACKSIZE) then store32 a (v + (new - old)) s else s)"

definition fork_thread_state :: "nat \<Rightarrow> nat \<Rightarrow> nat \<Rightarrow> 'a ptable_scheme \<Rightarrow> 'a ptable_scheme res" where
  "fork_thread_state c th nw s =
     (if th = c
      then let s = kmemmove (tf (procs s nw)) (tf (procs s th)) TRAPFRAME s;
               s = store32 (tf (procs s nw) + TF_EAX) 0 s
           in Inr (upd nw (\<lambda>q. q\<lparr>state := RUNNABLE\<rparr>) s)
      else let ok = kstack (procs s th); nk = kstack (procs s nw);
               s = kmemmove nk ok KSTACKSIZE s;
               s = fold (relocate_word ok nk) [0..<1024] s;
               ctx = kcontext (procs s th) - ok + nk;
               s = upd nw (\<lambda>q. q\<lparr>kcontext := ctx\<rparr>) s;
               s = store32 (ctx + CONTEXT_EBP) (load32 (kcontext (procs s th) + CONTEXT_EBP) s - ok + nk) s;
               s = upd nw (\<lambda>q. q\<lparr>tf := tf (procs s th) - ok + nk, state := state (procs s th)\<rparr>) s
           in if state (procs s nw) = SLEEPING
              then let ch = chan (procs s th);
                       s = upd nw (\<lambda>q. q\<lparr>chan := (if ch = Some (Chan_proc th) then Some (Chan_proc nw) else ch)\<rparr>) s
                   in on_links (list_add (Sleep nw) Sleep_head) s
              else Inr s)"

fun fork_states :: "nat \<Rightarrow> nat \<Rightarrow> node \<Rightarrow> node \<Rightarrow> node \<Rightarrow> nat option \<Rightarrow> 'a ptable_scheme \<Rightarrow>
    (nat option \<times> 'a ptable_scheme) res" where
  "fork_states 0 c start itr1 itr2 nx s = Inl Diverges"
| "fork_states (Suc fuel) c start itr1 itr2 nx s =
     rbind (entry_thgroup itr1) (\<lambda>th.
     rbind (entry_thgroup itr2) (\<lambda>nw.
     let nx = (if th = c then Some nw else nx)
     in rbind (fork_thread_state c th nw s) (\<lambda>s.
        rbind (deref (nxt (links s itr1))) (\<lambda>itr1.
        rbind (deref (nxt (links s itr2))) (\<lambda>itr2.
        if itr1 \<noteq> start then fork_states fuel c start itr1 itr2 nx s else Inr (nx, s))))))"

definition fork :: "'a files_scheme \<Rightarrow> (int \<times> 'a files_scheme) res" where
  "fork s =
     rbind (ptable_acquire s) (\<lambda>s.
     rbind (myproc s) (\<lambda>c.
     rbind (main_thread c s) (\<lambda>m.
     rbind (thread_size c s) (\<lambda>n.
     if n > nproc s then rbind (ptable_release s) (\<lambda>s. Inr (-1, s))
     else rbind (allocproc s) (\<lambda>(r, s).
          case r of
            None \<Rightarrow> rbind (ptable_release s) (\<lambda>s. Inr (-1, s))
          | Some np \<Rightarrow>
              let s = upd np (\<lambda>q. q\<lparr>pid := nextpid s\<rparr>) s; s = s\<lparr>nextpid := nextpid s + 1\<rparr>
              in rbind (copyuvm m s) (\<lambda>(d, s).
                 let s = upd np (\<lambda>q. q\<lparr>pgdir := d\<rparr>) s
                 in if d = 0
                    then rbind (kfree (kstack (procs s np)) s) (\<lambda>s.
                         let s = upd np (\<lambda>q. q\<lparr>kstack := 0, state := UNUSED\<rparr>) s; s = s\<lparr>nproc := nproc s + 1\<rparr>
                         in rbind (on_links (list_add (Free np) Free_head) s) (\<lambda>s.
                            rbind (ptable_release s) (\<lambda>s. Inr (-1, s))))
                    else
                    rbind (rfold (dup_file np m) [0..<NOFILE] s) (\<lambda>s.
                    rbind (idup (cwd (procs s m)) s) (\<lambda>(wd, s).
                    let s = upd np (\<lambda>q. q\<lparr>cwd := Some wd, sz := sz (procs s m), type := MLFQ, privlevel := 0,
                              tid := 0, thmain := Some np\<rparr>) s;
                        s = s\<lparr>links := list_head_init (Thgroup np) (links s)\<rparr>;
                        s = upd np (\<lambda>q. q\<lparr>parent := Some c\<rparr>) s
                    in rbind (on_links (list_add_tail (Sibling np) (Children c)) s) (\<lambda>s.
                       let s = upd np (\<lambda>q. q\<lparr>ustack := ustack (procs s m)\<rparr>) s
                       in rbind (safestrcpy (pname (procs s np)) (cview (pname (procs s m))) 16) (\<lambda>nm.
                          let s = upd np (\<lambda>q. q\<lparr>pname := nm\<rparr>) s
                          in rbind (threads_apply1 m routine_fork_thread np s) (\<lambda>(failed, s).
                             if failed \<noteq> None then fork_rollback np s
                             else rbind (fork_states NPROC c (Thgroup m) (Thgroup m) (Thgroup np) None s) (\<lambda>(nx, s).
                                  rbind (deref nx) (\<lambda>nx.
                                  rbind (enqueue_proc nx s) (\<lambda>s.
                                  rbind (ptable_release s) (\<lambda>s. Inr (pid (procs s np), s))))))))))))))))"

subsection \<open>Exit and wait\<close>

fun exit_join :: "nat \<Rightarrow> nat \<Rightarrow> 'a ptable_scheme \<Rightarrow> (unit, int, 'a ptable_scheme) outcome res" where
  "exit_join 0 c s = Inl Diverges"
| "exit_join (Suc fuel) c s =
     (if list_empty (Thgroup c) (links s) then Inr (Returns () s)
      else rbind (rbind (deref (nxt (links s (Thgroup c)))) entry_thgroup) (\<lambda>th.
           rbind (wakeup (Some (Chan_proc th)) s) (\<lambda>s.
           let t = tid (procs s th)
           in rbind (thread_join t None s) (\<lambda>r.
              case r of Sleeps _ sw s \<Rightarrow> Inr (Sleeps t sw s) | Returns _ s \<Rightarrow> exit_join fuel c s))))"

definition exit_join_resume :: "nat \<Rightarrow> int \<Rightarrow> 'a ptable_scheme \<Rightarrow> (unit, int, 'a ptable_scheme) outcome res" where
  "exit_join_resume c t s =
     rbind (thread_join_resume t None s) (\<lambda>r.
     case r of Sleeps _ sw s \<Rightarrow> Inr (Sleeps t sw s) | Returns _ s \<Rightarrow> exit_join NPROC c s)"

definition exit_finish :: "'a files_scheme \<Rightarrow> (switch \<times> 'a files_scheme) res" where
  "exit_finish s =
     rbind (myproc s) (\<lambda>c.
     rbind (rfold (close_file c) [0..<NOFILE] s) (\<lambda>s.
     rbind (drop_cwd c s) (\<lambda>s.
     rbind (ptable_acquire s) (\<lambda>s.
     rbind (wakeup1 (map_option Chan_proc (parent (procs s c))) s) (\<lambda>s.
     rbind (deref (initproc s)) (\<lambda>ini.
     rbind (pass_children c ini (\<lambda>p s. if state (procs s p) = ZOMBIE then wakeup1 (Some (Chan_proc ini)) s else Inr s) s) (\<lambda>s.
     rbind (if type (procs s c) = MLFQ then dequeue_proc c s
            else Inr (s\<lparr>mlfq_tickets := mlfq_tickets s + tickets (procs s c)\<rparr>)) (\<lambda>s.
     sched (upd c (\<lambda>q. q\<lparr>state := ZOMBIE\<rparr>) s)))))))))"

text \<open>
  \<open>exit\<close>: the main thread joins the others, any other thread ends itself. When the joining sleeps,
  the call continues with \<open>exit_join_resume\<close> and, once that returns, \<open>exit_finish\<close>.
\<close>

definition exit :: "'a files_scheme \<Rightarrow> (switch option, int, 'a files_scheme) outcome res" where
  "exit s =
     rbind (myproc s) (\<lambda>c.
     if Some c = initproc s then Inl (Panic ''init exiting'')
     else rbind (if \<not> killed (procs s c) then terminate_proc c s else Inr s) (\<lambda>s.
          if tid (procs s c) = 0
          then rbind (exit_join NPROC c (upd c (\<lambda>q. q\<lparr>killed := False\<rparr>) s)) (\<lambda>r.
               case r of
                 Sleeps t sw s \<Rightarrow> Inr (Sleeps t sw s)
               | Returns _ s \<Rightarrow> rbind (exit_finish s) (\<lambda>(sw, s). Inr (Returns (Some sw) s)))
          else rbind (thread_exit 0 s) (\<lambda>(sw, s).
               case sw of
                 Some sw \<Rightarrow> Inr (Returns (Some sw) s)
               | None \<Rightarrow> rbind (exit_finish s) (\<lambda>(sw, s). Inr (Returns (Some sw) s)))))"

definition freeproc :: "nat \<Rightarrow> 'a ptable_scheme \<Rightarrow> 'a ptable_scheme res" where
  "freeproc p s =
     rbind (kfree (kstack (procs s p)) s) (\<lambda>s.
     let s = upd p (\<lambda>q. q\<lparr>kstack := 0\<rparr>) s
     in rbind (freevm (pgdir (procs s p)) s) (\<lambda>s.
        let s = upd p scrub s; s = s\<lparr>nproc := nproc s + 1\<rparr>
        in on_links (list_add (Free p) Free_head) s))"

fun find_zombie :: "node list \<Rightarrow> 'a ptable_scheme \<Rightarrow> nat option res" where
  "find_zombie [] s = Inr None"
| "find_zombie (itr # itrs) s =
     rbind (entry_sibling itr) (\<lambda>p.
     if tid (procs s p) = 0 \<and> state (procs s p) = ZOMBIE then Inr (Some p) else find_zombie itrs s)"

definition wait_try :: "nat \<Rightarrow> 'a ptable_scheme \<Rightarrow> (int, unit, 'a ptable_scheme) outcome res" where
  "wait_try c s =
     rbind (walk (Suc NPROC) (Children c) (nxt (links s (Children c))) (links s)) (\<lambda>itrs.
     rbind (find_zombie itrs s) (\<lambda>z.
     case z of
       Some p \<Rightarrow>
         (let pd = pid (procs s p)
          in rbind (on_links (list_del (Sibling p)) s) (\<lambda>s.
             rbind (freeproc p s) (\<lambda>s.
             rbind (ptable_release s) (\<lambda>s. Inr (Returns pd s)))))
     | None \<Rightarrow>
         if list_empty (Children c) (links s) \<or> killed (procs s c)
         then rbind (ptable_release s) (\<lambda>s. Inr (Returns (-1) s))
         else rbind (sleep (Chan_proc c) None s) (\<lambda>(sw, s). Inr (Sleeps () sw s))))"

definition wait :: "'a ptable_scheme \<Rightarrow> (int, unit, 'a ptable_scheme) outcome res" where
  "wait s = rbind (myproc s) (\<lambda>c. rbind (ptable_acquire s) (wait_try c))"

definition wait_resume :: "nat \<Rightarrow> 'a ptable_scheme \<Rightarrow> (int, unit, 'a ptable_scheme) outcome res" where
  "wait_resume c s = rbind (sleep_resume None s) (wait_try c)"

end
