(* ===== verification/Sysfile.thy ===== *)
theory Sysfile
  imports Process
begin

section \<open>System call arguments and file system calls (syscall.c, sysfile.c)\<close>

text \<open>
  The first half fetches and checks arguments: \<open>fetchint\<close>, \<open>fetchstr\<close>, \<open>argint\<close>, \<open>argptr\<close>, \<open>argstr\<close>
  and \<open>argfd\<close>, on the user memory of the calling thread. A call that stores through an out-parameter and returns
  0 or -1 is modelled by an option: \<open>None\<close> is the result -1. Address arithmetic wraps at 32 bits, as in
  the source.

  The second half is the file system calls, each as a function from the kernel's state. The
  calls that may sleep in a pipe end with an \<open>outcome\<close>.
\<close>

subsection \<open>Fetching arguments\<close>

definition in_user :: "u32 \<Rightarrow> u32 \<Rightarrow> nat \<Rightarrow> 'a ptable_scheme \<Rightarrow> bool res" where
  "in_user addr n c s =
     rbind (main_thread c s) (\<lambda>m.
     let bound1 = sz (procs s m); base2 = ustack (procs s c); bound2 = base2 + USTACKSIZE
     in Inr ((0 \<le> addr \<and> addr + n \<le> bound1) \<or> (base2 \<le> addr \<and> addr + n \<le> bound2)))"

definition fetchint :: "u32 \<Rightarrow> 'a ptable_scheme \<Rightarrow> int option res" where
  "fetchint addr s =
     rbind (myproc s) (\<lambda>c.
     rbind (in_user addr 4 c s) (\<lambda>ok.
     if ok then rbind (user_bytes (pgdir (procs s c)) addr 4 s) (\<lambda>bs. Inr (Some (sint (le32 bs))))
     else Inr None))"

text \<open>The scan for the terminating zero, up to \<open>ep\<close>.\<close>

fun scan_str :: "nat \<Rightarrow> u32 \<Rightarrow> u32 \<Rightarrow> u32 \<Rightarrow> 'a kmem_scheme \<Rightarrow> u8 list option res" where
  "scan_str 0 pd p ep s = Inr None"
| "scan_str (Suc fuel) pd p ep s =
     (if p < ep
      then rbind (user_byte pd p s) (\<lambda>b.
           if b = 0 then Inr (Some [])
           else rbind (scan_str fuel pd (p + 1) ep s) (\<lambda>r. Inr (map_option ((#) b) r)))
      else Inr None)"

definition fetchstr :: "u32 \<Rightarrow> 'a ptable_scheme \<Rightarrow> u8 list option res" where
  "fetchstr addr s =
     rbind (myproc s) (\<lambda>c.
     rbind (main_thread c s) (\<lambda>m.
     let bound1 = sz (procs s m); base2 = ustack (procs s c); bound2 = base2 + USTACKSIZE; pd = pgdir (procs s c)
     in if 0 \<le> addr \<and> addr < bound1 then scan_str (unat (bound1 - addr)) pd addr bound1 s
        else if base2 \<le> addr \<and> addr < bound2 then scan_str (unat (bound2 - addr)) pd addr bound2 s
        else Inr None))"

definition argint :: "nat \<Rightarrow> 'a ptable_scheme \<Rightarrow> int option res" where
  "argint n s =
     rbind (myproc s) (\<lambda>c.
     fetchint (load32 (tf (procs s c) + TF_ESP) s + 4 + 4 * of_nat n) s)"

definition argptr :: "nat \<Rightarrow> int \<Rightarrow> 'a ptable_scheme \<Rightarrow> u32 option res" where
  "argptr n len s =
     rbind (myproc s) (\<lambda>c.
     rbind (argint n s) (\<lambda>i.
     case i of
       None \<Rightarrow> Inr None
     | Some i \<Rightarrow>
         if len \<ge> 0
         then rbind (in_user (of_int i) (of_int len) c s) (\<lambda>ok. Inr (if ok then Some (of_int i) else None))
         else Inr None))"

definition argstr :: "nat \<Rightarrow> 'a ptable_scheme \<Rightarrow> u8 list option res" where
  "argstr n s =
     rbind (argint n s) (\<lambda>a. case a of None \<Rightarrow> Inr None | Some a \<Rightarrow> fetchstr (of_int a) s)"

definition argfd :: "nat \<Rightarrow> 'a ptable_scheme \<Rightarrow> (nat \<times> nat) option res" where
  "argfd n s =
     rbind (argint n s) (\<lambda>a.
     case a of
       None \<Rightarrow> Inr None
     | Some fd \<Rightarrow>
         if fd < 0 \<or> fd \<ge> int NOFILE then Inr None
         else rbind (myproc s) (\<lambda>c. rbind (main_thread c s) (\<lambda>m.
              Inr (map_option (Pair (nat fd)) (ofile (procs s m) ! nat fd)))))"

definition fdalloc :: "nat \<Rightarrow> 'a ptable_scheme \<Rightarrow> (int \<times> 'a ptable_scheme) res" where
  "fdalloc f s =
     rbind (myproc s) (\<lambda>c. rbind (main_thread c s) (\<lambda>m.
     case find (\<lambda>fd. ofile (procs s m) ! fd = None) [0..<NOFILE] of
       Some fd \<Rightarrow> Inr (int fd, upd m (\<lambda>q. q\<lparr>ofile := (ofile q)[fd := Some f]\<rparr>) s)
     | None \<Rightarrow> Inr (-1, s)))"

text \<open>The file, length and buffer arguments that the four reading and writing calls share.\<close>

definition rw_args :: "'a ptable_scheme \<Rightarrow> (nat \<times> int \<times> u32) option res" where
  "rw_args s =
     rbind (argfd 0 s) (\<lambda>fd.
     case fd of
       None \<Rightarrow> Inr None
     | Some (_, f) \<Rightarrow>
         rbind (argint 2 s) (\<lambda>n.
         case n of
           None \<Rightarrow> Inr None
         | Some n \<Rightarrow> rbind (argptr 1 n s) (\<lambda>p. Inr (map_option (\<lambda>p. (f, n, p)) p))))"

subsection \<open>Reading and writing\<close>

type_synonym 'a sysret = "(int, unit, 'a files_scheme) outcome res"

definition sys_dup :: "'a files_scheme \<Rightarrow> 'a sysret" where
  "sys_dup s =
     rbind (argfd 0 s) (\<lambda>fd.
     case fd of
       None \<Rightarrow> Inr (Returns (-1) s)
     | Some (_, f) \<Rightarrow>
         rbind (fdalloc f s) (\<lambda>(fd, s).
         if fd < 0 then Inr (Returns (-1) s)
         else rbind (filedup f s) (\<lambda>s. Inr (Returns fd s))))"

text \<open>The bytes read arrive in the caller's buffer.\<close>

definition read_to :: "nat \<Rightarrow> u32 \<Rightarrow> int \<Rightarrow> int \<Rightarrow> 'a files_scheme \<Rightarrow> 'a sysret" where
  "read_to f p n off s =
     rbind (fileread f n off s) (\<lambda>r.
     case r of
       Sleeps _ sw s \<Rightarrow> Inr (Sleeps () sw s)
     | Returns (v, d) s \<Rightarrow>
         rbind (myproc s) (\<lambda>c.
         rbind (user_store_bytes (pgdir (procs s c)) p d s) (\<lambda>s. Inr (Returns v s))))"

definition write_from :: "nat \<Rightarrow> u32 \<Rightarrow> int \<Rightarrow> int \<Rightarrow> 'a files_scheme \<Rightarrow> 'a sysret" where
  "write_from f p n off s =
     rbind (myproc s) (\<lambda>c.
     rbind (user_bytes (pgdir (procs s c)) p (nat n) s) (\<lambda>d.
     rbind (filewrite f d n off s) (\<lambda>r.
     case r of
       Sleeps _ sw s \<Rightarrow> Inr (Sleeps () sw s)
     | Returns v s \<Rightarrow> Inr (Returns v s))))"

definition sys_read :: "'a files_scheme \<Rightarrow> 'a sysret" where
  "sys_read s =
     rbind (rw_args s) (\<lambda>a.
     case a of None \<Rightarrow> Inr (Returns (-1) s) | Some (f, n, p) \<Rightarrow> read_to f p n (-1) s)"

definition sys_write :: "'a files_scheme \<Rightarrow> 'a sysret" where
  "sys_write s =
     rbind (rw_args s) (\<lambda>a.
     case a of None \<Rightarrow> Inr (Returns (-1) s) | Some (f, n, p) \<Rightarrow> write_from f p n (-1) s)"

definition sys_pread :: "'a files_scheme \<Rightarrow> 'a sysret" where
  "sys_pread s =
     rbind (rw_args s) (\<lambda>a.
     case a of
       None \<Rightarrow> Inr (Returns (-1) s)
     | Some (f, n, p) \<Rightarrow>
         rbind (argint 3 s) (\<lambda>off.
         case off of
           None \<Rightarrow> Inr (Returns (-1) s)
         | Some off \<Rightarrow> if off < 0 then Inr (Returns (-1) s) else read_to f p n off s))"

definition sys_pwrite :: "'a files_scheme \<Rightarrow> 'a sysret" where
  "sys_pwrite s =
     rbind (rw_args s) (\<lambda>a.
     case a of
       None \<Rightarrow> Inr (Returns (-1) s)
     | Some (f, n, p) \<Rightarrow>
         rbind (argint 3 s) (\<lambda>off.
         case off of
           None \<Rightarrow> Inr (Returns (-1) s)
         | Some off \<Rightarrow> if off < 0 then Inr (Returns (-1) s) else write_from f p n off s))"

definition sys_close :: "'a files_scheme \<Rightarrow> 'a sysret" where
  "sys_close s =
     rbind (argfd 0 s) (\<lambda>fd.
     case fd of
       None \<Rightarrow> Inr (Returns (-1) s)
     | Some (fd, f) \<Rightarrow>
         rbind (myproc s) (\<lambda>c. rbind (main_thread c s) (\<lambda>m.
         let s = upd m (\<lambda>q. q\<lparr>ofile := (ofile q)[fd := None]\<rparr>) s
         in rbind (fileclose f s) (\<lambda>s. Inr (Returns 0 s)))))"

text \<open>The layout of \<open>struct stat\<close>: two bytes of padding after each of the short fields.\<close>

definition stat_bytes :: "stat \<Rightarrow> (u32 \<times> u8 list) list" where
  "stat_bytes st = [(0, bytes16 (st_type st)), (4, bytes32 (st_dev st)), (8, bytes32 (st_ino st)),
     (12, bytes16 (st_nlink st)), (16, bytes32 (st_size st))]"

definition sys_fstat :: "'a files_scheme \<Rightarrow> 'a sysret" where
  "sys_fstat s =
     rbind (argfd 0 s) (\<lambda>fd.
     case fd of
       None \<Rightarrow> Inr (Returns (-1) s)
     | Some (_, f) \<Rightarrow>
         rbind (argptr 1 20 s) (\<lambda>p.
         case p of
           None \<Rightarrow> Inr (Returns (-1) s)
         | Some p \<Rightarrow>
             rbind (filestat f s) (\<lambda>(r, st, s).
             case st of
               None \<Rightarrow> Inr (Returns r s)
             | Some st \<Rightarrow>
                 rbind (myproc s) (\<lambda>c.
                 rbind (rfold (\<lambda>(o', bs). user_store_bytes (pgdir (procs s c)) (p + o') bs) (stat_bytes st) s)
                   (\<lambda>s. Inr (Returns r s))))))"

subsection \<open>Links\<close>

definition fail_op :: "'a files_scheme \<Rightarrow> 'a sysret" where
  "fail_op s = rbind (op_end s) (\<lambda>s. Inr (Returns (-1) s))"

definition link_undo :: "nat \<Rightarrow> 'a files_scheme \<Rightarrow> 'a sysret" where
  "link_undo ip s =
     rbind (ilock ip s) (\<lambda>s.
     rbind (iupdate ip (iupd ip (\<lambda>e. e\<lparr>inlink := inlink e - 1\<rparr>) s)) (\<lambda>s.
     rbind (iunlockput ip s) fail_op))"

definition sys_link :: "'a files_scheme \<Rightarrow> 'a sysret" where
  "sys_link s =
     rbind (argstr 0 s) (\<lambda>old.
     rbind (if old = None then Inr None else argstr 1 s) (\<lambda>new.
     case (old, new) of
       (Some old, Some new) \<Rightarrow>
         rbind (op_begin s) (\<lambda>s.
         rbind (namei old s) (\<lambda>(ip, s).
         case ip of
           None \<Rightarrow> fail_op s
         | Some ip \<Rightarrow>
             rbind (ilock ip s) (\<lambda>s.
             if itype (icache s ip) = T_DIR then rbind (iunlockput ip s) fail_op
             else
             rbind (iupdate ip (iupd ip (\<lambda>e. e\<lparr>inlink := inlink e + 1\<rparr>) s)) (\<lambda>s.
             rbind (iunlock ip s) (\<lambda>s.
             rbind (nameiparent new s) (\<lambda>(dp, name, s).
             case dp of
               None \<Rightarrow> link_undo ip s
             | Some dp \<Rightarrow>
                 rbind (ilock dp s) (\<lambda>s.
                 rbind (if idev (icache s dp) \<noteq> idev (icache s ip) then Inr (-1, s)
                        else dirlink dp name (inum (icache s ip)) s) (\<lambda>(r, s).
                 if r < 0 then rbind (iunlockput dp s) (link_undo ip)
                 else rbind (iunlockput dp s) (\<lambda>s.
                      rbind (iput ip s) (\<lambda>s.
                      rbind (op_end s) (\<lambda>s. Inr (Returns 0 s))))))))))))
     | _ \<Rightarrow> Inr (Returns (-1) s)))"

fun isdirempty_loop :: "nat \<Rightarrow> nat \<Rightarrow> u32 \<Rightarrow> 'a fsys_scheme \<Rightarrow> (bool \<times> 'a fsys_scheme) res" where
  "isdirempty_loop 0 dp off s = Inl Diverges"
| "isdirempty_loop (Suc fuel) dp off s =
     (if off < isize (icache s dp)
      then rbind (read_dirent ''isdirempty: readi'' dp off s) (\<lambda>(de, s).
           if dirent_inum de \<noteq> 0 then Inr (False, s) else isdirempty_loop fuel dp (off + of_nat DIRENT) s)
      else Inr (True, s))"

definition isdirempty :: "nat \<Rightarrow> 'a fsys_scheme \<Rightarrow> (bool \<times> 'a fsys_scheme) res" where
  "isdirempty dp s = isdirempty_loop DIRFUEL dp (2 * of_nat DIRENT) s"

definition DOT :: "u8 list" where "DOT = [46]"
definition DOTDOT :: "u8 list" where "DOTDOT = [46, 46]"

definition sys_unlink :: "'a files_scheme \<Rightarrow> 'a sysret" where
  "sys_unlink s =
     rbind (argstr 0 s) (\<lambda>path.
     case path of
       None \<Rightarrow> Inr (Returns (-1) s)
     | Some path \<Rightarrow>
         rbind (op_begin s) (\<lambda>s.
         rbind (nameiparent path s) (\<lambda>(dp, name, s).
         case dp of
           None \<Rightarrow> fail_op s
         | Some dp \<Rightarrow>
             rbind (ilock dp s) (\<lambda>s.
             if namecmp name DOT = 0 \<or> namecmp name DOTDOT = 0 then rbind (iunlockput dp s) fail_op
             else
             rbind (dirlookup dp name s) (\<lambda>(r, s).
             case r of
               None \<Rightarrow> rbind (iunlockput dp s) fail_op
             | Some (ip, off) \<Rightarrow>
                 rbind (ilock ip s) (\<lambda>s.
                 if sint (inlink (icache s ip)) < 1 then Inl (Panic ''unlink: nlink < 1'')
                 else
                 rbind (if itype (icache s ip) = T_DIR then isdirempty ip s else Inr (True, s)) (\<lambda>(empty, s).
                 if \<not> empty
                 then rbind (iunlockput ip s) (\<lambda>s. rbind (iunlockput dp s) fail_op)
                 else
                 rbind (writei dp (replicate DIRENT 0) off (of_nat DIRENT) s) (\<lambda>(r, s).
                 if r \<noteq> int DIRENT then Inl (Panic ''unlink: writei'')
                 else
                 rbind (if itype (icache s ip) = T_DIR
                        then iupdate dp (iupd dp (\<lambda>e. e\<lparr>inlink := inlink e - 1\<rparr>) s)
                        else Inr s) (\<lambda>s.
                 rbind (iunlockput dp s) (\<lambda>s.
                 rbind (iupdate ip (iupd ip (\<lambda>e. e\<lparr>inlink := inlink e - 1\<rparr>) s)) (\<lambda>s.
                 rbind (iunlockput ip s) (\<lambda>s.
                 rbind (op_end s) (\<lambda>s. Inr (Returns 0 s))))))))))))))"

subsection \<open>Creating and opening\<close>

definition create :: "u8 list \<Rightarrow> u16 \<Rightarrow> u16 \<Rightarrow> u16 \<Rightarrow> 'a fsys_scheme \<Rightarrow> (nat option \<times> 'a fsys_scheme) res" where
  "create path ty major minor s =
     rbind (nameiparent path s) (\<lambda>(dp, name, s).
     case dp of
       None \<Rightarrow> Inr (None, s)
     | Some dp \<Rightarrow>
         rbind (ilock dp s) (\<lambda>s.
         rbind (dirlookup dp name s) (\<lambda>(r, s).
         case r of
           Some (ip, _) \<Rightarrow>
             rbind (iunlockput dp s) (\<lambda>s.
             rbind (ilock ip s) (\<lambda>s.
             if ty = T_FILE \<and> itype (icache s ip) = T_FILE then Inr (Some ip, s)
             else rbind (iunlockput ip s) (\<lambda>s. Inr (None, s))))
         | None \<Rightarrow>
             rbind (ialloc (idev (icache s dp)) ty s) (\<lambda>(ip, s).
             rbind (ilock ip s) (\<lambda>s.
             let s = iupd ip (\<lambda>e. e\<lparr>imajor := major, iminor := minor, inlink := 1\<rparr>) s
             in rbind (iupdate ip s) (\<lambda>s.
                rbind (if ty = T_DIR
                       then rbind (iupdate dp (iupd dp (\<lambda>e. e\<lparr>inlink := inlink e + 1\<rparr>) s)) (\<lambda>s.
                            rbind (dirlink ip DOT (inum (icache s ip)) s) (\<lambda>(r1, s).
                            if r1 < 0 then Inl (Panic ''create dots'')
                            else rbind (dirlink ip DOTDOT (inum (icache s dp)) s) (\<lambda>(r2, s).
                                 if r2 < 0 then Inl (Panic ''create dots'') else Inr s)))
                       else Inr s) (\<lambda>s.
                rbind (dirlink dp name (inum (icache s ip)) s) (\<lambda>(r, s).
                if r < 0 then Inl (Panic ''create: dirlink'')
                else rbind (iunlockput dp s) (\<lambda>s. Inr (Some ip, s))))))))))"

abbreviation O_WRONLY :: int where "O_WRONLY \<equiv> 1"
abbreviation O_RDWR :: int where "O_RDWR \<equiv> 2"
abbreviation O_CREATE :: int where "O_CREATE \<equiv> 0x200"

text \<open>The inode \<open>open\<close> works on, locked; \<open>None\<close> after the failure paths.\<close>

definition open_inode :: "u8 list \<Rightarrow> int \<Rightarrow> 'a fsys_scheme \<Rightarrow> (nat option \<times> 'a fsys_scheme) res" where
  "open_inode path omode s =
     (if omode AND O_CREATE \<noteq> 0 then create path T_FILE 0 0 s
      else rbind (namei path s) (\<lambda>(ip, s).
           case ip of
             None \<Rightarrow> Inr (None, s)
           | Some ip \<Rightarrow>
               rbind (ilock ip s) (\<lambda>s.
               if itype (icache s ip) = T_DIR \<and> omode \<noteq> 0
               then rbind (iunlockput ip s) (\<lambda>s. Inr (None, s))
               else Inr (Some ip, s))))"

definition sys_open :: "'a files_scheme \<Rightarrow> 'a sysret" where
  "sys_open s =
     rbind (argstr 0 s) (\<lambda>path.
     rbind (if path = None then Inr None else argint 1 s) (\<lambda>omode.
     case (path, omode) of
       (Some path, Some omode) \<Rightarrow>
         rbind (op_begin s) (\<lambda>s.
         rbind (open_inode path omode s) (\<lambda>(ip, s).
         case ip of
           None \<Rightarrow> fail_op s
         | Some ip \<Rightarrow>
             (case filealloc s of
                (None, s) \<Rightarrow> rbind (iunlockput ip s) fail_op
              | (Some f, s) \<Rightarrow>
                  rbind (fdalloc f s) (\<lambda>(fd, s).
                  if fd < 0 then rbind (fileclose f s) (\<lambda>s. rbind (iunlockput ip s) fail_op)
                  else rbind (iunlock ip s) (\<lambda>s.
                       rbind (op_end s) (\<lambda>s.
                       Inr (Returns fd (fupd f (\<lambda>e. e\<lparr>fdtype := FD_INODE, fip := ip, foff := 0,
                          readable := (omode AND O_WRONLY = 0),
                          writable := (omode AND O_WRONLY \<noteq> 0 \<or> omode AND O_RDWR \<noteq> 0)\<rparr>) s))))))))
     | _ \<Rightarrow> Inr (Returns (-1) s)))"

definition put_created :: "nat option \<Rightarrow> 'a files_scheme \<Rightarrow> 'a sysret" where
  "put_created ip s =
     (case ip of
        None \<Rightarrow> fail_op s
      | Some ip \<Rightarrow> rbind (iunlockput ip s) (\<lambda>s. rbind (op_end s) (\<lambda>s. Inr (Returns 0 s))))"

definition sys_mkdir :: "'a files_scheme \<Rightarrow> 'a sysret" where
  "sys_mkdir s =
     rbind (op_begin s) (\<lambda>s.
     rbind (argstr 0 s) (\<lambda>path.
     case path of
       None \<Rightarrow> fail_op s
     | Some path \<Rightarrow> rbind (create path T_DIR 0 0 s) (\<lambda>(ip, s). put_created ip s)))"

definition sys_mknod :: "'a files_scheme \<Rightarrow> 'a sysret" where
  "sys_mknod s =
     rbind (op_begin s) (\<lambda>s.
     rbind (argstr 0 s) (\<lambda>path.
     rbind (if path = None then Inr None else argint 1 s) (\<lambda>major.
     rbind (if major = None then Inr None else argint 2 s) (\<lambda>minor.
     case (path, major, minor) of
       (Some path, Some major, Some minor) \<Rightarrow>
         rbind (create path T_DEV (of_int major) (of_int minor) s) (\<lambda>(ip, s). put_created ip s)
     | _ \<Rightarrow> fail_op s))))"

definition sys_chdir :: "'a files_scheme \<Rightarrow> 'a sysret" where
  "sys_chdir s =
     rbind (myproc s) (\<lambda>c. rbind (main_thread c s) (\<lambda>m.
     rbind (op_begin s) (\<lambda>s.
     rbind (argstr 0 s) (\<lambda>path.
     case path of
       None \<Rightarrow> fail_op s
     | Some path \<Rightarrow>
         rbind (namei path s) (\<lambda>(ip, s).
         case ip of
           None \<Rightarrow> fail_op s
         | Some ip \<Rightarrow>
             rbind (ilock ip s) (\<lambda>s.
             if itype (icache s ip) \<noteq> T_DIR then rbind (iunlockput ip s) fail_op
             else rbind (iunlock ip s) (\<lambda>s.
                  rbind (deref (cwd (procs s m))) (\<lambda>old.
                  rbind (iput old s) (\<lambda>s.
                  rbind (op_end s) (\<lambda>s.
                  Inr (Returns 0 (upd m (\<lambda>q. q\<lparr>cwd := Some ip\<rparr>) s))))))))))))"

definition pipe_undo :: "nat \<Rightarrow> nat \<Rightarrow> int \<Rightarrow> 'a files_scheme \<Rightarrow> 'a sysret" where
  "pipe_undo rf wrf fd0 s =
     rbind (myproc s) (\<lambda>c. rbind (main_thread c s) (\<lambda>m.
     let s = (if fd0 \<ge> 0 then upd m (\<lambda>q. q\<lparr>ofile := (ofile q)[nat fd0 := None]\<rparr>) s else s)
     in rbind (fileclose rf s) (\<lambda>s.
        rbind (fileclose wrf s) (\<lambda>s. Inr (Returns (-1) s)))))"

definition sys_pipe :: "'a files_scheme \<Rightarrow> 'a sysret" where
  "sys_pipe s =
     rbind (argptr 0 8 s) (\<lambda>p.
     case p of
       None \<Rightarrow> Inr (Returns (-1) s)
     | Some p \<Rightarrow>
         rbind (pipealloc s) (\<lambda>(r, fs, s).
         case fs of
           None \<Rightarrow> Inr (Returns (-1) s)
         | Some (rf, wrf) \<Rightarrow>
             rbind (fdalloc rf s) (\<lambda>(fd0, s).
             if fd0 < 0 then pipe_undo rf wrf fd0 s
             else rbind (fdalloc wrf s) (\<lambda>(fd1, s).
                  if fd1 < 0 then pipe_undo rf wrf fd0 s
                  else rbind (myproc s) (\<lambda>c.
                       rbind (user_store_bytes (pgdir (procs s c)) p
                                (bytes32 (of_int fd0) @ bytes32 (of_int fd1)) s) (\<lambda>s.
                       Inr (Returns 0 s)))))))"

end
