(* ===== verification/Syscall.thy ===== *)
theory Syscall
  imports Sysfile
begin

section \<open>Exec, process system calls and dispatch (exec.c, sysproc.c, syscall.c, vm.c)\<close>

text \<open>
  \<open>exec\<close> with the loader \<open>loaduvm\<close>, the remaining system calls and the dispatcher. \<open>exec\<close> first joins the
  other threads of the process, which may sleep; \<open>exec_image\<close> is what it does when it is alone. The
  argument vector is the list of its strings.

  A system call ends with an \<open>outcome\<close>: \<open>Returns\<close> the value for \<open>eax\<close>, or \<open>Sleeps\<close> when the calling thread gave
  up the CPU in the middle of the call (\<open>exit\<close> and \<open>thread_exit\<close> never come back).
\<close>

subsection \<open>The loader\<close>

fun loaduvm_loop :: "nat \<Rightarrow> u32 \<Rightarrow> u32 \<Rightarrow> nat \<Rightarrow> u32 \<Rightarrow> u32 \<Rightarrow> u32 \<Rightarrow> 'a fsys_scheme \<Rightarrow> (int \<times> 'a fsys_scheme) res" where
  "loaduvm_loop 0 pd addr ip offset n i s = Inl Diverges"
| "loaduvm_loop (Suc fuel) pd addr ip offset n i s =
     (if i < n
      then rbind (walkpgdir pd (addr + i) False s) (\<lambda>(pte, s).
           if pte = 0 then Inl (Panic ''loaduvm: address should exist'')
           else let pa = PTE_ADDR (load32 pte s); m = (if n - i < PGSIZE then n - i else PGSIZE)
                in rbind (readi ip (offset + i) m s) (\<lambda>(r, d, s).
                   let s = put_mem (P2V pa) d s
                   in if r \<noteq> uint m then Inr (-1, s)
                      else loaduvm_loop fuel pd addr ip offset n (i + PGSIZE) s))
      else Inr (0, s))"

definition loaduvm :: "u32 \<Rightarrow> u32 \<Rightarrow> nat \<Rightarrow> u32 \<Rightarrow> u32 \<Rightarrow> 'a fsys_scheme \<Rightarrow> (int \<times> 'a fsys_scheme) res" where
  "loaduvm pd addr ip offset n s =
     (if addr mod PGSIZE \<noteq> 0 then Inl (Panic ''loaduvm: addr must be page aligned'')
      else loaduvm_loop PAGES pd addr ip offset n 0 s)"

abbreviation ELF_MAGIC :: u32 where "ELF_MAGIC \<equiv> 0x464C457F"
abbreviation ELFHDR :: u32 where "ELFHDR \<equiv> 52"
abbreviation PROGHDR :: u32 where "PROGHDR \<equiv> 32"
abbreviation ELF_PROG_LOAD :: u32 where "ELF_PROG_LOAD \<equiv> 1"
abbreviation MAXARG :: nat where "MAXARG \<equiv> 32"
abbreviation USERTOP :: u32 where "USERTOP \<equiv> 0x7FFFE000"

record elfhdr =
  magic :: u32
  entry :: u32
  phoff :: u32
  phnum :: u16

definition elfhdr_of :: "u8 list \<Rightarrow> elfhdr" where
  "elfhdr_of d = \<lparr>magic = get32 0 d, entry = get32 6 d, phoff = get32 7 d, phnum = le16 (get_bytes 44 2 d)\<rparr>"

record proghdr =
  ptype :: u32
  poff :: u32
  vaddr :: u32
  filesz :: u32
  memsz :: u32

definition proghdr_of :: "u8 list \<Rightarrow> proghdr" where
  "proghdr_of d = \<lparr>ptype = get32 0 d, poff = get32 1 d, vaddr = get32 2 d, filesz = get32 4 d, memsz = get32 5 d\<rparr>"

text \<open>The loop over the program headers: the new size, or \<open>None\<close> for the jump to \<open>bad\<close>.\<close>

fun exec_load :: "nat \<Rightarrow> u32 \<Rightarrow> nat \<Rightarrow> u32 \<Rightarrow> u32 \<Rightarrow> 'a fsys_scheme \<Rightarrow> (u32 option \<times> 'a fsys_scheme) res" where
  "exec_load 0 pd ip off z s = Inr (Some z, s)"
| "exec_load (Suc n) pd ip off z s =
     rbind (readi ip off PROGHDR s) (\<lambda>(r, d, s).
     let ph = proghdr_of d
     in if r \<noteq> uint PROGHDR then Inr (None, s)
        else if ptype ph \<noteq> ELF_PROG_LOAD then exec_load n pd ip (off + PROGHDR) z s
        else if memsz ph < filesz ph then Inr (None, s)
        else if vaddr ph + memsz ph < vaddr ph then Inr (None, s)
        else rbind (allocuvm pd z (vaddr ph + memsz ph) s) (\<lambda>(z, s).
             if z = 0 then Inr (None, s)
             else if vaddr ph mod PGSIZE \<noteq> 0 then Inr (None, s)
             else rbind (loaduvm pd (vaddr ph) ip (poff ph) (filesz ph) s) (\<lambda>(r, s).
                  if r < 0 then Inr (None, s) else exec_load n pd ip (off + PROGHDR) z s)))"

text \<open>Pushing the argument strings: the stack pointer and the addresses of the strings.\<close>

fun exec_args :: "nat \<Rightarrow> u8 list list \<Rightarrow> u32 \<Rightarrow> u32 \<Rightarrow> 'a kmem_scheme \<Rightarrow> ((u32 \<times> u32 list) option \<times> 'a kmem_scheme) res" where
  "exec_args argc [] pd sp s = Inr (Some (sp, []), s)"
| "exec_args argc (a # as) pd sp s =
     (if argc \<ge> MAXARG then Inr (None, s)
      else let sp = (sp - (of_nat (length a) + 1)) AND NOT 3
           in rbind (copyout pd sp (a @ [0]) s) (\<lambda>(r, s).
              if r < 0 then Inr (None, s)
              else rbind (exec_args (Suc argc) as pd sp s) (\<lambda>(r, s).
                   Inr (map_option (\<lambda>(sp', us). (sp', sp # us)) r, s))))"

definition exec_bad :: "u32 \<Rightarrow> nat option \<Rightarrow> 'a files_scheme \<Rightarrow> (int \<times> 'a files_scheme) res" where
  "exec_bad pd ip s =
     rbind (if pd \<noteq> 0 then freevm pd s else Inr s) (\<lambda>s.
     case ip of
       None \<Rightarrow> Inr (-1, s)
     | Some ip \<Rightarrow> rbind (iunlockput ip s) (\<lambda>s. rbind (op_end s) (\<lambda>s. Inr (-1, s))))"

definition basename :: "u8 list \<Rightarrow> u8 list" where
  "basename path = rev (takeWhile (\<lambda>c. c \<noteq> SLASH) (rev path))"

text \<open>The stack image below the strings: a return address, \<open>argc\<close>, \<open>argv\<close> and the vector.\<close>

definition exec_stack :: "u32 \<Rightarrow> u32 list \<Rightarrow> u32 list" where
  "exec_stack sp us =
     [0xFFFFFFFF, of_nat (length us), sp - (of_nat (length us) + 1) * 4] @ us @ [0]"

definition exec_commit :: "nat \<Rightarrow> u32 \<Rightarrow> u32 \<Rightarrow> u32 \<Rightarrow> u32 \<Rightarrow> u8 list \<Rightarrow> 'a files_scheme \<Rightarrow> (int \<times> 'a files_scheme) res" where
  "exec_commit c pd z start sp path s =
     rbind (safestrcpy (pname (procs s c)) (cview (basename path)) 16) (\<lambda>nm.
     let oldpgdir = pgdir (procs s c);
         s = upd c (\<lambda>q. q\<lparr>pname := nm, pgdir := pd, sz := z\<rparr>) s;
         s = store32 (tf (procs s c) + TF_EIP) start s;
         s = store32 (tf (procs s c) + TF_ESP) sp s
     in rbind (switchuvm c s) (\<lambda>s. rbind (freevm oldpgdir s) (\<lambda>s. Inr (0, s))))"

text \<open>After the program is loaded: the user stack, the arguments and the switch to the new image.\<close>

definition exec_start :: "nat \<Rightarrow> u32 \<Rightarrow> u32 \<Rightarrow> u32 \<Rightarrow> u8 list \<Rightarrow> u8 list list \<Rightarrow> 'a files_scheme \<Rightarrow> (int \<times> 'a files_scheme) res" where
  "exec_start c pd z start path argv s =
     (let z = PGROUNDUP z; s = upd c (\<lambda>q. q\<lparr>ustack := USERTOP - USTACKSIZE\<rparr>) s
      in rbind (allocustack pd (USERTOP - USTACKSIZE) s) (\<lambda>(r, s).
         if r = 0 then exec_bad pd None s
         else rbind (exec_args 0 argv pd USERTOP s) (\<lambda>(r, s).
              case r of
                None \<Rightarrow> exec_bad pd None s
              | Some (sp, us) \<Rightarrow>
                  let words = exec_stack sp us; sp = sp - 4 * of_nat (length words)
                  in rbind (copyout pd sp (concat (map bytes32 words)) s) (\<lambda>(r, s).
                     if r < 0 then exec_bad pd None s else exec_commit c pd z start sp path s))))"

definition exec_image :: "u8 list \<Rightarrow> u8 list list \<Rightarrow> 'a files_scheme \<Rightarrow> (int \<times> 'a files_scheme) res" where
  "exec_image path argv s =
     rbind (myproc s) (\<lambda>c.
     rbind (op_begin s) (\<lambda>s.
     rbind (namei path s) (\<lambda>(ip, s).
     case ip of
       None \<Rightarrow> rbind (op_end s) (\<lambda>s. Inr (-1, s))
     | Some ip \<Rightarrow>
         rbind (ilock ip s) (\<lambda>s.
         rbind (readi ip 0 ELFHDR s) (\<lambda>(r, d, s).
         let elf = elfhdr_of d
         in if r \<noteq> uint ELFHDR then exec_bad 0 (Some ip) s
            else if magic elf \<noteq> ELF_MAGIC then exec_bad 0 (Some ip) s
            else rbind (setupkvm s) (\<lambda>(pd, s).
                 if pd = 0 then exec_bad 0 (Some ip) s
                 else rbind (exec_load (unat (phnum elf)) pd ip (phoff elf) 0 s) (\<lambda>(z, s).
                      case z of
                        None \<Rightarrow> exec_bad pd (Some ip) s
                      | Some z \<Rightarrow>
                          rbind (iunlockput ip s) (\<lambda>s.
                          rbind (op_end s) (\<lambda>s.
                          exec_start c pd z (entry elf) path argv s)))))))))"

definition exec :: "u8 list \<Rightarrow> u8 list list \<Rightarrow> 'a files_scheme \<Rightarrow> (int, int, 'a files_scheme) outcome res" where
  "exec path argv s =
     rbind (myproc s) (\<lambda>c.
     rbind (monopolize_proc c s) (\<lambda>r.
     case r of
       Sleeps t sw s \<Rightarrow> Inr (Sleeps t sw s)
     | Returns _ s \<Rightarrow> rbind (exec_image path argv s) (\<lambda>(v, s). Inr (Returns v s))))"

fun fetch_argv :: "nat \<Rightarrow> u32 \<Rightarrow> 'a ptable_scheme \<Rightarrow> u8 list list option res" where
  "fetch_argv 0 uargv s = Inr None"
| "fetch_argv (Suc n) uargv s =
     rbind (fetchint uargv s) (\<lambda>u.
     case u of
       None \<Rightarrow> Inr None
     | Some u \<Rightarrow>
         if u = 0 then Inr (Some [])
         else rbind (fetchstr (of_int u) s) (\<lambda>a.
              case a of
                None \<Rightarrow> Inr None
              | Some a \<Rightarrow> rbind (fetch_argv n (uargv + 4) s) (\<lambda>r. Inr (map_option ((#) a) r))))"

definition sys_exec :: "'a files_scheme \<Rightarrow> 'a sysret" where
  "sys_exec s =
     rbind (argstr 0 s) (\<lambda>path.
     rbind (if path = None then Inr None else argint 1 s) (\<lambda>uargv.
     case (path, uargv) of
       (Some path, Some uargv) \<Rightarrow>
         rbind (fetch_argv MAXARG (of_int uargv) s) (\<lambda>argv.
         case argv of
           None \<Rightarrow> Inr (Returns (-1) s)
         | Some argv \<Rightarrow>
             rbind (exec path argv s) (\<lambda>r.
             case r of Sleeps _ sw s \<Rightarrow> Inr (Sleeps () sw s) | Returns v s \<Rightarrow> Inr (Returns v s)))
     | _ \<Rightarrow> Inr (Returns (-1) s)))"

subsection \<open>Process system calls\<close>

text \<open>The state with the tick counter. Its lock counts in \<open>nheld\<close>.\<close>

record kernel = files +
  uptime :: u32

type_synonym 'a kret = "(int, unit, 'a kernel_scheme) outcome res"

definition ret :: "(int \<times> 'a kernel_scheme) res \<Rightarrow> 'a kret" where
  "ret m = rbind m (\<lambda>(v, s). Inr (Returns v s))"

definition with_int :: "nat \<Rightarrow> (int \<Rightarrow> 'a kernel_scheme \<Rightarrow> 'a kret) \<Rightarrow> 'a kernel_scheme \<Rightarrow> 'a kret" where
  "with_int n f s = rbind (argint n s) (\<lambda>a. case a of None \<Rightarrow> Inr (Returns (-1) s) | Some a \<Rightarrow> f a s)"

definition sys_fork :: "'a kernel_scheme \<Rightarrow> 'a kret" where
  "sys_fork s = ret (fork s)"

definition sys_exit :: "'a kernel_scheme \<Rightarrow> 'a kret" where
  "sys_exit s =
     rbind (exit s) (\<lambda>r.
     case r of
       Sleeps _ sw s \<Rightarrow> Inr (Sleeps () sw s)
     | Returns (Some sw) s \<Rightarrow> Inr (Sleeps () sw s)
     | Returns None s \<Rightarrow> Inr (Returns 0 s))"

definition sys_wait :: "'a kernel_scheme \<Rightarrow> 'a kret" where
  "sys_wait s = wait s"

definition sys_kill :: "'a kernel_scheme \<Rightarrow> 'a kret" where
  "sys_kill = with_int 0 (\<lambda>p s. ret (kill p s))"

definition sys_getpid :: "'a kernel_scheme \<Rightarrow> 'a kret" where
  "sys_getpid s = rbind (myproc s) (\<lambda>c. Inr (Returns (pid (procs s c)) s))"

definition sys_sbrk :: "'a kernel_scheme \<Rightarrow> 'a kret" where
  "sys_sbrk = with_int 0 (\<lambda>n s.
     rbind (myproc s) (\<lambda>c. rbind (main_thread c s) (\<lambda>m.
     let addr = sz (procs s m)
     in rbind (growproc n s) (\<lambda>(r, s). Inr (Returns (if r < 0 then -1 else sint addr) s)))))"

text \<open>The loop of \<open>sys_sleep\<close> from its test on, with the lock held; \<open>ticks - ticks0 < n\<close> is unsigned.\<close>

definition sleep_try :: "u32 \<Rightarrow> int \<Rightarrow> 'a kernel_scheme \<Rightarrow> (int, u32, 'a kernel_scheme) outcome res" where
  "sleep_try ticks0 n s =
     (if uptime s - ticks0 < of_int n
      then rbind (myproc s) (\<lambda>c.
           if killed (procs s c) then Inr (Returns (-1) (spin_leave s))
           else rbind (sleep Chan_ticks (Some (\<lambda>s. Inr (spin_leave s))) s) (\<lambda>(sw, s). Inr (Sleeps ticks0 sw s)))
      else Inr (Returns 0 (spin_leave s)))"

definition sys_sleep :: "'a kernel_scheme \<Rightarrow> 'a kret" where
  "sys_sleep = with_int 0 (\<lambda>n s.
     rbind (sleep_try (uptime s) n (spin_enter s)) (\<lambda>r.
     case r of Returns v s \<Rightarrow> Inr (Returns v s) | Sleeps _ sw s \<Rightarrow> Inr (Sleeps () sw s)))"

definition sys_sleep_resume :: "u32 \<Rightarrow> int \<Rightarrow> 'a kernel_scheme \<Rightarrow> (int, u32, 'a kernel_scheme) outcome res" where
  "sys_sleep_resume ticks0 n s = rbind (sleep_resume (Some (\<lambda>s. Inr (spin_enter s))) s) (sleep_try ticks0 n)"

definition sys_yield :: "'a kernel_scheme \<Rightarrow> 'a kret" where
  "sys_yield s = rbind (yield s) (\<lambda>(sw, s). Inr (Sleeps () sw s))"

definition sys_getlev :: "'a kernel_scheme \<Rightarrow> 'a kret" where
  "sys_getlev s = rbind (myproc s) (\<lambda>c.
     Inr (Returns (if type (procs s c) = MLFQ then int (privlevel (procs s c)) else -1) s))"

definition sys_set_cpu_share :: "'a kernel_scheme \<Rightarrow> 'a kret" where
  "sys_set_cpu_share = with_int 0 (\<lambda>n s. ret (set_cpu_share n s))"

definition sys_uptime :: "'a kernel_scheme \<Rightarrow> 'a kret" where
  "sys_uptime s = Inr (Returns (sint (uptime s)) s)"

definition sys_thread_create :: "'a kernel_scheme \<Rightarrow> 'a kret" where
  "sys_thread_create = with_int 0 (\<lambda>thread. with_int 1 (\<lambda>start_routine. with_int 2 (\<lambda>arg s.
     ret (thread_create (of_int thread) (of_int start_routine) (of_int arg) s))))"

definition sys_thread_exit :: "'a kernel_scheme \<Rightarrow> 'a kret" where
  "sys_thread_exit = with_int 0 (\<lambda>rv s.
     rbind (thread_exit (of_int rv) s) (\<lambda>(sw, s).
     case sw of None \<Rightarrow> Inr (Returns 0 s) | Some sw \<Rightarrow> Inr (Sleeps () sw s)))"

definition sys_thread_join :: "'a kernel_scheme \<Rightarrow> 'a kret" where
  "sys_thread_join = with_int 0 (\<lambda>thread. with_int 1 (\<lambda>rv. thread_join thread (Some (of_int rv))))"

definition sys_gettid :: "'a kernel_scheme \<Rightarrow> 'a kret" where
  "sys_gettid s = rbind (myproc s) (\<lambda>c. Inr (Returns (tid (procs s c)) s))"

definition sys_futex_wait :: "'a kernel_scheme \<Rightarrow> 'a kret" where
  "sys_futex_wait = with_int 0 (\<lambda>addr. with_int 1 (\<lambda>v. futex_wait (of_int addr) v))"

definition sys_futex_wake :: "'a kernel_scheme \<Rightarrow> 'a kret" where
  "sys_futex_wake = with_int 0 (\<lambda>addr s. ret (futex_wake (of_int addr) s))"

subsection \<open>Dispatch\<close>

definition syscalls :: "('a kernel_scheme \<Rightarrow> 'a kret) option list" where
  "syscalls = [None, Some sys_fork, Some sys_exit, Some sys_wait, Some sys_pipe, Some sys_read, Some sys_kill,
     Some sys_exec, Some sys_fstat, Some sys_chdir, Some sys_dup, Some sys_getpid, Some sys_sbrk, Some sys_sleep,
     Some sys_uptime, Some sys_open, Some sys_write, Some sys_mknod, Some sys_unlink, Some sys_link, Some sys_mkdir,
     Some sys_close, Some sys_yield, Some sys_getlev, Some sys_set_cpu_share, Some sys_thread_create,
     Some sys_thread_exit, Some sys_thread_join, Some sys_gettid, Some sys_futex_wait, Some sys_futex_wake,
     Some sys_pread, Some sys_pwrite]"

definition syscall :: "'a kernel_scheme \<Rightarrow> 'a kret" where
  "syscall s =
     rbind (myproc s) (\<lambda>c.
     let num = sint (load32 (tf (procs s c) + TF_EAX) s);
         set = (\<lambda>v s. store32 (tf (procs s c) + TF_EAX) (of_int v) s)
     in if 0 < num \<and> num < int (length (syscalls :: ('a kernel_scheme \<Rightarrow> 'a kret) option list))
           \<and> (syscalls ! nat num :: ('a kernel_scheme \<Rightarrow> 'a kret) option) \<noteq> None
        then rbind (the (syscalls ! nat num) s) (\<lambda>r.
             case r of
               Returns v s \<Rightarrow> Inr (Returns v (set v s))
             | Sleeps k sw s \<Rightarrow> Inr (Sleeps k sw s))
        else Inr (Returns (-1) (set (-1) s)))"

text \<open>The timer interrupt of CPU 0 (trap.c).\<close>

definition timer_tick :: "'a kernel_scheme \<Rightarrow> 'a kernel_scheme res" where
  "timer_tick s =
     (let s = spin_enter s; s = s\<lparr>uptime := uptime s + 1\<rparr>
      in rbind (wakeup (Some Chan_ticks) s) (\<lambda>s. Inr (spin_leave s)))"

end
