(* ===== verification/Fs_Alloc.thy ===== *)
theory Fs_Alloc
  imports Fs
begin

section \<open>Transactions and the block allocator\<close>

text \<open>
  How a transaction uses the block layer, and the correctness of \<open>balloc\<close> and \<open>bfree\<close>. The first part
  reduces the read, change, log and release sequences of \<open>fs.c\<close> to single state changes; the second
  shows that the allocator hands out the first free block, zeroed, and that freeing undoes it.
\<close>

subsection \<open>Room in the cache and in the log\<close>

text \<open>
  \<open>fs_room n s\<close>: the thread is inside a transaction, nobody sleeps, and \<open>n\<close> more blocks of the file
  system's device can be pinned and logged. \<open>touch k f s\<close> is the state after block \<open>k\<close> has been changed
  by \<open>f\<close> under the log.
\<close>

definition npinned :: "'a blocks_scheme \<Rightarrow> nat" where
  "npinned s = card (set (bheld s) \<union> Pair ROOTDEV ` set (logged s))"

definition fs_room :: "nat \<Rightarrow> 'a blocks_scheme \<Rightarrow> bool" where
  "fs_room n s = (quiet s \<and> outstanding s \<ge> 1 \<and> npinned s + n \<le> NBUF \<and>
     int (length (logged s) + n) \<le> LOGSIZE \<and> int (length (logged s) + n) \<le> logsize s - 1)"

definition put_logged :: "u32 \<Rightarrow> u32 list \<Rightarrow> u32 list" where
  "put_logged b l = (if b \<in> set l then l else l @ [b])"

definition touch :: "u32 \<Rightarrow> (u8 list \<Rightarrow> u8 list) \<Rightarrow> 'a blocks_scheme \<Rightarrow> 'a blocks_scheme" where
  "touch b f s = s\<lparr>bview := (bview s)((ROOTDEV, b) := f (bview s (ROOTDEV, b))), logged := put_logged b (logged s)\<rparr>"

lemma length_pinned: "length (pinned s) = npinned s"
  by (simp add: pinned_def npinned_def length_remdups_card_conv)

lemma quiet_upd [simp]:
  "quiet (s\<lparr>bheld := x1\<rparr>) = quiet s" "quiet (s\<lparr>bview := x2\<rparr>) = quiet s" "quiet (s\<lparr>logged := x3\<rparr>) = quiet s"
  "quiet (s\<lparr>outstanding := x4\<rparr>) = quiet s" "quiet (s\<lparr>durable := x5\<rparr>) = quiet s"
  by (simp_all add: quiet_def)

lemma quiet_upd_fs [simp]: "quiet (iupd ip f s) = quiet s" "quiet (s\<lparr>sb := x\<rparr>) = quiet s"
  by (simp_all add: quiet_def iupd_def)

lemma npinned_hold: "k \<notin> set (bheld s) \<Longrightarrow> npinned (s\<lparr>bheld := k # bheld s\<rparr>) \<le> Suc (npinned s)"
  by (simp add: npinned_def card_insert_le_m1 card_insert_if)

lemma fs_room_mono: "fs_room n s \<Longrightarrow> m \<le> n \<Longrightarrow> fs_room m s"
  by (auto simp: fs_room_def)

lemma blk_read_ok:
  assumes "k \<notin> set (bheld s)" and "npinned s < NBUF \<or> k \<in> Pair ROOTDEV ` set (logged s)" and "unat (snd k) < FSSIZE"
  shows "blk_read k s = Inr (s\<lparr>bheld := k # bheld s\<rparr>)"
  using assms by (auto simp: blk_read_def length_pinned) (auto simp: pinned_def)

lemma blk_release_ok:
  "quiet s \<Longrightarrow> k \<in> set (bheld s) \<Longrightarrow> blk_release k s = Inr (s\<lparr>bheld := remove1 k (bheld s)\<rparr>)"
  by (simp add: blk_release_def wakeup_quiet)

lemma blk_log_ok:
  assumes "outstanding s \<ge> 1" and "int (length (logged s)) < LOGSIZE" and "int (length (logged s)) < logsize s - 1"
  shows "blk_log (ROOTDEV, b) f s = Inr (touch b f s)"
  using assms by (auto simp: blk_log_def touch_def put_logged_def)

lemma touch_sel [simp]:
  "bheld (touch b f s) = bheld s" "outstanding (touch b f s) = outstanding s" "logsize (touch b f s) = logsize s"
  "durable (touch b f s) = durable s" "logged (touch b f s) = put_logged b (logged s)" "quiet (touch b f s) = quiet s"
  "procs (touch b f s) = procs s" "cur (touch b f s) = cur s" "links (touch b f s) = links s"
  by (simp_all add: touch_def quiet_def)

lemma touch_fs [simp]:
  "sb (touch b f s) = sb s" "icache (touch b f s) = icache s"
  "touch b f (iupd ip g s) = iupd ip g (touch b f s)"
  by (simp_all add: touch_def iupd_def)

lemma touch_view: "bview (touch b f s) = (bview s)((ROOTDEV, b) := f (bview s (ROOTDEV, b)))"
  by (simp add: touch_def)

lemma touch_at [simp]: "bview (touch b f s) (ROOTDEV, b) = f (bview s (ROOTDEV, b))"
  by (simp add: touch_def)

lemma touch_other: "k \<noteq> (ROOTDEV, b) \<Longrightarrow> bview (touch b f s) k = bview s k"
  by (simp add: touch_def)

lemma touch_hold [simp]: "touch b f (s\<lparr>bheld := h\<rparr>) = (touch b f s)\<lparr>bheld := h\<rparr>"
  by (simp add: touch_def)

lemma touch_held [simp]: "(touch b f s)\<lparr>bheld := bheld s\<rparr> = touch b f s"
  by (simp add: touch_def)

lemma length_put_logged: "length (put_logged b l) \<le> Suc (length l)"
  by (simp add: put_logged_def)

lemma set_put_logged [simp]: "set (put_logged b l) = insert b (set l)"
  by (auto simp: put_logged_def)

lemma npinned_touch: "npinned (touch b f s) \<le> Suc (npinned s)"
  by (simp add: npinned_def card_insert_le_m1 card_insert_if)

lemma fs_room_touch: "fs_room (Suc n) s \<Longrightarrow> fs_room n (touch b f s)"
  using npinned_touch [of b f s] length_put_logged [of b "logged s"] by (auto simp: fs_room_def)

lemma fs_room_relog: "fs_room n s \<Longrightarrow> b \<in> set (logged s) \<Longrightarrow> fs_room n (touch b f s)"
  by (simp add: fs_room_def npinned_def put_logged_def insert_absorb)

lemma fs_room_iupd [simp]: "fs_room n (iupd ip f s) = fs_room n s"
  by (simp add: fs_room_def npinned_def quiet_def iupd_def)

text \<open>Reading a block and releasing it changes nothing; read, change, log and release is \<open>touch\<close>.\<close>

lemma hold_ok:
  assumes "fs_room (Suc n) s" and "(ROOTDEV, b) \<notin> set (bheld s)" and "unat b < FSSIZE"
  shows "blk_read (ROOTDEV, b) s = Inr (s\<lparr>bheld := (ROOTDEV, b) # bheld s\<rparr>)"
  using assms by (auto simp: fs_room_def intro!: blk_read_ok)

lemma drop_ok:
  "quiet s \<Longrightarrow> blk_release k (s\<lparr>bheld := k # h\<rparr>) = Inr (s\<lparr>bheld := h\<rparr>)"
  by (simp add: blk_release_ok)

lemma peek:
  assumes "fs_room (Suc n) s" and "(ROOTDEV, b) \<notin> set (bheld s)" and "unat b < FSSIZE"
  shows "rbind (blk_read (ROOTDEV, b) s) (\<lambda>s'. g (bview s' (ROOTDEV, b)) (blk_release (ROOTDEV, b) s')) =
    g (bview s (ROOTDEV, b)) (Inr s)"
  using assms(1) by (simp add: hold_ok [OF assms] drop_ok fs_room_def)

lemma rmw:
  assumes "fs_room (Suc n) s" and "(ROOTDEV, b) \<notin> set (bheld s)" and "unat b < FSSIZE"
  shows "rbind (blk_read (ROOTDEV, b) s) (\<lambda>s. rbind (blk_log (ROOTDEV, b) f s) (blk_release (ROOTDEV, b))) =
    Inr (touch b f s)"
  using assms(1) by (simp add: hold_ok [OF assms] blk_log_ok drop_ok fs_room_def)

lemma bzero_ok:
  assumes "fs_room (Suc n) s" and "(ROOTDEV, b) \<notin> set (bheld s)" and "unat b < FSSIZE"
  shows "bzero ROOTDEV b s = Inr (touch b (\<lambda>_. replicate BSIZE 0) s)"
  using rmw [OF assms] by (simp add: bzero_def)


subsection \<open>The block allocator\<close>

text \<open>Block \<open>b\<close> is in use: its bit is set. \<open>bitmap_ok\<close> is what the allocator relies on.\<close>

definition used :: "'a fsys_scheme \<Rightarrow> nat \<Rightarrow> bool" where
  "used s b = bmap_bit (bview s (ROOTDEV, BBLOCK (of_nat b) (sb s))) (b mod BPB)"

definition bitmap_ok :: "'a fsys_scheme \<Rightarrow> bool" where
  "bitmap_ok s = (let n = unat (sbsize (sb s)); m = unat (bmapstart (sb s)) in
     n \<le> FSSIZE \<and> m + n div BPB < n \<and>
     (\<forall>k. length (bview s k) = BSIZE) \<and>
     (\<forall>i. m \<le> i \<and> i \<le> m + n div BPB \<longrightarrow> used s i) \<and>
     (\<forall>i. m \<le> i \<and> i \<le> m + n div BPB \<longrightarrow> (ROOTDEV, of_nat i) \<notin> set (bheld s)))"

lemma BBLOCK_unat:
  assumes "bitmap_ok s" and "b < unat (sbsize (sb s))"
  shows "unat (BBLOCK (of_nat b) (sb s)) = unat (bmapstart (sb s)) + b div BPB"
proof -
  have b: "b < FSSIZE" and m: "unat (bmapstart (sb s)) < FSSIZE" using assms by (auto simp: bitmap_ok_def Let_def)
  then have "b div BPB < FSSIZE" by (metis div_le_dividend le_less_trans)
  moreover have "unat (of_nat b div 4096 :: u32) = b div BPB" using b by (simp add: unat_div unat_of_nat32)
  ultimately show ?thesis using m unat_add_fits [of "of_nat b div 4096" "bmapstart (sb s)"]
    by (simp add: BBLOCK_def)
qed

lemma bmap_bit_bit: "bmap_bit d bi = bit (d ! (bi div 8)) (bi mod 8)"
proof -
  have "bi mod 8 < 8" by simp
  then show ?thesis unfolding bmap_bit_def by (simp add: bit_iff_and_push_bit_not_eq_0 push_bit_of_1)
qed


lemma div_mod_8: "i = j \<longleftrightarrow> i div 8 = j div (8::nat) \<and> i mod 8 = j mod 8"
  by (metis div_mult_mod_eq)

lemma bmap_bit_set:
  "bi div 8 < length d \<Longrightarrow> bmap_bit (bit_set bi d) bj = (bj = bi \<or> bmap_bit d bj)"
  by (auto simp: bit_set_def bit_clear_def bmap_bit_bit bit_simps div_mod_8 [of bj bi] nth_list_update)

lemma bmap_bit_clear:
  "bi div 8 < length d \<Longrightarrow> bmap_bit (bit_clear bi d) bj = (bj \<noteq> bi \<and> bmap_bit d bj)"
  by (auto simp: bit_set_def bit_clear_def bmap_bit_bit bit_simps div_mod_8 [of bj bi] nth_list_update)

lemma bit_clear_set:
  assumes "bi div 8 < length d" and "\<not> bmap_bit d bi"
  shows "bit_clear bi (bit_set bi d) = d"
proof -
  let ?x = "d ! (bi div 8)"
  have "\<not> bit ?x (bi mod 8)" using assms(2) by (simp add: bmap_bit_bit)
  then have "(?x OR push_bit (bi mod 8) 1) AND NOT (push_bit (bi mod 8) 1) = ?x"
    by (intro bit_word_eqI) (auto simp: bit_simps)
  with assms(1) show ?thesis by (simp add: bit_set_def bit_clear_def)
qed

lemma takeWhile_upt: "takeWhile (\<lambda>i. b + i < n) [0..<m] = [0..<min m (n - b)]"
proof (induction m)
  case (Suc m)
  show ?case
  proof (cases "b + m < n")
    case True
    then have "\<forall>i\<in>set [0..<m]. b + i < n" by auto
    then have "takeWhile (\<lambda>i. b + i < n) ([0..<m] @ [m]) = [0..<m] @ [m]"
      using True by (simp add: takeWhile_append2)
    with True show ?thesis by simp
  next
    case False
    then have "takeWhile (\<lambda>i. b + i < n) ([0..<m] @ [m]) = takeWhile (\<lambda>i. b + i < n) [0..<m]"
      by (induction "[0..<m]") (auto simp: takeWhile_tail)
    moreover have "min m (n - b) = n - b" "min (Suc m) (n - b) = n - b" using False by auto
    ultimately show ?thesis using Suc by simp
  qed
qed simp

lemma free_bit_Some:
  assumes "bi < BPB" and "b + bi < n" and "\<not> bmap_bit d bi" and "\<And>j. j < bi \<Longrightarrow> bmap_bit d j"
  shows "free_bit d b n = Some bi"
  using assms unfolding free_bit_def takeWhile_upt find_Some_iff
  by (intro exI [of _ bi]) auto

lemma free_bit_None:
  assumes "\<And>j. j < BPB \<Longrightarrow> b + j < n \<Longrightarrow> bmap_bit d j"
  shows "free_bit d b n = None"
  using assms unfolding free_bit_def takeWhile_upt find_None_iff by auto


lemma BBLOCK_same:
  assumes "bitmap_ok s" and "b < unat (sbsize (sb s))" and "c < unat (sbsize (sb s))" and "b div BPB = c div BPB"
  shows "BBLOCK (of_nat b) (sb s) = BBLOCK (of_nat c) (sb s)"
  using BBLOCK_unat [OF assms(1,2)] BBLOCK_unat [OF assms(1,3)] assms(4) by (simp add: word_unat_eq_iff)

lemma BBLOCK_free:
  assumes "bitmap_ok s" and "b < unat (sbsize (sb s))"
  shows "(ROOTDEV, BBLOCK (of_nat b) (sb s)) \<notin> set (bheld s)" and "unat (BBLOCK (of_nat b) (sb s)) < FSSIZE"
    and "used s (unat (BBLOCK (of_nat b) (sb s)))"
proof -
  let ?m = "unat (bmapstart (sb s))" let ?n = "unat (sbsize (sb s))"
  have u: "unat (BBLOCK (of_nat b) (sb s)) = ?m + b div BPB" by (rule BBLOCK_unat [OF assms])
  have le: "?m \<le> ?m + b div BPB" "?m + b div BPB \<le> ?m + ?n div BPB" using assms(2) by (auto intro: div_le_mono)
  have "of_nat (unat (BBLOCK (of_nat b) (sb s))) = BBLOCK (of_nat b) (sb s)" by simp
  then have "of_nat (?m + b div BPB) = BBLOCK (of_nat b) (sb s)" unfolding u .
  moreover have "(ROOTDEV, of_nat (?m + b div BPB)) \<notin> set (bheld s)"
    using assms(1) le unfolding bitmap_ok_def Let_def by blast
  ultimately show "(ROOTDEV, BBLOCK (of_nat b) (sb s)) \<notin> set (bheld s)" by simp
  show "unat (BBLOCK (of_nat b) (sb s)) < FSSIZE" "used s (unat (BBLOCK (of_nat b) (sb s)))"
    unfolding u using assms(1) le by (auto simp: bitmap_ok_def Let_def)
qed

lemma balloc_loop_ok:
  assumes ok: "bitmap_ok s" "fs_room 2 s" and b: "b < unat (sbsize (sb s))" "\<not> used s b"
    and first: "\<And>c. c < b \<Longrightarrow> used s c" and h: "(ROOTDEV, of_nat b) \<notin> set (bheld s)"
    and i: "i \<le> b div BPB" and k: "k = (unat (sbsize (sb s)) + BPB - 1) div BPB"
  shows "balloc_loop (map (\<lambda>i. i * BPB) [i..<k]) ROOTDEV s =
    Inr (of_nat b, touch (of_nat b) (\<lambda>_. replicate BSIZE 0) (touch (BBLOCK (of_nat b) (sb s)) (bit_set (b mod BPB)) s))"
  using i
proof (induction "b div BPB - i" arbitrary: i)
  case 0
  then have i: "i = b div BPB" by simp
  let ?B = "BBLOCK (of_nat b) (sb s)"
  have l: "i < k" using b(1) i k by (simp add: div_less_iff_less_mult less_mult_imp_div_less)
  have bb: "BBLOCK (of_nat (i * BPB)) (sb s) = ?B"
    using b(1) i by (intro BBLOCK_same [OF ok(1)]) (auto simp: le_less_trans [OF div_times_less_eq_dividend])
  have f: "free_bit (bview s (ROOTDEV, ?B)) (i * BPB) (unat (sbsize (sb s))) = Some (b mod BPB)"
  proof (rule free_bit_Some)
    show "\<not> bmap_bit (bview s (ROOTDEV, ?B)) (b mod BPB)" using b(2) by (simp add: used_def)
    show "i * BPB + b mod BPB < unat (sbsize (sb s))" using b(1) i by simp
    fix j assume j: "j < b mod BPB"
    then have "used s (i * BPB + j)" using first [of "i * BPB + j"] i by (metis add_strict_left_mono div_mult_mod_eq)
    moreover have "BBLOCK (of_nat (i * BPB + j)) (sb s) = ?B"
    proof (rule BBLOCK_same [OF ok(1) _ b(1)])
      have "i * BPB + j < b" using j i by (metis add_strict_left_mono div_mult_mod_eq)
      with b(1) show "i * BPB + j < unat (sbsize (sb s))" by simp
      show "(i * BPB + j) div BPB = b div BPB" using j i by simp
    qed
    ultimately show "bmap_bit (bview s (ROOTDEV, ?B)) j" using j by (simp add: used_def)
  qed simp
  have r: "fs_room (Suc 1) s" "fs_room (Suc 0) (touch ?B (bit_set (b mod BPB)) s)"
    using ok(2) fs_room_touch [of 1 s] by (simp_all add: numeral_2_eq_2)
  note B = BBLOCK_free [OF ok(1) b(1)]
  have "unat (of_nat b :: u32) < FSSIZE" using ok(1) b(1) by (simp add: bitmap_ok_def Let_def unat_of_nat32)
  with h have z: "bzero ROOTDEV (of_nat b) (touch ?B (bit_set (b mod BPB)) s) =
      Inr (touch (of_nat b) (\<lambda>_. replicate BSIZE 0) (touch ?B (bit_set (b mod BPB)) s))"
    by (intro bzero_ok [OF r(2)]) simp_all
  have "i * BPB + b mod BPB = b" using i by simp
  then show ?case using l f z r(1) hold_ok [OF r(1) B(1,2)]
    by (simp add: upt_conv_Cons bb blk_log_ok drop_ok fs_room_def Let_def del: of_nat_mult of_nat_add)
next
  case (Suc n)
  then have i: "i < b div BPB" by simp
  let ?B = "BBLOCK (of_nat (i * BPB)) (sb s)"
  have l: "i < k" using b(1) i k by (simp add: div_less_iff_less_mult less_mult_imp_div_less)
  have ib: "i * BPB < unat (sbsize (sb s))" using i b(1) by (simp add: less_mult_imp_div_less)
  have f: "free_bit (bview s (ROOTDEV, ?B)) (i * BPB) (unat (sbsize (sb s))) = None"
  proof (rule free_bit_None)
    fix j assume j: "j < BPB" "i * BPB + j < unat (sbsize (sb s))"
    have "i * BPB + j < b" using i j(1) by (simp add: less_mult_imp_div_less)
    from first [OF this] BBLOCK_same [OF ok(1) j(2) ib] show "bmap_bit (bview s (ROOTDEV, ?B)) j"
      using j(1) by (simp add: used_def)
  qed
  have r: "fs_room (Suc 1) s" using ok(2) by (simp add: numeral_2_eq_2)
  note B = BBLOCK_free [OF ok(1) ib]
  have "Suc i \<le> b div BPB" and "n = b div BPB - Suc i" using Suc i by simp_all
  from Suc.hyps(1) [OF this(2,1)] show ?case using l f r hold_ok [OF r B(1,2)]
    by (simp add: upt_conv_Cons drop_ok fs_room_def Let_def del: of_nat_mult of_nat_add)
qed


lemma balloc_ok:
  assumes "bitmap_ok s" and "fs_room 2 s" and "b < unat (sbsize (sb s))" and "\<not> used s b"
    and "\<And>c. c < b \<Longrightarrow> used s c" and "(ROOTDEV, of_nat b) \<notin> set (bheld s)"
  shows "balloc ROOTDEV s =
    Inr (of_nat b, touch (of_nat b) (\<lambda>_. replicate BSIZE 0) (touch (BBLOCK (of_nat b) (sb s)) (bit_set (b mod BPB)) s))"
  unfolding balloc_def by (rule balloc_loop_ok [OF assms]) simp_all

lemma bfree_ok:
  assumes "bitmap_ok s" and "fs_room 1 s" and "b < unat (sbsize (sb s))" and "used s b"
  shows "bfree ROOTDEV (of_nat b) s = Inr (touch (BBLOCK (of_nat b) (sb s)) (bit_clear (b mod BPB)) s)"
proof -
  have r: "fs_room (Suc 0) s" using assms(2) by simp
  have "b < FSSIZE" using assms(1,3) by (auto simp: bitmap_ok_def Let_def)
  then show ?thesis
    using assms(2,4) hold_ok [OF r BBLOCK_free(1,2) [OF assms(1,3)]]
    by (simp add: bfree_def used_def unat_of_nat32 blk_log_ok drop_ok fs_room_def Let_def)
qed

lemma used_touch_bit:
  assumes "bitmap_ok s" and "b < unat (sbsize (sb s))" and "c < unat (sbsize (sb s))"
  shows "used (touch (BBLOCK (of_nat b) (sb s)) (bit_set (b mod BPB)) s) c = (c = b \<or> used s c)"
    and "used (touch (BBLOCK (of_nat b) (sb s)) (bit_clear (b mod BPB)) s) c = (c \<noteq> b \<and> used s c)"
proof -
  have d: "b mod BPB div 8 < length (bview s k)" for k
    using assms(1) by (cases k) (simp add: bitmap_ok_def Let_def less_mult_imp_div_less)
  have e: "BBLOCK (of_nat c) (sb s) = BBLOCK (of_nat b) (sb s) \<longleftrightarrow> c div BPB = b div BPB"
    using BBLOCK_unat [OF assms(1,2)] BBLOCK_unat [OF assms(1,3)] by (simp add: word_unat_eq_iff)
  then have e': "c div BPB = b div BPB \<Longrightarrow> BBLOCK (of_nat c) (sb s) = BBLOCK (of_nat b) (sb s)" by blast
  have cb: "c = b \<longleftrightarrow> c div BPB = b div BPB \<and> c mod BPB = b mod BPB" by (metis div_mult_mod_eq)
  show "used (touch (BBLOCK (of_nat b) (sb s)) (bit_set (b mod BPB)) s) c = (c = b \<or> used s c)"
    by (cases "c div BPB = b div BPB") (auto simp: used_def touch_view e e' cb bmap_bit_set [OF d])
  show "used (touch (BBLOCK (of_nat b) (sb s)) (bit_clear (b mod BPB)) s) c = (c \<noteq> b \<and> used s c)"
    by (cases "c div BPB = b div BPB") (auto simp: used_def touch_view e e' cb bmap_bit_clear [OF d])
qed


lemma length_bits [simp]: "length (bit_set bi d) = length d" "length (bit_clear bi d) = length d"
  by (simp_all add: bit_set_def bit_clear_def)

lemma bitmap_ok_touch:
  assumes "bitmap_ok s" and "\<And>d. length d = BSIZE \<Longrightarrow> length (f d) = BSIZE"
    and "\<And>c. c < unat (sbsize (sb s)) \<Longrightarrow> used s c \<Longrightarrow> used (touch x f s) c"
  shows "bitmap_ok (touch x f s)"
  using assms unfolding bitmap_ok_def Let_def by (auto simp: touch_view)

lemma used_touch_data:
  assumes "bitmap_ok s" and "b < unat (sbsize (sb s))" and "\<not> used s b" and "c < unat (sbsize (sb s))"
  shows "used (touch (of_nat b) f s) c = used s c"
proof -
  have "b < 2 ^ 32" using assms(2) unat32_less [of "sbsize (sb s)"] by simp
  then have "BBLOCK (of_nat c) (sb s) \<noteq> of_nat b"
    using BBLOCK_free(3) [OF assms(1,4)] assms(3) by (auto simp: unat_of_nat32)
  then show ?thesis by (simp add: used_def touch_view)
qed

lemma balloc_state:
  assumes ok: "bitmap_ok s" and b: "b < unat (sbsize (sb s))" "\<not> used s b"
  defines "s' \<equiv> touch (of_nat b) (\<lambda>_. replicate BSIZE 0) (touch (BBLOCK (of_nat b) (sb s)) (bit_set (b mod BPB)) s)"
  shows "bview s' = (bview s)((ROOTDEV, BBLOCK (of_nat b) (sb s)) := bit_set (b mod BPB) (bview s (ROOTDEV, BBLOCK (of_nat b) (sb s))),
      (ROOTDEV, of_nat b) := replicate BSIZE 0)"
    and "\<And>c. c < unat (sbsize (sb s)) \<Longrightarrow> used s' c = (c = b \<or> used s c)"
    and "bitmap_ok s'"
proof -
  let ?B = "BBLOCK (of_nat b) (sb s)"
  show "bview s' = (bview s)((ROOTDEV, ?B) := bit_set (b mod BPB) (bview s (ROOTDEV, ?B)),
      (ROOTDEV, of_nat b) := replicate BSIZE 0)" by (simp add: s'_def touch_view)
  have "b < 2 ^ 32" using b(1) unat32_less [of "sbsize (sb s)"] by simp
  then have ne: "?B \<noteq> of_nat b" using BBLOCK_free(3) [OF ok b(1)] b(2) by (auto simp: unat_of_nat32)
  have sw: "s' = touch ?B (bit_set (b mod BPB)) (touch (of_nat b) (\<lambda>_. replicate BSIZE 0) s)
      \<lparr>logged := put_logged (of_nat b) (put_logged ?B (logged s))\<rparr>"
    using ne by (simp add: s'_def touch_def fun_upd_twist)
  let ?t = "touch (of_nat b) (\<lambda>_. replicate BSIZE 0) s"
  have okt: "bitmap_ok ?t" using ok by (rule bitmap_ok_touch) (use used_touch_data [OF ok b] in auto)
  have l: "used (u\<lparr>logged := x\<rparr>) c = used u c" for u :: "'a fsys_scheme" and x c by (simp add: used_def)
  show u: "used s' c = (c = b \<or> used s c)" if "c < unat (sbsize (sb s))" for c
    using used_touch_bit(1) [OF okt, of b c] b(1) that used_touch_data [OF ok b that, of "\<lambda>_. replicate BSIZE 0"]
    by (simp add: sw l)
  have "bitmap_ok (touch ?B (bit_set (b mod BPB)) ?t)"
    using okt by (rule bitmap_ok_touch) (use used_touch_bit(1) [OF okt, of b] b(1) in auto)
  then show "bitmap_ok s'" by (simp add: sw bitmap_ok_def l)
qed

text \<open>
  C14. \<open>balloc\<close> returns the first free block: the block is zeroed, its bit becomes the only new bit of
  the bitmap, every other block keeps its contents, and no buffer stays locked.
\<close>

theorem balloc_allocates:
  assumes "bitmap_ok s" and "fs_room 2 s" and "b < unat (sbsize (sb s))" and "\<not> used s b"
    and "\<And>c. c < b \<Longrightarrow> used s c" and "(ROOTDEV, of_nat b) \<notin> set (bheld s)"
  shows "\<exists>s'. balloc ROOTDEV s = Inr (of_nat b, s') \<and> bview s' (ROOTDEV, of_nat b) = replicate BSIZE 0 \<and>
    (\<forall>c. c < unat (sbsize (sb s)) \<longrightarrow> used s' c = (c = b \<or> used s c)) \<and>
    (\<forall>k. k \<noteq> (ROOTDEV, of_nat b) \<and> k \<noteq> (ROOTDEV, BBLOCK (of_nat b) (sb s)) \<longrightarrow> bview s' k = bview s k) \<and>
    bheld s' = bheld s \<and> bitmap_ok s' \<and> fs_room 0 s'"
proof -
  note st = balloc_state [OF assms(1,3,4)]
  have "fs_room (Suc 1) s" using assms(2) by (simp add: numeral_2_eq_2)
  then have "fs_room 0 (touch (of_nat b) (\<lambda>_. replicate BSIZE 0) (touch (BBLOCK (of_nat b) (sb s)) (bit_set (b mod BPB)) s))"
    by (intro fs_room_touch) (simp add: fs_room_touch)
  then show ?thesis using balloc_ok [OF assms] st by (intro exI conjI) (assumption | simp)+
qed

text \<open>
  C15. Freeing a block right after allocating it restores the free bitmap to the bit.
\<close>

theorem balloc_bfree:
  assumes "bitmap_ok s" and "fs_room 3 s" and "b < unat (sbsize (sb s))" and "\<not> used s b"
    and "\<And>c. c < b \<Longrightarrow> used s c" and "(ROOTDEV, of_nat b) \<notin> set (bheld s)"
  shows "\<exists>s1 s2. balloc ROOTDEV s = Inr (of_nat b, s1) \<and> bfree ROOTDEV (of_nat b) s1 = Inr s2 \<and>
    (\<forall>k. k \<noteq> (ROOTDEV, of_nat b) \<longrightarrow> bview s2 k = bview s k)"
proof -
  let ?B = "BBLOCK (of_nat b) (sb s)"
  let ?s1 = "touch (of_nat b) (\<lambda>_. replicate BSIZE 0) (touch ?B (bit_set (b mod BPB)) s)"
  note st = balloc_state [OF assms(1,3,4)]
  have r: "fs_room 2 s" "fs_room 1 ?s1"
    using assms(2) fs_room_mono [of 3 s 2] fs_room_touch [of 2 s] fs_room_touch [of 1 "touch ?B (bit_set (b mod BPB)) s"]
    by (simp_all add: numeral_3_eq_3 numeral_2_eq_2)
  have u: "used ?s1 b" using st(2) assms(3) by simp
  have "b mod BPB div 8 < length (bview s (ROOTDEV, ?B))" and "\<not> bmap_bit (bview s (ROOTDEV, ?B)) (b mod BPB)"
    using assms(1,4) by (simp_all add: bitmap_ok_def Let_def less_mult_imp_div_less used_def)
  then have "bit_clear (b mod BPB) (bit_set (b mod BPB) (bview s (ROOTDEV, ?B))) = bview s (ROOTDEV, ?B)"
    by (rule bit_clear_set)
  moreover have "bfree ROOTDEV (of_nat b) ?s1 = Inr (touch ?B (bit_clear (b mod BPB)) ?s1)"
    using bfree_ok [OF st(3) r(2) _ u] assms(3) by simp
  ultimately show ?thesis using balloc_ok [OF assms(1) r(1) assms(3-6)] st(1)
    by (intro exI conjI) (assumption | auto simp: touch_view)+
qed


text \<open>A disk of eight blocks with its bitmap in block 3 and the first free block 4.\<close>

definition small_disk :: "bkey \<Rightarrow> u8 list" where
  "small_disk = (\<lambda>_. replicate BSIZE 0)((ROOTDEV, 3) := 15 # replicate 511 0)"

definition small_fs :: fsys where
  "small_fs = zero_fsys\<lparr>outstanding := 1, bview := small_disk,
     sb := \<lparr>sbsize = 8, nblocks = 4, ninodes = 8, nlog = 0, logstart = 2, inodestart = 2, bmapstart = 3\<rparr>\<rparr>"

lemmas small_state = small_fs_def small_disk_def zero_fsys_def zero_blocks_def zero_ptable_def ptable.defs blocks.defs fsys.defs

lemma small_used: "used small_fs b \<longleftrightarrow> b mod BPB < 4" if "b < 8"
proof -
  have "b \<in> {0, 1, 2, 3, 4, 5, 6, 7}" using that by auto
  then show ?thesis by (auto simp: used_def BBLOCK_def small_state bmap_bit_bit bit_simps)
qed

lemma small_ok: "bitmap_ok small_fs" "fs_room 3 small_fs" "fs_room 2 small_fs"
  using small_used [of 3]
  by (auto simp: bitmap_ok_def small_state fs_room_def npinned_def quiet_def still_links_def dlist_def list_head_init_def)

theorem balloc_allocates_witness:
  "\<exists>s'. balloc ROOTDEV small_fs = Inr (4, s') \<and> bview s' (ROOTDEV, 4) = replicate BSIZE 0 \<and> used s' 4 \<and> \<not> used s' 5"
  using balloc_allocates [OF small_ok(1,3), of 4] small_used by (auto simp: small_state)

theorem balloc_bfree_witness:
  "\<exists>s1 s2. balloc ROOTDEV small_fs = Inr (4, s1) \<and> bfree ROOTDEV 4 s1 = Inr s2 \<and>
     bview s2 (ROOTDEV, 3) = 15 # replicate 511 0"
  using balloc_bfree [OF small_ok(1,2), of 4] small_used by (auto simp: small_state)

end
