(* ===== verification/Fs_Inode.thy ===== *)
theory Fs_Inode
  imports Fs_Alloc
begin

section \<open>Inodes\<close>

text \<open>
  The on-disk format of inodes, the write-through inode cache and its reference counts. \<open>get_put_dinode\<close> is the round trip of
  the encoding; the properties are that an inode written by \<open>iupdate\<close> is what \<open>ilock\<close> loads, that the cache never holds an
  inode twice, what \<open>iput\<close> does to an entry and to the disk, and two calls that cannot succeed: \<open>iput\<close> with the process table locked, and a
  relative path in a thread without a working directory.
\<close>

subsection \<open>On-disk inodes\<close>

lemma get_bytes_append: "n \<le> length xs \<Longrightarrow> get_bytes 0 n (xs @ ys) = take n xs"
  by (simp add: get_bytes_def)

lemma get_bytes_skip: "length xs \<le> off \<Longrightarrow> get_bytes off n (xs @ ys) = get_bytes (off - length xs) n ys"
  by (simp add: get_bytes_def)

lemma length_concat_words [simp]: "length (concat (map bytes32 ws)) = 4 * length ws"
  by (induction ws) simp_all

lemma get32_concat: "i < length ws \<Longrightarrow> get32 i (concat (map bytes32 ws) @ r) = ws ! i"
proof (induction ws arbitrary: i)
  case (Cons w ws)
  show ?case
  proof (cases i)
    case 0
    then show ?thesis by (simp add: get32_def get_bytes_def)
  next
    case (Suc j)
    then have "get32 i (concat (map bytes32 (w # ws)) @ r) = get32 j (concat (map bytes32 ws) @ r)"
      by (simp add: get32_def get_bytes_def)
    with Suc Cons show ?thesis by simp
  qed
qed simp

lemma length_dinode_bytes [simp]: "length (daddrs d) = 13 \<Longrightarrow> length (dinode_bytes d) = DINODE"
  by (simp add: dinode_bytes_def)

lemma get32_shift: "length xs = 4 * k \<Longrightarrow> get32 (k + i) (xs @ ys) = get32 i ys"
  by (simp add: get32_def get_bytes_def)

lemma dinode_of_bytes: "length (daddrs d) = 13 \<Longrightarrow> dinode_of (dinode_bytes d) = d"
proof -
  assume l: "length (daddrs d) = 13"
  let ?h = "bytes16 (dtype d) @ bytes16 (dmajor d) @ bytes16 (dminor d) @ bytes16 (dnlink d)"
  have s: "get32 2 (dinode_bytes d) = dsize d"
    using get32_shift [of ?h 2 0 "bytes32 (dsize d) @ concat (map bytes32 (daddrs d))"]
    by (simp add: dinode_bytes_def) (simp add: get32_def get_bytes_def)
  have a: "get32 (3 + i) (dinode_bytes d) = daddrs d ! i" if "i < 13" for i
    using get32_shift [of "?h @ bytes32 (dsize d)" 3 i "concat (map bytes32 (daddrs d))"]
      get32_concat [of i "daddrs d" "[]"] l that by (simp add: dinode_bytes_def)
  have "map (\<lambda>i. get32 (3 + i) (dinode_bytes d)) [0..<13] = daddrs d"
    using l a by (intro nth_equalityI) auto
  moreover have "le16 (get_bytes 0 2 (dinode_bytes d)) = dtype d" "le16 (get_bytes 2 2 (dinode_bytes d)) = dmajor d"
    "le16 (get_bytes 4 2 (dinode_bytes d)) = dminor d" "le16 (get_bytes 6 2 (dinode_bytes d)) = dnlink d"
    by (simp_all add: dinode_bytes_def get_bytes_def)
  ultimately show ?thesis using s by (simp add: dinode_of_def)
qed

lemma dinode_off_less: "dinode_off i + DINODE \<le> BSIZE"
proof -
  have "unat i mod 8 \<le> 7" using less_Suc_eq_le by fastforce
  then show ?thesis by (simp add: dinode_off_def)
qed

lemma get_put_dinode:
  assumes "length d = BSIZE" and "length (daddrs di) = 13"
  shows "get_dinode i (put_dinode i di d) = di" and "length (put_dinode i di d) = BSIZE"
proof -
  have o: "dinode_off i + DINODE \<le> length d" using dinode_off_less [of i] assms(1) by simp
  then show "get_dinode i (put_dinode i di d) = di" using get_put_same [of "dinode_off i" d "dinode_bytes di"] assms(2)
    by (simp add: get_dinode_def put_dinode_def dinode_of_bytes)
  show "length (put_dinode i di d) = BSIZE" using o assms by (simp add: put_dinode_def length_put_bytes)
qed

lemma get_put_dinode_other:
  assumes "length d = BSIZE" and "length (daddrs di) = 13" and "unat i mod IPB \<noteq> unat j mod IPB"
  shows "get_dinode j (put_dinode i di d) = get_dinode j d"
proof -
  have o: "dinode_off i + length (dinode_bytes di) \<le> length d" using dinode_off_less [of i] assms(1,2) by simp
  consider "dinode_off j + DINODE \<le> dinode_off i" | "dinode_off i + DINODE \<le> dinode_off j"
    using assms(3) by (fastforce simp: dinode_off_def)
  then show ?thesis
    using get_put_before [OF o, of "dinode_off j" DINODE] get_put_after [OF o, of "dinode_off j" DINODE] assms(2)
    by cases (simp_all add: get_dinode_def put_dinode_def)
qed


subsection \<open>Writing an inode through and reading it back\<close>

lemma iupd_at [simp]: "icache (iupd ip f s) ip = f (icache s ip)"
  by (simp add: iupd_def)

lemma iupd_other [simp]: "jp \<noteq> ip \<Longrightarrow> icache (iupd ip f s) jp = icache s jp"
  by (simp add: iupd_def)

lemma iupd_sel [simp]:
  "bview (iupd ip f s) = bview s" "bheld (iupd ip f s) = bheld s" "logged (iupd ip f s) = logged s" "sb (iupd ip f s) = sb s"
  "cur (iupd ip f s) = cur s" "procs (iupd ip f s) = procs s" "plock (iupd ip f s) = plock s" "outstanding (iupd ip f s) = outstanding s"
  by (simp_all add: iupd_def)

lemma iupd_hold [simp]: "iupd ip f (s\<lparr>bheld := h\<rparr>) = (iupd ip f s)\<lparr>bheld := h\<rparr>"
  by (simp add: iupd_def)

lemma iupd_iupd [simp]: "iupd ip f (iupd ip g s) = iupd ip (\<lambda>e. f (g e)) s"
  by (simp add: iupd_def)

lemma whoami_upd [simp]: "whoami (iupd ip f s) = whoami s" "whoami (s\<lparr>bheld := h\<rparr>) = whoami s" "whoami (touch b g s) = whoami s"
  by (simp_all add: whoami_def myproc_def)

text \<open>The inode of an entry lives in a block that can be read.\<close>

definition iblock_ok :: "nat \<Rightarrow> 'a fsys_scheme \<Rightarrow> bool" where
  "iblock_ok ip s = (let e = icache s ip; b = IBLOCK (inum e) (sb s) in idev e = ROOTDEV \<and> unat b < FSSIZE \<and>
     (ROOTDEV, b) \<notin> set (bheld s) \<and> length (bview s (ROOTDEV, b)) = BSIZE \<and> length (iaddrs e) = 13)"

lemma iupdate_ok:
  assumes "iblock_ok ip s" and "fs_room (Suc n) s"
  shows "iupdate ip s = Inr (touch (IBLOCK (inum (icache s ip)) (sb s)) (put_dinode (inum (icache s ip)) (idinode (icache s ip))) s)"
  using assms rmw [OF assms(2)] by (simp add: iupdate_def iblock_ok_def Let_def)

lemma acquire_inode_ok:
  "whoami s = Inr me \<Longrightarrow> \<not> locked (ilk (icache s ip)) \<Longrightarrow>
   acquire_inode ip s = Inr (iupd ip (\<lambda>e. e\<lparr>ilk := \<lparr>locked = True, lpid = fst me, ltid = snd me\<rparr>\<rparr>) s)"
  by (simp add: acquire_inode_def take_sleeplock_def)

lemma release_inode_ok:
  "quiet s \<Longrightarrow> release_inode ip s = Inr (iupd ip (\<lambda>e. e\<lparr>ilk := drop_sleeplock (ilk e)\<rparr>) s)"
proof -
  assume "quiet s"
  then have "quiet (spin_enter s)" by (simp add: quiet_def spin_enter_def)
  then show ?thesis
    by (simp add: release_inode_def releasesleep_def wakeup_quiet drop_sleeplock_def Let_def iupd_def)
qed

text \<open>
  C21. The inode cache is write-through: after \<open>iupdate\<close> of one cache entry, \<open>ilock\<close> of an entry of the same
  inode that has not been read yet loads exactly the fields that were written, and marks the entry valid.
\<close>

theorem iupdate_ilock:
  assumes "iblock_ok ip s" and "fs_room 2 s" and "whoami s = Inr me" and "itype (icache s ip) \<noteq> 0"
    and "idev (icache s jp) = ROOTDEV" and "inum (icache s jp) = inum (icache s ip)" and "\<not> ivalid (icache s jp)"
    and "iref (icache s jp) \<ge> 1" and "\<not> locked (ilk (icache s jp))"
  shows "\<exists>s1 s2. iupdate ip s = Inr s1 \<and> ilock jp s1 = Inr s2 \<and> idinode (icache s2 jp) = idinode (icache s ip) \<and>
    ivalid (icache s2 jp) \<and> held_by_me me (ilk (icache s2 jp)) \<and> bheld s2 = bheld s"
proof -
  let ?i = "inum (icache s ip)"
  let ?b = "IBLOCK ?i (sb s)"
  let ?s1 = "touch ?b (put_dinode ?i (idinode (icache s ip))) s"
  have r: "fs_room (Suc 1) s" using assms(2) by (simp add: numeral_2_eq_2)
  have u: "iupdate ip s = Inr ?s1" by (rule iupdate_ok [OF assms(1) r])
  have b: "(ROOTDEV, ?b) \<notin> set (bheld s)" "unat ?b < FSSIZE" "length (bview s (ROOTDEV, ?b)) = BSIZE"
    "length (iaddrs (icache s ip)) = 13"
    using assms(1) by (simp_all add: iblock_ok_def Let_def)
  let ?lk = "\<lparr>locked = True, lpid = fst me, ltid = snd me\<rparr>"
  let ?s2 = "iupd jp (\<lambda>e. e\<lparr>ilk := ?lk\<rparr>) ?s1"
  have r2: "fs_room (Suc 0) ?s2" using fs_room_touch [OF r] by simp
  have q: "quiet s" using assms(2) by (simp add: fs_room_def)
  have g: "get_dinode ?i (bview ?s1 (ROOTDEV, ?b)) = idinode (icache s ip)"
    using get_put_dinode(1) b by (simp add: idinode_def)
  have rd: "blk_read (ROOTDEV, ?b) ?s2 = Inr (?s2\<lparr>bheld := (ROOTDEV, ?b) # bheld s\<rparr>)"
    using hold_ok [OF r2, of ?b] b by simp
  have "acquire_inode jp ?s1 = Inr ?s2" using assms(3,9) by (intro acquire_inode_ok) simp_all
  then have "ilock jp ?s1 = Inr (iupd jp (\<lambda>e. e\<lparr>itype := itype (icache s ip), imajor := imajor (icache s ip),
      iminor := iminor (icache s ip), inlink := inlink (icache s ip), isize := isize (icache s ip),
      iaddrs := iaddrs (icache s ip), ivalid := True\<rparr>) ?s2)"
    using assms(4-8) rd g q by (simp add: ilock_def Let_def drop_ok idinode_def)
  then show ?thesis using u by (intro exI conjI) (assumption | simp add: idinode_def held_by_me_def)+
qed


subsection \<open>References to cached inodes\<close>

text \<open>
  Two entries in use never hold the same inode, and reference counts are not negative. \<open>irefs\<close> is the number of
  references the kernel holds.
\<close>

definition same_inode :: "inode \<Rightarrow> inode \<Rightarrow> bool" where
  "same_inode e e' = (iref e > 0 \<and> iref e' > 0 \<and> idev e = idev e' \<and> inum e = inum e')"

definition icache_ok :: "'a fsys_scheme \<Rightarrow> bool" where
  "icache_ok s = ((\<forall>i<NINODE. iref (icache s i) \<ge> 0) \<and>
     (\<forall>i<NINODE. \<forall>j<NINODE. same_inode (icache s i) (icache s j) \<longrightarrow> i = j))"

lemma unique_upd:
  assumes "\<forall>i<n. \<forall>j<n. P (f i) (f j) \<longrightarrow> i = j" and "\<And>j. j < n \<Longrightarrow> j \<noteq> k \<Longrightarrow> \<not> P x (f j) \<and> \<not> P (f j) x"
  shows "\<forall>i<n. \<forall>j<n. P ((f(k := x)) i) ((f(k := x)) j) \<longrightarrow> i = j"
  using assms by auto

lemma icache_ok_upd:
  assumes "icache_ok s" and "iref (f (icache s ip)) \<ge> 0"
    and "\<And>j. j < NINODE \<Longrightarrow> j \<noteq> ip \<Longrightarrow> \<not> same_inode (f (icache s ip)) (icache s j)"
  shows "icache_ok (iupd ip f s)"
proof -
  have "\<not> same_inode (icache s j) (f (icache s ip))" if "j < NINODE" "j \<noteq> ip" for j
    using assms(3) [OF that] by (auto simp: same_inode_def)
  moreover have "icache (iupd ip f s) = (icache s)(ip := f (icache s ip))" by (simp add: iupd_def)
  ultimately have "\<forall>i<NINODE. \<forall>j<NINODE. same_inode (icache (iupd ip f s) i) (icache (iupd ip f s) j) \<longrightarrow> i = j"
    using assms(1,3) unique_upd [of NINODE same_inode "icache s" ip "f (icache s ip)"] unfolding icache_ok_def by metis
  moreover have "\<forall>i<NINODE. iref (icache (iupd ip f s) i) \<ge> 0"
    using assms(1,2) unfolding icache_ok_def iupd_def by simp
  ultimately show ?thesis unfolding icache_ok_def by blast
qed

definition irefs :: "'a fsys_scheme \<Rightarrow> int" where
  "irefs s = (\<Sum>i<NINODE. iref (icache s i))"

lemma irefs_upd: "ip < NINODE \<Longrightarrow> irefs (iupd ip f s) = irefs s - iref (icache s ip) + iref (f (icache s ip))"
proof -
  assume ip: "ip < NINODE"
  have "(\<Sum>i<NINODE. iref (icache (iupd ip f s) i)) = iref (f (icache s ip)) + (\<Sum>i\<in>{..<NINODE} - {ip}. iref (icache s i))"
    using ip by (subst sum.remove [of _ ip]) (auto simp: iupd_def intro!: sum.cong)
  also have "(\<Sum>i\<in>{..<NINODE} - {ip}. iref (icache s i)) = irefs s - iref (icache s ip)"
    using ip unfolding irefs_def by (subst sum.remove [of "{..<NINODE}" ip]) auto
  finally show ?thesis by (simp add: irefs_def)
qed

lemma find_upt_Some: "find P [0..<n] = Some i \<Longrightarrow> i < n \<and> P i"
  by (auto simp: find_Some_iff)

lemma find_upt_None: "find P [0..<n] = None \<longleftrightarrow> (\<forall>i<n. \<not> P i)"
  by (auto simp: find_None_iff)

text \<open>
  C22. \<open>iget\<close> keeps the cache free of duplicates: it returns an entry of the inode asked for, with one more
  reference in total, so that an inode has one entry however often it is looked up. It panics exactly when the inode is
  not cached and every entry is in use.
\<close>

theorem iget_unique:
  assumes "icache_ok s"
  shows "case iget dev i s of
      Inr (ip, s') \<Rightarrow> ip < NINODE \<and> idev (icache s' ip) = dev \<and> inum (icache s' ip) = i \<and> iref (icache s' ip) > 0 \<and>
        irefs s' = irefs s + 1 \<and> icache_ok s' \<and> bview s' = bview s
    | Inl e \<Rightarrow> e = Panic ''iget: no inodes'' \<and> (\<forall>ip<NINODE. iref (icache s ip) > 0 \<and>
        \<not> (idev (icache s ip) = dev \<and> inum (icache s ip) = i))"
proof (cases "iget_hit dev i s")
  case (Some ip)
  then have h: "ip < NINODE" "iref (icache s ip) > 0" "idev (icache s ip) = dev" "inum (icache s ip) = i"
    using find_upt_Some [OF Some [unfolded iget_hit_def]] by simp_all
  have "icache_ok (iupd ip (\<lambda>e. e\<lparr>iref := iref e + 1\<rparr>) s)"
  proof (rule icache_ok_upd [OF assms])
    fix j assume "j < NINODE" "j \<noteq> ip"
    then have "\<not> same_inode (icache s ip) (icache s j)" using assms h(1) unfolding icache_ok_def by blast
    then show "\<not> same_inode (icache s ip\<lparr>iref := iref (icache s ip) + 1\<rparr>) (icache s j)"
      using h(2) by (simp add: same_inode_def)
  qed (use h(2) in simp)
  then show ?thesis using Some h by (simp add: iget_def irefs_upd)
next
  case None
  then have no: "\<forall>ip<NINODE. \<not> (iref (icache s ip) > 0 \<and> idev (icache s ip) = dev \<and> inum (icache s ip) = i)"
    unfolding iget_hit_def find_upt_None .
  show ?thesis
  proof (cases "find (\<lambda>ip. iref (icache s ip) = 0) [0..<NINODE]")
    case None
    then have "\<forall>ip<NINODE. iref (icache s ip) \<noteq> 0" unfolding find_upt_None .
    then have "\<forall>ip<NINODE. iref (icache s ip) > 0" 
      using assms unfolding icache_ok_def by (metis order_le_imp_less_or_eq)
    then show ?thesis using \<open>iget_hit dev i s = None\<close> None no by (auto simp: iget_def simp del: upt_rec_numeral)
  next
    case (Some ip)
    then have h: "ip < NINODE" "iref (icache s ip) = 0" using find_upt_Some [OF Some] by simp_all
    let ?s = "iupd ip (\<lambda>e. e\<lparr>idev := dev, inum := i, iref := 1, ivalid := False\<rparr>) s"
    have "icache_ok ?s" using no by (intro icache_ok_upd [OF assms]) (auto simp: same_inode_def)
    with Some \<open>iget_hit dev i s = None\<close> h show ?thesis by (simp add: iget_def irefs_upd del: upt_rec_numeral)
  qed
qed

text \<open>An inode that holds no blocks is truncated by writing it with size 0.\<close>

lemma itrunc_empty:
  assumes "\<And>i. i < 13 \<Longrightarrow> iaddrs (icache s ip) ! i = 0"
  shows "itrunc ip s = iupdate ip (iupd ip (\<lambda>e. e\<lparr>isize := 0\<rparr>) s)"
proof -
  have z: "itrunc_addr ip d i s = Inr s" if "i < 13" for d i using assms [OF that] by (simp add: itrunc_addr_def)
  have "rfold (itrunc_addr ip 0) xs s = Inr s" if "\<forall>i\<in>set xs. i < 13" for xs using that z by (induction xs) auto
  then show ?thesis using z by (simp add: itrunc_def)
qed

lemma iput_keep:
  assumes "quiet s" and "whoami s = Inr me" and "\<not> locked (ilk (icache s ip))"
    and "\<not> (ivalid (icache s ip) \<and> inlink (icache s ip) = 0 \<and> iref (icache s ip) = 1)"
  shows "iput ip s = Inr (iupd ip (\<lambda>e. e\<lparr>ilk := \<lparr>locked = False, lpid = 0, ltid = snd me\<rparr>, iref := iref e - 1\<rparr>) s)"
  using assms by (auto simp: iput_def acquire_inode_ok release_inode_ok drop_sleeplock_def)

lemma iupdate_iupd:
  assumes "iblock_ok ip s" and "fs_room (Suc n) s" and "\<And>e. inum (f e) = inum e \<and> idev (f e) = idev e \<and> length (iaddrs (f e)) = length (iaddrs e)"
  shows "iupdate ip (iupd ip f s) = Inr (iupd ip f (touch (IBLOCK (inum (icache s ip)) (sb s)) (put_dinode (inum (icache s ip)) (idinode (f (icache s ip)))) s))"
  using assms iupdate_ok [of ip "iupd ip f s" n] by (simp add: iblock_ok_def Let_def fs_room_def npinned_def quiet_def touch_def iupd_def)


lemma iput_free:
  assumes "quiet s" and "whoami s = Inr me" and "\<not> locked (ilk (icache s ip))"
    and "ivalid (icache s ip)" "inlink (icache s ip) = 0" "iref (icache s ip) = 1"
    and "iblock_ok ip s" and "fs_room 2 s" and "\<And>i. i < 13 \<Longrightarrow> iaddrs (icache s ip) ! i = 0"
  defines "i \<equiv> inum (icache s ip)" and "d \<equiv> idinode (icache s ip)"
  shows "iput ip s = Inr (iupd ip (\<lambda>e. e\<lparr>isize := 0, itype := 0, ivalid := False, ilk := \<lparr>locked = False, lpid = 0, ltid = snd me\<rparr>, iref := 0\<rparr>)
    (touch (IBLOCK i (sb s)) (put_dinode i (d\<lparr>dtype := 0, dsize := 0\<rparr>)) (touch (IBLOCK i (sb s)) (put_dinode i (d\<lparr>dsize := 0\<rparr>)) s)))"
proof -
  let ?b = "IBLOCK i (sb s)" and ?lk = "\<lparr>locked = True, lpid = fst me, ltid = snd me\<rparr>"
  let ?s1 = "touch ?b (put_dinode i (d\<lparr>dsize := 0\<rparr>)) s"
  have r: "fs_room (Suc 1) s" using assms(8) by (simp add: numeral_2_eq_2)
  have r1: "fs_room (Suc 0) ?s1" using fs_room_touch [OF r] by simp
  have b: "iblock_ok ip ?s1" using assms(7) get_put_dinode(2) by (simp add: iblock_ok_def Let_def i_def d_def idinode_def touch_view)
  have "itrunc ip (iupd ip (\<lambda>e. e\<lparr>ilk := ?lk\<rparr>) s) = Inr (iupd ip (\<lambda>e. e\<lparr>ilk := ?lk, isize := 0\<rparr>) ?s1)"
    using assms(9) iupdate_iupd [OF assms(7) r, of "\<lambda>e. e\<lparr>ilk := ?lk, isize := 0\<rparr>"]
    by (subst itrunc_empty) (simp_all add: i_def d_def idinode_def)
  moreover have "iupdate ip (iupd ip (\<lambda>e. e\<lparr>ilk := ?lk, isize := 0, itype := 0\<rparr>) ?s1) =
      Inr (iupd ip (\<lambda>e. e\<lparr>ilk := ?lk, isize := 0, itype := 0\<rparr>) (touch ?b (put_dinode i (d\<lparr>dtype := 0, dsize := 0\<rparr>)) ?s1))"
    using iupdate_iupd [OF b r1, of "\<lambda>e. e\<lparr>ilk := ?lk, isize := 0, itype := 0\<rparr>"] by (simp add: i_def d_def idinode_def)
  moreover have "acquire_inode ip s = Inr (iupd ip (\<lambda>e. e\<lparr>ilk := ?lk\<rparr>) s)" using acquire_inode_ok assms(2,3) by blast
  moreover have "release_inode ip (iupd ip f (touch ?b g ?s1)) = Inr (iupd ip (\<lambda>e. (f e)\<lparr>ilk := drop_sleeplock (ilk (f e))\<rparr>) (touch ?b g ?s1))" for f g
    using assms(1) by (subst release_inode_ok) (simp_all add: quiet_def iupd_def touch_def)
  ultimately have "iput ip s = Inr (iupd ip (\<lambda>e. e\<lparr>isize := 0, itype := 0, ivalid := False, ilk := drop_sleeplock ?lk, iref := iref e - 1\<rparr>)
      (touch ?b (put_dinode i (d\<lparr>dtype := 0, dsize := 0\<rparr>)) ?s1))"
    using assms(4-6) unfolding iput_def by simp
  then show ?thesis using assms(6) by (simp add: iupd_def drop_sleeplock_def)
qed

definition dropped :: "int \<Rightarrow> inode \<Rightarrow> inode" where
  "dropped t e = e\<lparr>ilk := \<lparr>locked = False, lpid = 0, ltid = t\<rparr>, iref := iref e - 1\<rparr>"

text \<open>
  C23. What dropping a reference does. If it is not the last one, or the inode has a link, or the entry has never been read, \<open>iput\<close> decrements the
  count of the entry, leaves its lock free, and changes nothing else, neither in memory nor on the disk; in particular an entry whose count falls to
  zero stays valid. If it is the last reference to a valid inode without links, which has no blocks left to free, the inode on the disk is marked
  as free (type 0, size 0) and the entry invalid; no other inode of the block and no other block changes.
\<close>

theorem iput_drops:
  assumes "quiet s" and "whoami s = Inr me" and "\<not> locked (ilk (icache s ip))"
    and "ivalid (icache s ip) \<and> inlink (icache s ip) = 0 \<and> iref (icache s ip) = 1 \<Longrightarrow>
      iblock_ok ip s \<and> fs_room 2 s \<and> (\<forall>i<13. iaddrs (icache s ip) ! i = 0)"
  shows "let e = icache s ip; b = (ROOTDEV, IBLOCK (inum e) (sb s)) in
    if ivalid e \<and> inlink e = 0 \<and> iref e = 1
    then \<exists>s'. iput ip s = Inr s' \<and> icache s' = (icache s)(ip := (dropped (snd me) e)\<lparr>itype := 0, isize := 0, ivalid := False\<rparr>) \<and>
      get_dinode (inum e) (bview s' b) = (idinode e)\<lparr>dtype := 0, dsize := 0\<rparr> \<and> (\<forall>k. k \<noteq> b \<longrightarrow> bview s' k = bview s k) \<and>
      (\<forall>j. unat (inum e) mod IPB \<noteq> unat j mod IPB \<longrightarrow> get_dinode j (bview s' b) = get_dinode j (bview s b))
    else iput ip s = Inr (iupd ip (dropped (snd me)) s)"
proof (cases "ivalid (icache s ip) \<and> inlink (icache s ip) = 0 \<and> iref (icache s ip) = 1")
  case False
  then have "iput ip s = Inr (iupd ip (dropped (snd me)) s)" using iput_keep [OF assms(1-3) False] by (simp add: dropped_def [abs_def])
  then show ?thesis unfolding Let_def if_not_P [OF False] .
next
  case True
  then have h: "iblock_ok ip s" "fs_room 2 s" "\<And>i. i < 13 \<Longrightarrow> iaddrs (icache s ip) ! i = 0" using assms(4) by auto
  define i where "i = inum (icache s ip)"
  define b where "b = (ROOTDEV, IBLOCK i (sb s))"
  define d where "d = idinode (icache s ip)"
  define s' where "s' = iupd ip (\<lambda>e. e\<lparr>isize := 0, itype := 0, ivalid := False, ilk := \<lparr>locked = False, lpid = 0, ltid = snd me\<rparr>, iref := 0\<rparr>)
    (touch (snd b) (put_dinode i (d\<lparr>dtype := 0, dsize := 0\<rparr>)) (touch (snd b) (put_dinode i (d\<lparr>dsize := 0\<rparr>)) s))"
  have put: "iput ip s = Inr s'" using iput_free [OF assms(1-3) _ _ _ h] True by (simp add: s'_def b_def i_def d_def)
  have ic: "icache s' = (icache s)(ip := (dropped (snd me) (icache s ip))\<lparr>itype := 0, isize := 0, ivalid := False\<rparr>)"
    using True by (cases "icache s ip") (simp add: s'_def iupd_def dropped_def)
  have l: "length (bview s b) = BSIZE" "length (daddrs d) = 13"
    using h(1) by (simp_all add: iblock_ok_def Let_def b_def i_def d_def idinode_def)
  have at: "bview s' b = put_dinode i (d\<lparr>dtype := 0, dsize := 0\<rparr>) (put_dinode i (d\<lparr>dsize := 0\<rparr>) (bview s b))"
    by (simp add: s'_def touch_view b_def)
  have other: "\<forall>k. k \<noteq> b \<longrightarrow> bview s' k = bview s k" by (simp add: s'_def touch_view b_def)
  have "get_dinode i (bview s' b) = d\<lparr>dtype := 0, dsize := 0\<rparr>" using l by (simp add: at get_put_dinode)
  moreover have "\<forall>j. unat i mod IPB \<noteq> unat j mod IPB \<longrightarrow> get_dinode j (bview s' b) = get_dinode j (bview s b)"
    using l by (simp add: at get_put_dinode get_put_dinode_other)
  ultimately show ?thesis using put ic other unfolding Let_def if_P [OF True] i_def b_def d_def by blast
qed

text \<open>
  C24. \<open>iput\<close> in a thread that holds the lock of the process table cannot return, for an inode that nobody has locked and that it does not
  have to free: releasing the inode wakes sleepers, which takes that lock a second time and panics.
\<close>

theorem iput_under_table_lock:
  assumes "plock s" and "whoami s = Inr me" and "\<not> locked (ilk (icache s ip))"
    and "inlink (icache s ip) \<noteq> 0 \<or> iref (icache s ip) \<noteq> 1"
  shows "iput ip s = Inl (Panic ''acquire'')"
proof -
  have "wakeup ch (spin_enter u) = Inl (Panic ''acquire'')" if "plock u" for ch and u :: "'a fsys_scheme"
    using that by (simp add: wakeup_def ptable_acquire_def spin_enter_def)
  then show ?thesis using assms
    by (auto simp: iput_def acquire_inode_ok release_inode_def releasesleep_def Let_def)
qed

text \<open>
  C25. A thread without a working directory, such as one made by \<open>thread_create\<close>, cannot use a relative path:
  \<open>namex\<close> takes the directory of the thread itself and follows the null pointer.
\<close>

theorem relative_path_needs_cwd:
  assumes "cur s = Some p" and "cwd (procs s p) = None" and "cview path 0 \<noteq> SLASH"
  shows "namei path s = Inl Wild_pointer \<and> nameiparent path s = Inl Wild_pointer"
  using assms by (simp_all add: namei_def nameiparent_def namex_def myproc_def idup_def)

subsection \<open>An inode in two entries\<close>

definition two_inodes :: fsys where
  "two_inodes = small_fs\<lparr>icache := (\<lambda>_. zero_inode)(
     0 := zero_inode\<lparr>idev := ROOTDEV, inum := 1, iref := 1, ivalid := True, itype := T_FILE, inlink := 1, isize := 700\<rparr>,
     1 := zero_inode\<lparr>idev := ROOTDEV, inum := 1, iref := 1\<rparr>)\<rparr>"

lemma two_inodes_sel [simp]:
  "quiet two_inodes" "fs_room 2 two_inodes" "whoami two_inodes = Inr (0, 0)" "\<not> plock two_inodes" "cur two_inodes = Some 1"
  using small_ok(3)
  by (simp_all add: two_inodes_def fs_room_def npinned_def quiet_def whoami_def myproc_def)
    (simp_all add: small_state zero_proc_def)

theorem iupdate_ilock_witness:
  "\<exists>s1 s2. iupdate 0 two_inodes = Inr s1 \<and> ilock 1 s1 = Inr s2 \<and> isize (icache s2 1) = 700 \<and> inlink (icache s2 1) = 1"
proof -
  have "iblock_ok 0 two_inodes"
    by (simp add: iblock_ok_def two_inodes_def IBLOCK_def zero_inode_def) (simp add: small_state)
  from iupdate_ilock [OF this two_inodes_sel(2,3), of 1] show ?thesis
    by (auto simp: two_inodes_def zero_inode_def idinode_def initsleeplock_def)
qed

theorem iget_unique_witness:
  "\<exists>s'. iget ROOTDEV 7 zero_fsys = Inr (0, s') \<and> irefs s' = irefs zero_fsys + 1 \<and> icache_ok s'"
proof -
  have "icache_ok zero_fsys" and f: "find (\<lambda>ip. iref (icache zero_fsys ip) = 0) [0..<NINODE] = Some 0"
    and h: "iget_hit ROOTDEV 7 zero_fsys = None"
    by (simp_all add: icache_ok_def same_inode_def iget_hit_def find_upt_None small_state zero_inode_def upt_conv_Cons
        del: upt_rec_numeral)
  from iget_unique [OF this(1), of ROOTDEV 7] show ?thesis by (auto simp: iget_def f h)
qed

definition some_inode :: "int \<Rightarrow> u16 \<Rightarrow> fsys" where
  "some_inode r n = two_inodes\<lparr>icache := (icache two_inodes)(0 := (icache two_inodes 0)\<lparr>iref := r, inlink := n\<rparr>)\<rparr>"

lemma some_inode_ok:
  "quiet (some_inode r n)" "whoami (some_inode r n) = Inr (0, 0)" "\<not> locked (ilk (icache (some_inode r n) 0))" "fs_room 2 (some_inode r n)"
  "iblock_ok 0 (some_inode r n)" "iaddrs (icache (some_inode r n) 0) = replicate 13 0"
  using two_inodes_sel
  by (simp_all add: some_inode_def fs_room_def npinned_def quiet_def whoami_def myproc_def iblock_ok_def)
    (simp_all add: two_inodes_def small_state zero_inode_def initsleeplock_def IBLOCK_def)

text \<open>One of two references, and the last one of an inode that has lost its links.\<close>

theorem iput_drops_witness:
  "iput 0 (some_inode 2 1) = Inr (iupd 0 (dropped 0) (some_inode 2 1)) \<and>
   (\<exists>s'. iput 0 (some_inode 1 0) = Inr s' \<and> iref (icache s' 0) = 0 \<and> \<not> ivalid (icache s' 0) \<and>
     dtype (get_dinode 1 (bview s' (ROOTDEV, IBLOCK 1 (sb (some_inode 1 0))))) = 0)"
proof -
  have e: "inum (icache (some_inode r n) 0) = 1" "ivalid (icache (some_inode r n) 0)" "inlink (icache (some_inode r n) 0) = n"
    "iref (icache (some_inode r n) 0) = r" for r n
    by (simp_all add: some_inode_def two_inodes_def)
  have z: "\<forall>i<13. iaddrs (icache (some_inode r n) 0) ! i = 0" for r n using some_inode_ok(6) by simp
  from iput_drops [OF some_inode_ok(1-3), of 2 1] iput_drops [OF some_inode_ok(1-3), of 1 0] show ?thesis
    using some_inode_ok(4,5) z by (auto simp: e Let_def dropped_def [abs_def])
qed

theorem iput_under_table_lock_witness: "iput 0 (two_inodes\<lparr>plock := True\<rparr>) = Inl (Panic ''acquire'')"
proof -
  have "whoami (two_inodes\<lparr>plock := True\<rparr>) = Inr (0, 0)" using two_inodes_sel(3) by (simp add: whoami_def myproc_def)
  from iput_under_table_lock [OF _ this, of 0] show ?thesis
    by (simp add: two_inodes_def zero_inode_def initsleeplock_def)
qed

theorem relative_path_needs_cwd_witness: "namei [102] two_inodes = Inl Wild_pointer"
proof -
  have "cwd (procs two_inodes 1) = None" by (simp add: two_inodes_def small_state zero_proc_def)
  from relative_path_needs_cwd [OF two_inodes_sel(5) this, of "[102]"] show ?thesis by (simp add: cview_def)
qed

end
