(* ===== verification/Fs_Data.thy ===== *)
theory Fs_Data
  imports Fs_Inode
begin

section \<open>The contents of files\<close>

text \<open>
  What \<open>readi\<close> and \<open>writei\<close> do to the bytes of a file. \<open>fblock\<close> and \<open>fpath\<close> describe, without executing it, where \<open>bmap\<close> finds
  a block of the file and which indirect blocks it reads on the way; on a file whose blocks are present \<open>bmap\<close>
  agrees with them. Reading then returns a segment of \<open>fcontents\<close>, and writing over existing bytes is \<open>put_bytes\<close> on it.
\<close>

subsection \<open>The block of a file\<close>

text \<open>
  The addresses \<open>bmap\<close> visits on the way to block \<open>bn\<close> of a file: \<open>fpath\<close> lists the indirect blocks, \<open>fblock\<close> is the
  data block at the end.
\<close>

definition entry_at :: "'a fsys_scheme \<Rightarrow> u32 \<Rightarrow> nat \<Rightarrow> u32" where
  "entry_at s a i = get32 i (bview s (ROOTDEV, a))"

definition walk2 :: "'a fsys_scheme \<Rightarrow> u32 \<Rightarrow> nat \<Rightarrow> u32 list" where
  "walk2 s a bn = [a, entry_at s a (bn div NINDIRECT)]"

definition fpath :: "'a fsys_scheme \<Rightarrow> nat \<Rightarrow> nat \<Rightarrow> u32 list" where
  "fpath s ip bn =
     (let a = iaddrs (icache s ip); bn1 = bn - NDIRECT; bn2 = bn1 - NINDIRECT; bn3 = bn2 - NINDIRECT * NINDIRECT
      in if bn < NDIRECT then []
         else if bn1 < NINDIRECT then [a ! NDIRECT]
         else if bn2 < NINDIRECT * NINDIRECT then walk2 s (a ! (NDIRECT + 1)) bn2
         else a ! (NDIRECT + 2) # walk2 s (entry_at s (a ! (NDIRECT + 2)) (bn3 div (NINDIRECT * NINDIRECT))) (bn3 mod (NINDIRECT * NINDIRECT)))"

definition fblock :: "'a fsys_scheme \<Rightarrow> nat \<Rightarrow> nat \<Rightarrow> u32" where
  "fblock s ip bn =
     (let bn1 = bn - NDIRECT; bn2 = bn1 - NINDIRECT; bn3 = bn2 - NINDIRECT * NINDIRECT
      in if bn < NDIRECT then iaddrs (icache s ip) ! bn
         else entry_at s (last (fpath s ip bn))
           (if bn1 < NINDIRECT then bn1 else if bn2 < NINDIRECT * NINDIRECT then bn2 mod NINDIRECT
            else bn3 mod (NINDIRECT * NINDIRECT) mod NINDIRECT))"

definition readable_block :: "'a fsys_scheme \<Rightarrow> u32 \<Rightarrow> bool" where
  "readable_block s a = (a \<noteq> 0 \<and> unat a < FSSIZE \<and> (ROOTDEV, a) \<notin> set (bheld s))"

definition mapped :: "'a fsys_scheme \<Rightarrow> nat \<Rightarrow> nat \<Rightarrow> bool" where
  "mapped s ip bn = (bn < NDIRECT + NINDIRECT + NINDIRECT ^ 2 + NINDIRECT ^ 3 \<and>
     (\<forall>a\<in>set (fpath s ip bn @ [fblock s ip bn]). readable_block s a))"

lemma bmap_entry_hit:
  assumes "fs_room (Suc n) s" and "readable_block s a" and "entry_at s a i \<noteq> 0"
  shows "bmap_entry ROOTDEV a i s = Inr (entry_at s a i, s)"
  using assms hold_ok [OF assms(1), of a]
  by (simp add: bmap_entry_def readable_block_def entry_at_def drop_ok fs_room_def)

lemma bmap_addr_hit: "iaddrs (icache s ip) ! i \<noteq> 0 \<Longrightarrow> bmap_addr ip i s = Inr (iaddrs (icache s ip) ! i, s)"
  by (simp add: bmap_addr_def)

lemma bmap_mapped:
  assumes "mapped s ip bn" and "fs_room (Suc n) s" and "idev (icache s ip) = ROOTDEV"
  shows "bmap ip bn s = Inr (fblock s ip bn, s)"
proof -
  note e = bmap_entry_hit [OF assms(2)]
  have nz: "readable_block s a \<Longrightarrow> a \<noteq> 0" for a by (simp add: readable_block_def)
  show ?thesis
    using assms(1,3) unfolding bmap_def Let_def mapped_def fpath_def fblock_def walk2_def
    by (auto simp: bmap_addr_hit nz e power2_eq_square power3_eq_cube)
qed


subsection \<open>Reading\<close>

definition fbyte :: "'a fsys_scheme \<Rightarrow> nat \<Rightarrow> nat \<Rightarrow> u8" where
  "fbyte s ip off = bview s (ROOTDEV, fblock s ip (off div BSIZE)) ! (off mod BSIZE)"

definition fmapped :: "'a fsys_scheme \<Rightarrow> nat \<Rightarrow> nat \<Rightarrow> nat \<Rightarrow> bool" where
  "fmapped s ip lo hi = (\<forall>off. lo \<le> off \<and> off < hi \<longrightarrow> mapped s ip (off div BSIZE))"

definition sized :: "'a blocks_scheme \<Rightarrow> bool" where
  "sized s = (\<forall>k. length (bview s k) = BSIZE)"

lemma unat_mod_block: "unat ((off::u32) mod 512) = unat off mod 512"
  by (simp add: unat_mod)

lemma unat_div_block: "unat ((off::u32) div 512) = unat off div 512"
  by (simp add: unat_div)

lemma unat_chunk: "unat (chunk left off) = min (unat left) (512 - unat off mod 512)"
proof -
  have "off mod 512 \<le> 512" by (simp add: word_le_nat_alt unat_mod_block)
  then have "unat (512 - off mod 512) = 512 - unat off mod 512" by (simp add: unat_sub unat_mod_block)
  then show ?thesis by (simp add: chunk_def min_def word_le_nat_alt)
qed

lemma chunk_pos: "0 < left \<Longrightarrow> 0 < unat (chunk left off)"
  by (simp add: unat_chunk word_less_nat_alt)

lemma same_block:
  "off mod 512 + j < (512::nat) \<Longrightarrow> (off + j) div 512 = off div 512 \<and> (off + j) mod 512 = off mod 512 + j"
proof -
  assume j: "off mod 512 + j < 512"
  have "off + j = (off mod 512 + j) + off div 512 * 512" by simp
  with j show ?thesis by (metis div_less div_mult_self1 mod_less mod_mult_self1 add_0 add.commute zero_neq_numeral)
qed

lemma chunk_bytes:
  assumes "sized s" and "m \<le> 512 - off mod 512"
  shows "get_bytes (off mod 512) m (bview s (ROOTDEV, fblock s ip (off div 512))) = map (fbyte s ip) [off..<off + m]"
proof (rule nth_equalityI)
  have "off mod 512 < 512" by simp
  then have l: "off mod 512 + m \<le> BSIZE" using assms(2) by linarith
  with assms(1) show "length (get_bytes (off mod 512) m (bview s (ROOTDEV, fblock s ip (off div 512)))) =
      length (map (fbyte s ip) [off..<off + m])" by (simp add: length_get_bytes sized_def)
  fix j assume "j < length (get_bytes (off mod 512) m (bview s (ROOTDEV, fblock s ip (off div 512))))"
  then have j: "j < m" using l assms(1) by (simp add: length_get_bytes sized_def)
  with l have "(off + j) div 512 = off div 512 \<and> (off + j) mod 512 = off mod 512 + j" by (intro same_block) simp
  then show "get_bytes (off mod 512) m (bview s (ROOTDEV, fblock s ip (off div 512))) ! j = map (fbyte s ip) [off..<off + m] ! j"
    using j l assms(1) by (simp add: nth_get_bytes sized_def fbyte_def)
qed

lemma readi_loop_ok:
  assumes "fs_room (Suc n) s" and "idev (icache s ip) = ROOTDEV" and "sized s"
    and "unat off + unat left < 2 ^ 32" and "fmapped s ip (unat off) (unat off + unat left)" and "unat left < fuel"
  shows "readi_loop fuel ip off left s = Inr (map (fbyte s ip) [unat off..<unat off + unat left], s)"
  using assms(4-6)
proof (induction fuel arbitrary: off left)
  case (Suc fuel)
  show ?case
  proof (cases "left > 0")
    case True
    let ?m = "chunk left off" let ?a = "fblock s ip (unat off div 512)"
    have m: "unat ?m \<le> unat left" "unat ?m \<le> 512 - unat off mod 512" "0 < unat ?m"
      using chunk_pos [OF True] by (auto simp: unat_chunk)
    have o: "unat (off + ?m) = unat off + unat ?m" using m(1) Suc.prems(1) by (intro unat_add_fits) simp
    have l: "unat (left - ?m) = unat left - unat ?m" using m(1) by (simp add: unat_sub word_le_nat_alt)
    have "mapped s ip (unat off div 512)" using Suc.prems(2) True by (simp add: fmapped_def word_less_nat_alt)
    then have b: "bmap ip (unat (off div 512)) s = Inr (?a, s)" and a: "readable_block s ?a"
      using bmap_mapped [OF _ assms(1,2)] by (simp_all add: unat_div_block mapped_def)
    have r: "blk_read (ROOTDEV, ?a) s = Inr (s\<lparr>bheld := (ROOTDEV, ?a) # bheld s\<rparr>)"
      using a by (intro hold_ok [OF assms(1)]) (simp_all add: readable_block_def)
    have i: "readi_loop fuel ip (off + ?m) (left - ?m) s =
        Inr (map (fbyte s ip) [unat off + unat ?m..<unat off + unat left], s)"
      using Suc.IH [of "off + ?m" "left - ?m"] Suc.prems m o l by (simp add: fmapped_def)
    have "map (fbyte s ip) [unat off..<unat off + unat ?m] @ map (fbyte s ip) [unat off + unat ?m..<unat off + unat left] =
        map (fbyte s ip) [unat off..<unat off + unat left]"
      using m(1) upt_add_eq_append [of "unat off" "unat off + unat ?m" "unat left - unat ?m"] by (simp flip: map_append)
    moreover have "get_bytes (unat (off mod 512)) (unat ?m) (bview s (ROOTDEV, ?a)) = map (fbyte s ip) [unat off..<unat off + unat ?m]"
      using chunk_bytes [OF assms(3) m(2)] by (simp add: unat_mod_block)
    ultimately show ?thesis using True b r i assms(1,2) by (simp add: drop_ok fs_room_def)
  qed (simp add: word_less_nat_alt)
qed simp


text \<open>The bytes of a file, and a file whose blocks up to its size are all there.\<close>

definition fcontents :: "'a fsys_scheme \<Rightarrow> nat \<Rightarrow> u8 list" where
  "fcontents s ip = map (fbyte s ip) [0..<unat (isize (icache s ip))]"

definition file_ok :: "'a fsys_scheme \<Rightarrow> nat \<Rightarrow> bool" where
  "file_ok s ip = (idev (icache s ip) = ROOTDEV \<and> itype (icache s ip) \<noteq> T_DEV \<and> sized s \<and>
     fmapped s ip 0 (unat (isize (icache s ip))))"

lemma fmapped_sub: "fmapped s ip lo hi \<Longrightarrow> lo \<le> a \<Longrightarrow> b \<le> hi \<Longrightarrow> fmapped s ip a b"
  by (auto simp: fmapped_def)

lemma readi_ok:
  assumes "file_ok s ip" and "fs_room 1 s" and "unat off \<le> unat (isize (icache s ip))" and "unat off + unat n < 2 ^ 32"
  shows "readi ip off n s = Inr (int (min (unat n) (unat (isize (icache s ip)) - unat off)),
    take (unat n) (drop (unat off) (fcontents s ip)), s)"
proof -
  let ?z = "isize (icache s ip)"
  note a = assms(3,4)
  define m where "m = (if off + n > ?z then ?z - off else n)"
  have on: "unat (off + n) = unat off + unat n" using a by (intro unat_add_fits) simp
  have m: "unat m = min (unat n) (unat ?z - unat off)"
    using a on by (auto simp: m_def word_less_nat_alt unat_sub word_le_nat_alt)
  have l: "unat off + unat m \<le> unat ?z" using a unfolding m by linarith
  have "readi_loop (Suc (unat m)) ip off m s = Inr (map (fbyte s ip) [unat off..<unat off + unat m], s)"
    using assms(1,2) l unat32_less [of ?z] by (intro readi_loop_ok [of 0]) (auto simp: file_ok_def intro: fmapped_sub)
  moreover have "map (fbyte s ip) [unat off..<unat off + unat m] = take (unat n) (drop (unat off) (fcontents s ip))"
    using a by (auto simp: fcontents_def drop_map take_map m min_def)
  moreover have "\<not> (off > ?z \<or> off + n < off)" using a on by (simp add: word_less_nat_alt)
  moreover have "uint m = int (min (unat n) (unat ?z - unat off))" unfolding m [symmetric] by simp
  ultimately show ?thesis
    using assms(1) by (simp add: readi_def file_ok_def Let_def del: readi_loop.simps flip: m_def)
qed

text \<open>
  C19. \<open>readi\<close> returns the bytes of the file: from an offset inside the file it delivers the \<open>n\<close> bytes that follow, cut at the
  end of the file, and leaves the file system as it was. A read that starts behind the end, or whose end overflows
  32 bits, returns -1.
\<close>

theorem readi_contents:
  assumes "file_ok s ip" and "fs_room 1 s"
  shows "(unat off \<le> unat (isize (icache s ip)) \<and> unat off + unat n < 2 ^ 32 \<longrightarrow>
      readi ip off n s = Inr (int (min (unat n) (unat (isize (icache s ip)) - unat off)),
        take (unat n) (drop (unat off) (fcontents s ip)), s)) \<and>
    (unat off > unat (isize (icache s ip)) \<or> unat off + unat n \<ge> 2 ^ 32 \<longrightarrow> readi ip off n s = Inr (-1, [], s))"
proof (intro conjI impI)
  assume "unat off > unat (isize (icache s ip)) \<or> unat off + unat n \<ge> 2 ^ 32"
  then have "off > isize (icache s ip) \<or> off + n < off"
    using unat32_less [of n] unat32_less [of off] by (auto simp: word_less_nat_alt unat_word_ariths le_mod_geq)
  then show "readi ip off n s = Inr (-1, [], s)" using assms(1) by (auto simp: readi_def file_ok_def)
qed (use readi_ok [OF assms] in simp)

subsection \<open>Writing\<close>

text \<open>
  The blocks of a file do not overlap: no two of the first \<open>m\<close> file blocks share a disk block, and none of them is also an
  indirect block. Writing a data block then leaves the map of the file alone (\<open>same_map\<close>).
\<close>

definition apart :: "nat \<Rightarrow> 'a fsys_scheme \<Rightarrow> nat \<Rightarrow> bool" where
  "apart m s ip = (\<forall>i<m. \<forall>j<m. fblock s ip i \<notin> set (fpath s ip j) \<and> (fblock s ip i = fblock s ip j \<longrightarrow> i = j))"

definition same_map :: "nat \<Rightarrow> nat \<Rightarrow> 'a fsys_scheme \<Rightarrow> 'a fsys_scheme \<Rightarrow> bool" where
  "same_map m ip s s' = (icache s' = icache s \<and> bheld s' = bheld s \<and> sb s' = sb s \<and>
     (\<forall>j<m. fpath s' ip j = fpath s ip j \<and> fblock s' ip j = fblock s ip j))"

lemma entry_at_touch: "a \<noteq> b \<Longrightarrow> entry_at (touch b f s) a i = entry_at s a i"
  by (simp add: entry_at_def touch_other)

lemma fpath_touch:
  assumes "b \<notin> set (fpath s ip j)"
  shows "fpath (touch b f s) ip j = fpath s ip j"
  using assms by (auto simp: fpath_def walk2_def Let_def entry_at_touch split: if_splits)

lemma fblock_touch:
  assumes "b \<notin> set (fpath s ip j)"
  shows "fblock (touch b f s) ip j = fblock s ip j"
proof -
  have "j \<ge> NDIRECT \<Longrightarrow> fpath s ip j \<noteq> []" by (simp add: fpath_def walk2_def Let_def)
  then have "j \<ge> NDIRECT \<Longrightarrow> last (fpath s ip j) \<noteq> b" using assms last_in_set by metis
  then show ?thesis using fpath_touch [OF assms, of f] by (simp add: fblock_def Let_def entry_at_touch)
qed

lemma same_map_touch: "apart m s ip \<Longrightarrow> i < m \<Longrightarrow> same_map m ip s (touch (fblock s ip i) f s)"
  by (simp add: same_map_def apart_def fpath_touch fblock_touch)

lemma same_map_refl [simp]: "same_map m ip s s"
  by (simp add: same_map_def)

lemma same_map_trans: "same_map m ip s s1 \<Longrightarrow> same_map m ip s1 s2 \<Longrightarrow> same_map m ip s s2"
  by (simp add: same_map_def)

lemma apart_same: "same_map m ip s s' \<Longrightarrow> apart m s' ip = apart m s ip"
  by (simp add: same_map_def apart_def)

lemma mapped_same: "same_map m ip s s' \<Longrightarrow> j < m \<Longrightarrow> mapped s' ip j = mapped s ip j"
  by (simp add: same_map_def mapped_def readable_block_def)

lemma div_block_less: "off < m * 512 \<longleftrightarrow> off div 512 < (m::nat)"
  by (simp add: div_less_iff_less_mult)

lemma fmapped_same:
  assumes "same_map m ip s s'" and "hi \<le> m * 512"
  shows "fmapped s' ip lo hi = fmapped s ip lo hi"
proof -
  have "mapped s' ip (off div 512) = mapped s ip (off div 512)" if "off < hi" for off
    using that assms(2) by (intro mapped_same [OF assms(1)]) (simp flip: div_block_less)
  then show ?thesis by (auto simp: fmapped_def)
qed

lemma sized_touch: "sized s \<Longrightarrow> off + length ys \<le> BSIZE \<Longrightarrow> sized (touch b (put_bytes off ys) s)"
  by (auto simp: sized_def touch_view length_put_bytes)

lemma fbyte_touch:
  assumes "apart m s ip" and "off div 512 < m" and "p < m * 512" and "sized s" and "off mod 512 + length ys \<le> 512"
  shows "fbyte (touch (fblock s ip (off div 512)) (put_bytes (off mod 512) ys) s) ip p =
    (if off \<le> p \<and> p < off + length ys then ys ! (p - off) else fbyte s ip p)"
proof -
  let ?i = "off div 512" let ?s = "touch (fblock s ip ?i) (put_bytes (off mod 512) ys) s"
  have p: "p div 512 < m" using assms(3) by (simp add: div_block_less)
  have f: "fblock ?s ip (p div 512) = fblock s ip (p div 512)"
    using same_map_touch [OF assms(1,2)] p by (simp add: same_map_def)
  show ?thesis
  proof (cases "p div 512 = ?i")
    case True
    have d: "off = ?i * 512 + off mod 512" "p = ?i * 512 + p mod 512" by (simp, metis True div_mult_mod_eq)
    have "p mod 512 < 512" by simp
    moreover have "off \<le> p \<longleftrightarrow> off mod 512 \<le> p mod 512" "p < off + length ys \<longleftrightarrow> p mod 512 < off mod 512 + length ys"
      "p - off = p mod 512 - off mod 512" using d by linarith+
    ultimately show ?thesis using True f assms(4,5) by (simp add: fbyte_def nth_put_bytes sized_def)
  next
    case False
    then have "fblock s ip (p div 512) \<noteq> fblock s ip ?i" using assms(1,2) p by (auto simp: apart_def)
    moreover have "\<not> (off \<le> p \<and> p < off + length ys)"
    proof
      assume a: "off \<le> p \<and> p < off + length ys"
      then have "(off + (p - off)) div 512 = off div 512" using assms(5) same_block [of off "p - off"] by linarith
      with a False show False by simp
    qed
    ultimately show ?thesis using f by (auto simp: fbyte_def touch_other)
  qed
qed


text \<open>What the loop of \<open>writei\<close> does to the blocks of a file that is mapped as far as the write goes.\<close>

definition wrote :: "nat \<Rightarrow> nat \<Rightarrow> nat \<Rightarrow> u8 list \<Rightarrow> 'a fsys_scheme \<Rightarrow> 'a fsys_scheme \<Rightarrow> bool" where
  "wrote m ip off ys s s' = (same_map m ip s s' \<and> sized s' \<and>
     (\<forall>p<m * 512. fbyte s' ip p = (if off \<le> p \<and> p < off + length ys then ys ! (p - off) else fbyte s ip p)) \<and>
     (\<forall>k. k \<notin> (\<lambda>i. (ROOTDEV, fblock s ip i)) ` {..<m} \<longrightarrow> bview s' k = bview s k))"

lemma wrote_Nil: "sized s \<Longrightarrow> wrote m ip off [] s s"
  by (auto simp: wrote_def)

lemma wroteD:
  assumes "wrote m ip off ys s s'"
  shows "same_map m ip s s'" and "sized s'"
    and "p < m * 512 \<Longrightarrow> fbyte s' ip p = (if off \<le> p \<and> p < off + length ys then ys ! (p - off) else fbyte s ip p)"
    and "k \<notin> (\<lambda>i. (ROOTDEV, fblock s ip i)) ` {..<m} \<Longrightarrow> bview s' k = bview s k"
  using assms unfolding wrote_def by (blast, blast, blast, blast)

lemma wrote_append:
  assumes "wrote m ip off ys s s1" and "wrote m ip (off + length ys) zs s1 s2"
  shows "wrote m ip off (ys @ zs) s s2"
  unfolding wrote_def
proof (intro conjI allI impI)
  show "same_map m ip s s2" using wroteD(1) [OF assms(1)] wroteD(1) [OF assms(2)] by (rule same_map_trans)
  show "sized s2" by (rule wroteD(2) [OF assms(2)])
  show "fbyte s2 ip p = (if off \<le> p \<and> p < off + length (ys @ zs) then (ys @ zs) ! (p - off) else fbyte s ip p)"
    if "p < m * 512" for p
    unfolding wroteD(3) [OF assms(2) that] wroteD(3) [OF assms(1) that] by (auto simp: nth_append)
  have i: "(\<lambda>i. (ROOTDEV, fblock s1 ip i)) ` {..<m} = (\<lambda>i. (ROOTDEV, fblock s ip i)) ` {..<m}"
    using wroteD(1) [OF assms(1)] by (intro image_cong) (simp_all add: same_map_def)
  show "bview s2 k = bview s k" if "k \<notin> (\<lambda>i. (ROOTDEV, fblock s ip i)) ` {..<m}" for k
    using wroteD(4) [OF assms(2), unfolded i, OF that] wroteD(4) [OF assms(1) that] by simp
qed

lemma wrote_touch:
  assumes "apart m s ip" and "off div 512 < m" and "sized s" and "off mod 512 + length ys \<le> 512"
  shows "wrote m ip off ys s (touch (fblock s ip (off div 512)) (put_bytes (off mod 512) ys) s)"
  unfolding wrote_def
  using assms fbyte_touch [OF assms(1,2) _ assms(3,4)] same_map_touch [OF assms(1,2)] sized_touch [OF assms(3)]
  by (auto simp: touch_view)

lemma block_end: "x = q * 512 + r \<Longrightarrow> k + r = 512 \<Longrightarrow> x + k = (q + 1) * (512::nat)"
  by simp

lemma next_chunk:
  assumes "left = 0 \<or> unat off + unat left \<le> (unat off div 512 + Suc c) * 512" and "left > 0"
    and "unat off + unat left < 2 ^ 32"
  defines "k \<equiv> chunk left off"
  shows "left - k = 0 \<or> unat (off + k) + unat (left - k) \<le> (unat (off + k) div 512 + c) * 512"
proof (cases "unat k = unat left")
  case False
  have k: "unat k = 512 - unat off mod 512" "unat k \<le> unat left" using False by (auto simp: k_def unat_chunk)
  have o: "unat (off + k) = unat off + unat k" using k(2) assms(3) by (intro unat_add_fits) simp
  have l: "unat (left - k) = unat left - unat k" using k(2) by (simp add: unat_sub word_le_nat_alt)
  have "unat off mod 512 < 512" by simp
  then have "unat k + unat off mod 512 = 512" using k(1) by simp
  then have "unat off + unat k = (unat off div 512 + 1) * 512" by (rule block_end [OF div_mult_mod_eq [symmetric]])
  then have "unat (off + k) div 512 = Suc (unat off div 512)" unfolding o by simp
  moreover have "unat (off + k) + unat (left - k) = unat off + unat left" using o l k(2) by simp
  ultimately show ?thesis using assms(1,2) by auto
next
  case True
  then have "k = left" by (simp add: word_unat_eq_iff)
  then show ?thesis by simp
qed

lemma writei_loop_ok:
  assumes "idev (icache s ip) = ROOTDEV" and "apart m s ip" and "fmapped s ip 0 (m * 512)" and "sized s"
    and "fs_room (Suc c) s" and "unat off + unat left \<le> m * 512" and "m * 512 < 2 ^ 32"
    and "left = 0 \<or> unat off + unat left \<le> (unat off div 512 + c) * 512"
    and "unat left \<le> length src" and "unat left < fuel"
  shows "\<exists>s'. writei_loop fuel ip off src left s = Inr (off + left, s') \<and>
    wrote m ip (unat off) (take (unat left) src) s s' \<and> fs_room 1 s'"
  using assms
proof (induction fuel arbitrary: off left src s c)
  case (Suc fuel)
  note prems = Suc.prems
  show ?case
  proof (cases "left > 0")
    case True
    let ?k = "chunk left off" let ?i = "unat off div 512" let ?a = "fblock s ip ?i"
    let ?ys = "take (unat ?k) src" let ?s1 = "touch ?a (put_bytes (unat off mod 512) ?ys) s"
    have k: "unat ?k \<le> unat left" "unat ?k \<le> 512 - unat off mod 512" "0 < unat ?k"
      using chunk_pos [OF True] by (auto simp: unat_chunk)
    have c: "0 < c" using prems(8) True by (cases c) (auto simp: word_less_nat_alt)
    have i: "?i < m" using prems(6) True by (simp add: word_less_nat_alt flip: div_block_less)
    have o: "unat (off + ?k) = unat off + unat ?k" using k(1) prems(6,7) by (intro unat_add_fits) simp
    have l: "unat (left - ?k) = unat left - unat ?k" using k(1) by (simp add: unat_sub word_le_nat_alt)
    have y: "length ?ys = unat ?k" "unat off mod 512 + length ?ys \<le> 512" using k prems(9) by auto
    have "mapped s ip ?i" using prems(3,6) True by (simp add: fmapped_def word_less_nat_alt)
    then have b: "bmap ip (unat (off div 512)) s = Inr (?a, s)" and a: "readable_block s ?a"
      using bmap_mapped [OF _ prems(5,1)] by (simp_all add: unat_div_block mapped_def)
    have r: "blk_read (ROOTDEV, ?a) s = Inr (s\<lparr>bheld := (ROOTDEV, ?a) # bheld s\<rparr>)"
      using a by (intro hold_ok [OF prems(5)]) (simp_all add: readable_block_def)
    have w: "wrote m ip (unat off) ?ys s ?s1" by (rule wrote_touch [OF prems(2) i prems(4) y(2)])
    then have sm: "same_map m ip s ?s1" "sized ?s1" by (simp_all add: wrote_def)
    obtain c' where c': "c = Suc c'" using c by (cases c) auto
    have "left - ?k = 0 \<or> unat (off + ?k) + unat (left - ?k) \<le> (unat (off + ?k) div 512 + c') * 512"
      using prems(6,7) by (intro next_chunk [OF prems(8) [unfolded c'] True]) simp
    moreover have "unat left - unat ?k \<le> length src - unat ?k" "unat left - unat ?k < fuel"
      using prems(9,10) k by auto
    ultimately obtain s' where
      s': "writei_loop fuel ip (off + ?k) (drop (unat ?k) src) (left - ?k) ?s1 = Inr (off + left, s')"
        "wrote m ip (unat off + unat ?k) (take (unat left - unat ?k) (drop (unat ?k) src)) ?s1 s'" "fs_room 1 s'"
      using Suc.IH [of ?s1 c' "off + ?k" "left - ?k" "drop (unat ?k) src"] sm(2) prems(1,2,3,5,6,7) k(1) o l c'
        fs_room_touch [of "Suc c'" s] apart_same [OF sm(1)] fmapped_same [OF sm(1)]
      by (auto simp: algebra_simps)
    have "wrote m ip (unat off) (?ys @ take (unat left - unat ?k) (drop (unat ?k) src)) s s'"
      by (rule wrote_append [OF w]) (use s'(2) y in simp)
    moreover have "?ys @ take (unat left - unat ?k) (drop (unat ?k) src) = take (unat left) src"
      using k(1) by (metis le_add_diff_inverse take_add)
    ultimately show ?thesis using True b r s' prems(1,5)
      by (simp add: blk_log_ok drop_ok fs_room_def unat_mod_block)
  next
    case False
    then have "left = 0" by (simp add: word_less_nat_alt word_unat_eq_iff)
    then show ?thesis using prems(4) fs_room_mono [OF prems(5), of 1] by (simp add: wrote_Nil)
  qed
qed simp


text \<open>
  C18. \<open>writei\<close> over existing bytes of a file whose blocks do not overlap returns the count, replaces exactly the bytes
  from the offset on by the caller's, and changes no block that is not the file's; reading the range again
  returns what was written.
\<close>

theorem writei_readi:
  assumes "file_ok s ip" and "apart m s ip" and "fmapped s ip 0 (m * BSIZE)" and "unat (isize (icache s ip)) \<le> m * BSIZE"
    and "m \<le> MAXFILE" and "fs_room (unat n div BSIZE + 3) s"
    and "unat off + unat n \<le> unat (isize (icache s ip))" and "length src = unat n"
  shows "\<exists>s'. writei ip src off n s = Inr (uint n, s') \<and>
    fcontents s' ip = put_bytes (unat off) src (fcontents s ip) \<and>
    readi ip off n s' = Inr (uint n, src, s') \<and>
    (\<forall>k. k \<notin> (\<lambda>i. (ROOTDEV, fblock s ip i)) ` {..<m} \<longrightarrow> bview s' k = bview s k)"
proof -
  let ?z = "unat (isize (icache s ip))"
  have n: "unat off + unat n < 2 ^ 32" "unat off + unat n \<le> m * BSIZE" using assms(4,7) unat32_less [of "isize (icache s ip)"] by auto
  have on: "unat (off + n) = unat off + unat n" using n(1) by (intro unat_add_fits) simp
  have g: "unat (off + n) \<le> MAXFILE * BSIZE" "m * BSIZE < 2 ^ 32"
    using n(2) assms(5) on by (auto simp: MAXFILE_def)
  have "unat off + unat n \<le> (unat off div 512 + (unat n div 512 + 2)) * 512"
    using div_mult_mod_eq [of "unat off" 512] div_mult_mod_eq [of "unat n" 512] by (simp add: add_mult_distrib)
  with assms obtain s' where s': "writei_loop (Suc (unat n)) ip off src n s = Inr (off + n, s')"
      "wrote m ip (unat off) (take (unat n) src) s s'" "fs_room 1 s'"
    using writei_loop_ok [OF _ assms(2,3) _ _ n(2) g(2), of "unat n div 512 + 2" src "Suc (unat n)"]
    by (auto simp: file_ok_def numeral_3_eq_3)
  note w = wroteD [OF s'(2)]
  have ic: "icache s' = icache s" using w(1) by (simp add: same_map_def)
  have "file_ok s' ip" using assms(1,4) ic w(2) fmapped_same [OF w(1)] by (simp add: file_ok_def)
  note rd = readi_ok [OF this s'(3), of off n, unfolded ic]
  have fc: "fcontents s' ip = put_bytes (unat off) src (fcontents s ip)"
    using assms(4,7,8) ic w(3) by (intro nth_equalityI) (auto simp: fcontents_def length_put_bytes nth_put_bytes)
  have "\<not> (off > isize (icache s ip) \<or> off + n < off)" "\<not> off + n > isize (icache s ip)"
    using assms(7) on by (auto simp: word_less_nat_alt)
  then have "writei ip src off n s = Inr (uint n, s')"
    using assms(1) s'(1) ic g(1) by (simp add: writei_def file_ok_def Let_def del: writei_loop.simps)
  moreover have "readi ip off n s' = Inr (uint n, src, s')"
  proof -
    have "take (unat n) (drop (unat off) (fcontents s' ip)) = src"
      unfolding fc using assms(7,8) by (simp add: put_bytes_def fcontents_def)
    moreover have "min (unat n) (?z - unat off) = unat n" using assms(7) by simp
    ultimately show ?thesis using rd n(1) assms(7) by simp
  qed
  ultimately show ?thesis using fc w(4) by blast
qed


text \<open>
  C20. The limits on the size of a file. \<open>writei\<close> refuses, without touching anything, an offset behind the end of the file, an
  end that overflows 32 bits and an end behind \<open>MAXFILE\<close> blocks; a write it accepts only asks \<open>bmap\<close> for blocks that the
  direct, single-, double- and triple-indirect levels can address, and \<open>bmap\<close> panics for a block behind those.
\<close>

theorem writei_limits:
  assumes "itype (icache s ip) \<noteq> T_DEV"
  shows "(unat off > unat (isize (icache s ip)) \<or> unat off + unat n \<ge> 2 ^ 32 \<or> unat off + unat n > MAXFILE * BSIZE \<longrightarrow>
      writei ip src off n s = Inr (-1, s)) \<and>
    (writei ip src off n s \<noteq> Inr (-1, s) \<longrightarrow>
      (\<forall>p. unat off \<le> p \<and> p < unat off + unat n \<longrightarrow>
        p div BSIZE < NDIRECT + NINDIRECT + NINDIRECT ^ 2 + NINDIRECT ^ 3)) \<and>
    (bn \<ge> NDIRECT + NINDIRECT + NINDIRECT ^ 2 + NINDIRECT ^ 3 \<longrightarrow> bmap ip bn s = Inl (Panic ''bmap: out of range''))"
proof -
  have 1: "writei ip src off n s = Inr (-1, s)"
    if "unat off > unat (isize (icache s ip)) \<or> unat off + unat n \<ge> 2 ^ 32 \<or> unat off + unat n > MAXFILE * BSIZE"
  proof (cases "unat off + unat n < 2 ^ 32")
    case True
    then have "unat (off + n) = unat off + unat n" by (intro unat_add_fits) simp
    then show ?thesis using that True assms by (auto simp: writei_def Let_def word_less_nat_alt)
  next
    case False
    then have "off + n < off"
      using unat32_less [of n] unat32_less [of off] by (auto simp: word_less_nat_alt unat_word_ariths le_mod_geq)
    then show ?thesis using assms by (simp add: writei_def Let_def)
  qed
  have 2: "p div BSIZE < NDIRECT + NINDIRECT + NINDIRECT ^ 2 + NINDIRECT ^ 3" if "p < MAXFILE * BSIZE" for p
    using that by (simp add: MAXFILE_def div_block_less)
  have 3: "bmap ip bn s = Inl (Panic ''bmap: out of range'')" if "bn \<ge> NDIRECT + NINDIRECT + NINDIRECT ^ 2 + NINDIRECT ^ 3"
  proof -
    have "\<not> bn < 10" "\<not> bn - 10 < 128" "\<not> bn - 10 - 128 < 128 * 128" "\<not> bn - 10 - 128 - 128 * 128 < 128 * 128 * 128"
      using that by (simp_all add: power2_eq_square power3_eq_cube)
    then show ?thesis unfolding bmap_def Let_def by (simp only: if_False simp_thms)
  qed
  show ?thesis
  proof (intro conjI impI allI)
    fix p assume w: "writei ip src off n s \<noteq> Inr (-1, s)" and p: "unat off \<le> p \<and> p < unat off + unat n"
    from w 1 have "unat off + unat n \<le> MAXFILE * BSIZE" by (meson not_le)
    with p show "p div BSIZE < NDIRECT + NINDIRECT + NINDIRECT ^ 2 + NINDIRECT ^ 3" by (intro 2) simp
  qed (use 1 3 in blast)+
qed

subsection \<open>A file of one block\<close>

definition one_file :: fsys where
  "one_file = small_fs\<lparr>icache := (\<lambda>_. zero_inode)(
     0 := zero_inode\<lparr>idev := ROOTDEV, inum := 1, iref := 1, ivalid := True, itype := T_FILE, inlink := 1, isize := 3,
       iaddrs := 4 # replicate 12 0\<rparr>)\<rparr>"

lemma one_file_sel [simp]:
  "icache one_file 0 = zero_inode\<lparr>idev := ROOTDEV, inum := 1, iref := 1, ivalid := True, itype := T_FILE, inlink := 1, isize := 3,
    iaddrs := 4 # replicate 12 0\<rparr>"
  "bheld one_file = []" "bview one_file = bview small_fs"
  by (simp_all add: one_file_def) (simp add: small_state)

lemma one_file_ok: "sized one_file" "fs_room 3 one_file" "fmapped one_file 0 0 512" "file_ok one_file 0" "apart 1 one_file 0"
proof -
  show z: "sized one_file" by (simp add: sized_def) (simp add: small_state)
  show "fs_room 3 one_file" using small_ok(2) by (simp add: fs_room_def one_file_def npinned_def quiet_def)
  show m: "fmapped one_file 0 0 512"
    by (simp add: fmapped_def mapped_def fblock_def fpath_def readable_block_def)
  show "file_ok one_file 0" using z fmapped_sub [OF m, of 0 3] by (simp add: file_ok_def)
  show "apart 1 one_file 0" by (simp add: apart_def fblock_def fpath_def)
qed

theorem readi_contents_witness:
  "readi 0 1 9 one_file = Inr (2, [0, 0], one_file) \<and> readi 0 4 1 one_file = Inr (-1, [], one_file)"
  using readi_contents [OF one_file_ok(4) fs_room_mono [OF one_file_ok(2)], of 1 9]
    readi_contents [OF one_file_ok(4) fs_room_mono [OF one_file_ok(2)], of 4 1]
  by (simp add: fcontents_def upt_rec fbyte_def fblock_def) (simp add: small_state)

theorem writei_readi_witness:
  "\<exists>s'. writei 0 [7, 8] 1 2 one_file = Inr (2, s') \<and> readi 0 1 2 s' = Inr (2, [7, 8], s')"
  using writei_readi [of one_file 0 1 2 1 "[7, 8]"] one_file_ok by (auto simp: MAXFILE_def)


theorem writei_limits_witness: "writei 0 [7] 4 1 one_file = Inr (-1, one_file) \<and> bmap 0 3000000 one_file = Inl (Panic ''bmap: out of range'')"
  using writei_limits [of one_file 0 4 1 "[7]" 3000000] by simp

end
