(* ===== verification/Ulib.thy ===== *)
theory Ulib
  imports Cstring
begin

text \<open>
  The library of the user programs: the string routines of \<open>ulib.c\<close>, \<open>gets\<close>, \<open>atoi\<close>, and \<open>printf\<close> of \<open>printf.c\<close>, whose
  output is the list of bytes it passes to \<open>putc\<close>. Shown: a number printed by \<open>printint\<close> is read back by \<open>atoi\<close>,
  and the buffer of \<open>printint\<close> suffices for every 32-bit number.
\<close>

section \<open>Strings, numbers and formatted output of user programs\<close>

subsection \<open>C strings (ulib.c)\<close>

text \<open>
  A pointer into a terminated string is the list of the bytes from there to the terminator; \<open>cur\<close> reads
  the byte under the pointer, which is zero at the end of the list.
\<close>

definition cur :: "u8 list \<Rightarrow> u8" where
  "cur s = (case s of [] \<Rightarrow> 0 | c # _ \<Rightarrow> c)"

lemma cur_simps [simp]: "cur [] = 0" "cur (c # s) = c"
  by (simp_all add: cur_def)

lemma cur_nonzero [dest]: "cur s \<noteq> 0 \<Longrightarrow> s \<noteq> []"
  by auto

fun strcpy_from :: "nat \<Rightarrow> u8 list \<Rightarrow> u8 list \<Rightarrow> u8 list res" where
  "strcpy_from i s [] = aset s i 0"
| "strcpy_from i s (c # t) =
     rbind (aset s i c) (\<lambda>s. if c \<noteq> 0 then strcpy_from (Suc i) s t else Inr s)"

definition strcpy :: "u8 list \<Rightarrow> u8 list \<Rightarrow> u8 list res" where
  "strcpy s t = strcpy_from 0 s t"

fun strcmp :: "u8 list \<Rightarrow> u8 list \<Rightarrow> int" where
  "strcmp [] q = 0 - uint (cur q)"
| "strcmp (c # p) q =
     (if c \<noteq> 0 \<and> c = cur q then strcmp p (tl q) else uint c - uint (cur q))"

fun ustrlen :: "u8 list \<Rightarrow> nat" where
  "ustrlen [] = 0"
| "ustrlen (c # s) = (if c \<noteq> 0 then Suc (ustrlen s) else 0)"

definition umemset :: "u32 \<Rightarrow> u32 \<Rightarrow> u32 \<Rightarrow> mem \<Rightarrow> mem" where
  "umemset dst c n m = stosb dst (ucast c) (unat n) m"

text \<open>\<open>strchr\<close> returns the pointer to the byte it found, here the rest of the string from there.\<close>

fun strchr :: "u8 list \<Rightarrow> u8 \<Rightarrow> u8 list option" where
  "strchr [] c = None"
| "strchr (x # s) c =
     (if x = 0 then None else if x = c then Some (x # s) else strchr s c)"

text \<open>
  \<open>gets\<close> reads single bytes with the system call \<open>read\<close>: \<open>rd\<close> is that call on the standard input, a
  function of the state of the input that returns the byte, or \<open>None\<close> for a result below 1.
\<close>

fun gets_loop :: "('f \<Rightarrow> u8 option \<times> 'f) \<Rightarrow> nat \<Rightarrow> nat \<Rightarrow> u8 list \<Rightarrow> 'f \<Rightarrow> (nat \<times> u8 list \<times> 'f) res" where
  "gets_loop rd 0 i buf f = Inr (i, buf, f)"
| "gets_loop rd (Suc n) i buf f =
     (case rd f of
        (None, f) \<Rightarrow> Inr (i, buf, f)
      | (Some c, f) \<Rightarrow>
          rbind (aset buf i c) (\<lambda>buf.
          if c = 10 \<or> c = 13 then Inr (Suc i, buf, f)
          else gets_loop rd n (Suc i) buf f))"

definition gets :: "('f \<Rightarrow> u8 option \<times> 'f) \<Rightarrow> u8 list \<Rightarrow> int \<Rightarrow> 'f \<Rightarrow> (u8 list \<times> 'f) res" where
  "gets rd buf m f =
     rbind (gets_loop rd (nat (m - 1)) 0 buf f) (\<lambda>(i, buf, f).
     rbind (aset buf i 0) (\<lambda>buf. Inr (buf, f)))"

fun atoi_from :: "u32 \<Rightarrow> u8 list \<Rightarrow> u32" where
  "atoi_from n [] = n"
| "atoi_from n (c # s) =
     (if 48 \<le> c \<and> c \<le> 57 then atoi_from (n * 10 + ucast c - 48) s else n)"

definition atoi :: "u8 list \<Rightarrow> u32" where
  "atoi s = atoi_from 0 s"

definition umemmove :: "u32 \<Rightarrow> u32 \<Rightarrow> int \<Rightarrow> mem \<Rightarrow> mem" where
  "umemmove dst src n m = copy_up dst src (nat n) m"

subsection \<open>Formatted output (printf.c)\<close>

definition digits :: "u8 list" where
  "digits = [48, 49, 50, 51, 52, 53, 54, 55, 56, 57, 65, 66, 67, 68, 69, 70]"

text \<open>
  \<open>printint\<close> stores the digits from the lowest into \<open>buf\<close>, of 16 bytes, and prints them backwards. The
  loop divides an unsigned number by the base until it is zero.
\<close>

function printint_loop :: "u8 list \<Rightarrow> u32 \<Rightarrow> u32 \<Rightarrow> nat \<Rightarrow> u8 list \<Rightarrow> (nat \<times> u8 list) res" where
  "printint_loop digs base x i buf =
     rbind (aget digs (unat (x mod base))) (\<lambda>d.
     rbind (aset buf i d) (\<lambda>buf.
     let x = x div base
     in if x \<noteq> 0 then printint_loop digs base x (Suc i) buf else Inr (Suc i, buf)))"
  by pat_completeness auto
termination
  by (relation "measure (\<lambda>(digs, base, x, i, buf). length buf - i)") (auto simp: res_simps)

definition printint :: "u32 \<Rightarrow> u32 \<Rightarrow> bool \<Rightarrow> u8 list res" where
  "printint xx base sg =
     (if base = 0 then Inl (Panic ''divide error'')
      else let neg = sg \<and> sint xx < 0;
               x = (if neg then - xx else xx)
           in rbind (printint_loop digits base x 0 (replicate 16 0)) (\<lambda>(i, buf).
              rbind (if neg then rbind (aset buf i 45) (\<lambda>buf. Inr (Suc i, buf)) else Inr (i, buf)) (\<lambda>(i, buf).
              Inr (rev (take i buf)))))"

text \<open>
  \<open>printf\<close>: the arguments are the words on the stack behind the format, read one by one; a \<open>%s\<close> takes its word as
  an address in the memory \<open>m\<close>. What is printed is the list of bytes passed to \<open>putc\<close>.
\<close>

fun mem_string :: "nat \<Rightarrow> mem \<Rightarrow> u32 \<Rightarrow> u8 list res" where
  "mem_string 0 m s = Inl Diverges"
| "mem_string (Suc fuel) m s =
     (if m s \<noteq> 0 then rbind (mem_string fuel m (s + 1)) (\<lambda>r. Inr (m s # r)) else Inr [])"

definition null_string :: "u8 list" where
  "null_string = [40, 110, 117, 108, 108, 41]"

definition print_directive :: "nat \<Rightarrow> mem \<Rightarrow> u8 \<Rightarrow> u32 list \<Rightarrow> (u8 list \<times> u32 list) res" where
  "print_directive fuel m c ap =
     (if c = 100 then rbind (aget ap 0) (\<lambda>w. rbind (printint w 10 True) (\<lambda>out. Inr (out, tl ap)))
      else if c = 120 \<or> c = 112 then rbind (aget ap 0) (\<lambda>w. rbind (printint w 16 False) (\<lambda>out. Inr (out, tl ap)))
      else if c = 115 then rbind (aget ap 0) (\<lambda>w.
        rbind (if w = 0 then Inr null_string else mem_string fuel m w) (\<lambda>out. Inr (out, tl ap)))
      else if c = 99 then rbind (aget ap 0) (\<lambda>w. Inr ([ucast w], tl ap))
      else if c = 37 then Inr ([c], ap)
      else Inr ([37, c], ap))"

fun printf_loop :: "nat \<Rightarrow> mem \<Rightarrow> bool \<Rightarrow> u8 list \<Rightarrow> u32 list \<Rightarrow> u8 list res" where
  "printf_loop fuel m pct [] ap = Inr []"
| "printf_loop fuel m pct (c # fmt) ap =
     (if c = 0 then Inr []
      else if \<not> pct
      then if c = 37 then printf_loop fuel m True fmt ap
           else rbind (printf_loop fuel m False fmt ap) (\<lambda>out. Inr (c # out))
      else rbind (print_directive fuel m c ap) (\<lambda>(d, ap).
           rbind (printf_loop fuel m False fmt ap) (\<lambda>out. Inr (d @ out))))"

definition printf :: "nat \<Rightarrow> mem \<Rightarrow> u8 list \<Rightarrow> u32 list \<Rightarrow> u8 list res" where
  "printf fuel m fmt ap = printf_loop fuel m False fmt ap"


text \<open>The fuel of \<open>mem_string\<close> bounds the length of the string; one more than the length is enough.\<close>

lemma mem_string_ok:
  assumes "m (p + of_nat n) = 0" and "\<And>i. i < n \<Longrightarrow> m (p + of_nat i) \<noteq> 0"
  shows "mem_string (Suc n) m p = Inr (map (\<lambda>i. m (p + of_nat i)) [0..<n])"
  using assms
proof (induction n arbitrary: p)
  case (Suc n)
  have "mem_string (Suc n) m (p + 1) = Inr (map (\<lambda>i. m (p + 1 + of_nat i)) [0..<n])"
    using Suc.prems(1) Suc.prems(2) [of "Suc i" for i] by (intro Suc.IH) (simp_all add: add.assoc)
  moreover have "m p \<noteq> 0" using Suc.prems(2) [of 0] by simp
  ultimately show ?case
    by (subst mem_string.simps) (simp add: upt_conv_Cons map_Suc_upt [symmetric] add.assoc del: upt_Suc)
qed simp

subsection \<open>Printing and reading numbers\<close>

definition digit :: "u8 \<Rightarrow> bool" where
  "digit c = (48 \<le> c \<and> c \<le> 57)"

lemma atoi_from_append: "list_all digit a \<Longrightarrow> atoi_from n (a @ b) = atoi_from (atoi_from n a) b"
  by (induction a arbitrary: n) (auto simp: digit_def)

lemma unat_of_nat8: "n < 256 \<Longrightarrow> unat (of_nat n :: u8) = n"
  by (simp add: unsigned_of_nat take_bit_nat_eq_self)

lemma digit_nth:
  assumes "k < 10"
  shows "digit (digits ! k)" and "ucast (digits ! k) = (48 :: u32) + of_nat k"
proof -
  have "digits ! k = of_nat (48 + k)"
    using assms by (auto simp: digits_def less_Suc_eq numeral_eq_Suc)
  moreover have "unat (of_nat (48 + k) :: u8) = 48 + k"
    by (rule unat_of_nat8) (use assms in simp)
  ultimately have n: "unat (digits ! k) = 48 + k" by simp
  then show "digit (digits ! k)" using assms by (simp add: digit_def word_le_nat_alt)
  have "ucast (digits ! k) = (of_nat (unat (digits ! k)) :: u32)" by simp
  then show "ucast (digits ! k) = (48 :: u32) + of_nat k" by (simp only: n of_nat_add of_nat_numeral)
qed

declare printint_loop.simps [simp del]

lemma last_digit: "(x div 10) * 10 + of_nat (unat (x mod 10)) = (x::u32)"
  by (simp add: word_mod_div_equality)

lemma printint_loop_step:
  fixes x :: u32
  defines "d \<equiv> digits ! unat (x mod 10)"
  assumes "i < length buf"
  shows "printint_loop digits 10 x i buf =
    (if x div 10 = 0 then Inr (Suc i, take i buf @ d # drop (Suc i) buf)
     else printint_loop digits 10 (x div 10) (Suc i) (take i buf @ d # drop (Suc i) buf))"
proof -
  have "unat (x mod 10) < length digits"
    by (simp add: unat_mod digits_def)
  then show ?thesis
    using assms by (subst printint_loop.simps) (simp add: upd_conv_take_nth_drop Let_def)
qed

lemma printint_loop_ok:
  assumes "unat x < 10 ^ Suc k" and "i + Suc k \<le> length buf"
  shows "\<exists>ds. printint_loop digits 10 x i buf = Inr (i + length ds, take i buf @ ds @ drop (i + length ds) buf)
           \<and> length ds \<le> Suc k \<and> ds \<noteq> [] \<and> list_all digit ds
           \<and> (\<forall>n. atoi_from n (rev ds) = n * 10 ^ length ds + x)"
  using assms
proof (induction k arbitrary: x i buf)
  case 0
  define d where "d = digits ! unat (x mod 10)"
  have z: "x div 10 = 0" using 0(1) by (simp add: unat_eq_zero unat_div flip: unat_eq_0)
  have d: "digit d" "ucast d = 48 + x"
    using digit_nth [of "unat (x mod 10)"] last_digit [of x] z by (simp_all add: d_def unat_mod)
  show ?case
    using 0 z d by (intro exI [of _ "[d]"]) (simp add: printint_loop_step digit_def flip: d_def)
next
  case (Suc k)
  define d where "d = digits ! unat (x mod 10)"
  define buf' where "buf' = take i buf @ d # drop (Suc i) buf"
  have "unat (x mod 10) < 10" by (simp add: unat_mod)
  then have d: "digit d" "ucast d = 48 + x mod 10"
    using digit_nth [of "unat (x mod 10)"] by (simp_all add: d_def)
  show ?case
  proof (cases "x div 10 = 0")
    case True
    then have "printint_loop digits 10 x i buf = Inr (Suc i, buf')"
      using Suc.prems by (simp add: printint_loop_step buf'_def d_def)
    moreover have "ucast d = 48 + x" using d(2) last_digit [of x] True by simp
    ultimately show ?thesis
      using d(1) by (intro exI [of _ "[d]"]) (simp add: buf'_def digit_def)
  next
    case False
    have "unat (x div 10) < 10 ^ Suc k" and "Suc i + Suc k \<le> length buf'"
      using Suc.prems by (simp_all add: unat_div buf'_def)
    then obtain ds where ds: "printint_loop digits 10 (x div 10) (Suc i) buf' =
        Inr (Suc i + length ds, take (Suc i) buf' @ ds @ drop (Suc i + length ds) buf')"
        "length ds \<le> Suc k" "list_all digit ds"
        "\<And>n. atoi_from n (rev ds) = n * 10 ^ length ds + x div 10"
      using Suc.IH by blast
    have "atoi_from n (rev (d # ds)) = n * 10 ^ length (d # ds) + x" for n
      using d last_digit [of x] ds(3,4)
      by (simp add: atoi_from_append list_all_rev digit_def algebra_simps)
    moreover have "printint_loop digits 10 x i buf = printint_loop digits 10 (x div 10) (Suc i) buf'"
      using Suc.prems False by (simp add: printint_loop_step [of i buf x] buf'_def d_def)
    moreover have "take (Suc i) buf' = take i buf @ [d]" "drop (Suc i + k) buf' = drop (Suc i + k) buf" for k
      using Suc.prems by (simp_all add: buf'_def add.commute)
    ultimately show ?thesis
      using ds(1,2,3) d(1) by (intro exI [of _ "d # ds"]) simp
  qed
qed


text \<open>
  C31. A 32-bit integer printed by \<open>printint\<close> in base 10 is read back by \<open>atoi\<close>: the text of a number that is not
  negative reads as that number, the text of a negative one is a minus sign followed by a text that reads as
  its absolute value (modulo \<open>2 ^ 32\<close>). The text has at most 11 bytes, so that the buffer of 16 suffices.
\<close>

theorem printint_atoi:
  "\<exists>ds. printint xx 10 True = Inr (if sint xx < 0 then 45 # ds else ds) \<and> ds \<noteq> [] \<and> length ds \<le> 10
      \<and> list_all digit ds \<and> atoi ds = (if sint xx < 0 then - xx else xx)"
proof -
  define x where "x = (if sint xx < 0 then - xx else xx)"
  have "unat x < 10 ^ Suc 9"
    using unat32_less [of x] by simp
  then obtain ds where ds: "printint_loop digits 10 x 0 (replicate 16 0) = Inr (length ds, ds @ replicate (16 - length ds) 0)"
      "length ds \<le> 10" "ds \<noteq> []" "list_all digit ds" "atoi_from 0 (rev ds) = x"
    using printint_loop_ok [of x 9 0 "replicate 16 0"] by auto
  moreover from ds(2) have "16 - length ds = Suc (15 - length ds)" by simp
  ultimately show ?thesis
    by (intro exI [of _ "rev ds"])
      (auto simp: printint_def atoi_def x_def list_all_rev Let_def list_update_append split: if_splits)
qed

end
