(* ===== verification/Grep.thy ===== *)
theory Grep
  imports Ulib Bytes
begin

text \<open>
  The pattern matcher of \<open>grep.c\<close> and the program around it: the buffer of 1024 bytes with its reading loop, the search for
  newlines in it, and \<open>main\<close>. Shown: the matcher decides the meaning of a pattern, given separately as a sequence of items
  (\<open>fits\<close>); on files with short lines grep prints exactly the matching lines; and a read that ends inside a line
  makes it lose the beginning of that line.
\<close>

section \<open>Searching for a pattern (grep.c)\<close>

subsection \<open>The matcher\<close>

text \<open>
  Both loops of the source test their condition after the body, and read the byte under \<open>text\<close> before they
  advance. A pattern or text pointer is the rest of the string, as in \<open>Ulib\<close>; the byte behind its end is
  zero (\<open>cur\<close>).
\<close>

function matchhere :: "u8 list \<Rightarrow> u8 list \<Rightarrow> bool"
  and matchstar :: "u8 \<Rightarrow> u8 list \<Rightarrow> u8 list \<Rightarrow> bool" where
  "matchhere re text =
     (if cur re = 0 then True
      else if cur (tl re) = 42 then matchstar (cur re) (tl (tl re)) text
      else if cur re = 36 \<and> cur (tl re) = 0 then cur text = 0
      else if cur text \<noteq> 0 \<and> (cur re = 46 \<or> cur re = cur text) then matchhere (tl re) (tl text)
      else False)"
| "matchstar c re text =
     (if matchhere re text then True
      else if cur text \<noteq> 0 \<and> (cur text = c \<or> c = 46) then matchstar c re (tl text)
      else False)"
  by pat_completeness auto
termination
  by (relation "measure (\<lambda>x. case x of Inl (re, text) \<Rightarrow> 2 * (length re + length text)
        | Inr (c, re, text) \<Rightarrow> Suc (2 * (length re + length text)))")
    (auto dest!: cur_nonzero simp: neq_Nil_conv)

fun match_from :: "u8 list \<Rightarrow> u8 list \<Rightarrow> bool" where
  "match_from re [] = matchhere re []"
| "match_from re (c # text) =
     (if matchhere re (c # text) then True else if c \<noteq> 0 then match_from re text else False)"

definition match :: "u8 list \<Rightarrow> u8 list \<Rightarrow> bool" where
  "match re text = (if cur re = 94 then matchhere (tl re) text else match_from re text)"

subsection \<open>The program\<close>

text \<open>
  \<open>strchr(p, '\n')\<close> in the buffer, as an index. The buffer holds a zero byte behind its contents when it is searched.
\<close>

definition find_newline :: "u8 list \<Rightarrow> nat \<Rightarrow> nat option" where
  "find_newline buf p = map_option (\<lambda>r. length buf - length r) (strchr (drop p buf) 10)"

lemma strchr_length: "strchr s c = Some r \<Longrightarrow> length r \<le> length s \<and> 0 < length r"
  by (induction s) (auto split: if_splits)

lemma find_newline_bounds:
  assumes "find_newline buf p = Some q"
  shows "p \<le> q \<and> q < length buf"
proof -
  obtain r where r: "strchr (drop p buf) 10 = Some r" "q = length buf - length r"
    using assms by (auto simp: find_newline_def)
  show ?thesis using strchr_length [OF r(1)] unfolding r(2) length_drop by arith
qed

function grep_lines :: "u8 list \<Rightarrow> nat \<Rightarrow> u8 list \<Rightarrow> u8 list \<Rightarrow> nat \<times> u8 list \<times> u8 list" where
  "grep_lines pattern p buf out =
     (case find_newline buf p of
        None \<Rightarrow> (p, buf, out)
      | Some q \<Rightarrow>
          let buf = buf[q := 0]
          in if match pattern (drop p buf)
             then let buf = buf[q := 10]
                  in grep_lines pattern (q + 1) buf (out @ take (q + 1 - p) (drop p buf))
             else grep_lines pattern (q + 1) buf out)"
  by pat_completeness auto
termination
  by (relation "measure (\<lambda>(pattern, p, buf, out). length buf - p)") (auto dest: find_newline_bounds)

declare grep_lines.simps [simp del]

text \<open>
  The reading loop. \<open>rd\<close> is the system call \<open>read\<close> on the file: from the state of the file and the number of bytes wanted it
  gives the bytes read, none at the end of the file or for an error. The output is the list of bytes written to the standard
  output. What is left of the last line moves to the front of the buffer; a buffer without any newline is dropped.
\<close>

fun grep :: "nat \<Rightarrow> ('f \<Rightarrow> nat \<Rightarrow> u8 list \<times> 'f) \<Rightarrow> u8 list \<Rightarrow> nat \<Rightarrow> u8 list \<Rightarrow> 'f \<Rightarrow> u8 list \<Rightarrow> (u8 list \<times> u8 list) res" where
  "grep 0 rd pattern m buf f out = Inl Diverges"
| "grep (Suc fuel) rd pattern m buf f out =
     (case rd f (1024 - m - 1) of
        ([], f) \<Rightarrow> Inr (out, buf)
      | (d, f) \<Rightarrow>
          let buf = put_bytes m d buf;
              m = m + length d
          in rbind (aset buf m 0) (\<lambda>buf.
             let (p, buf, out) = grep_lines pattern 0 buf out;
                 m = (if p = 0 then 0 else m)
             in if m > 0
                then grep fuel rd pattern (m - p) (put_bytes 0 (get_bytes p (m - p) buf) buf) f out
                else grep fuel rd pattern m buf f out))"

text \<open>
  \<open>main\<close>: \<open>opn\<close> is the system call \<open>open\<close>, \<open>None\<close> for a negative result, and \<open>con\<close> the standard input. The result is what is written to
  the standard output and to the standard error.
\<close>

definition ascii :: "string \<Rightarrow> u8 list" where
  "ascii s = map of_char s"

fun grep_files :: "nat \<Rightarrow> (u8 list \<Rightarrow> 'f option) \<Rightarrow> ('f \<Rightarrow> nat \<Rightarrow> u8 list \<times> 'f) \<Rightarrow> u8 list \<Rightarrow> u8 list list \<Rightarrow>
    u8 list \<Rightarrow> u8 list \<Rightarrow> u8 list res" where
  "grep_files fuel opn rd pattern [] buf out = Inr out"
| "grep_files fuel opn rd pattern (a # argv) buf out =
     (case opn a of
        None \<Rightarrow> Inr (out @ ascii ''grep: cannot open '' @ a @ [10])
      | Some f \<Rightarrow>
          rbind (grep fuel rd pattern 0 buf f out) (\<lambda>(out, buf).
          grep_files fuel opn rd pattern argv buf out))"

definition grep_main :: "nat \<Rightarrow> (u8 list \<Rightarrow> 'f option) \<Rightarrow> ('f \<Rightarrow> nat \<Rightarrow> u8 list \<times> 'f) \<Rightarrow> 'f \<Rightarrow> u8 list list \<Rightarrow>
    (u8 list \<times> u8 list) res" where
  "grep_main fuel opn rd con argv =
     (if length argv \<le> 1 then Inr ([], ascii ''usage: grep pattern [file ...]'' @ [10])
      else if length argv \<le> 2
      then rbind (grep fuel rd (argv ! 1) 0 (replicate 1024 0) con []) (\<lambda>(out, _). Inr (out, []))
      else rbind (grep_files fuel opn rd (argv ! 1) (drop 2 argv) (replicate 1024 0) []) (\<lambda>out. Inr (out, [])))"

definition file_read :: "u8 list \<Rightarrow> nat \<Rightarrow> u8 list \<times> u8 list" where
  "file_read f n = (take n f, drop n f)"

declare matchhere.simps [simp del] matchstar.simps [simp del]

subsection \<open>What a pattern means\<close>

text \<open>
  The reference: a pattern is a sequence of items, each one atom or a repeated atom, possibly anchored at
  the end. \<open>fits\<close> says which texts a sequence of items describes.
\<close>

datatype atom = Any | Byte u8

datatype item = One atom | Star atom

definition accepts :: "atom \<Rightarrow> u8 \<Rightarrow> bool" where
  "accepts a c = (case a of Any \<Rightarrow> True | Byte b \<Rightarrow> c = b)"

definition atom_of :: "u8 \<Rightarrow> atom" where
  "atom_of c = (if c = 46 then Any else Byte c)"

fun items :: "u8 list \<Rightarrow> item list \<times> bool" where
  "items [] = ([], False)"
| "items [c] = (if c = 36 then ([], True) else ([One (atom_of c)], False))"
| "items (c # d # re) =
     (if d = 42 then case items re of (is, e) \<Rightarrow> (Star (atom_of c) # is, e)
      else case items (d # re) of (is, e) \<Rightarrow> (One (atom_of c) # is, e))"

inductive fits :: "item list \<Rightarrow> u8 list \<Rightarrow> bool" where
  fits_Nil: "fits [] []"
| fits_One: "accepts a c \<Longrightarrow> fits is w \<Longrightarrow> fits (One a # is) (c # w)"
| fits_Star: "list_all (accepts a) u \<Longrightarrow> fits is w \<Longrightarrow> fits (Star a # is) (u @ w)"

inductive_cases fits_NilE: "fits [] w"
inductive_cases fits_OneE: "fits (One a # is) w"
inductive_cases fits_StarE: "fits (Star a # is) w"

definition fits_prefix :: "item list \<times> bool \<Rightarrow> u8 list \<Rightarrow> bool" where
  "fits_prefix p text = (\<exists>u v. text = u @ v \<and> fits (fst p) u \<and> (v = [] \<or> \<not> snd p))"

lemma fits_NilD [simp]: "fits [] w = (w = [])"
  by (auto intro: fits_Nil elim: fits_NilE)

lemma fits_prefixI: "fits is u \<Longrightarrow> v = [] \<or> \<not> e \<Longrightarrow> fits_prefix (is, e) (u @ v)"
  by (auto simp: fits_prefix_def)

lemma fits_prefixE:
  assumes "fits_prefix (is, e) s"
  obtains u v where "s = u @ v" and "fits is u" and "v = [] \<or> \<not> e"
  using assms by (auto simp: fits_prefix_def)

lemma fits_prefix_Nil: "fits_prefix ([], e) s = (s = [] \<or> \<not> e)"
  by (auto simp: fits_prefix_def)

lemma fits_One_iff: "fits (One a # is) s = (\<exists>c t. s = c # t \<and> accepts a c \<and> fits is t)"
  by (auto intro: fits_One elim: fits_OneE)

lemma fits_prefix_One:
  "fits_prefix (One a # is, e) s = (\<exists>c t. s = c # t \<and> accepts a c \<and> fits_prefix (is, e) t)"
proof
  assume "fits_prefix (One a # is, e) s"
  then show "\<exists>c t. s = c # t \<and> accepts a c \<and> fits_prefix (is, e) t"
    by (elim fits_prefixE fits_OneE) (auto intro: fits_prefixI)
next
  assume "\<exists>c t. s = c # t \<and> accepts a c \<and> fits_prefix (is, e) t"
  then obtain c u v where "s = (c # u) @ v" "accepts a c" "fits is u" "v = [] \<or> \<not> e"
    by (elim exE conjE fits_prefixE) auto
  then show "fits_prefix (One a # is, e) s"
    by (metis fits_One fits_prefixI)
qed

lemma fits_Star_split:
  "fits (Star a # is) s = (fits is s \<or> (\<exists>c t. s = c # t \<and> accepts a c \<and> fits (Star a # is) t))"
proof
  assume "fits (Star a # is) s"
  then obtain u w where "s = u @ w" "list_all (accepts a) u" "fits is w"
    by (elim fits_StarE)
  then show "fits is s \<or> (\<exists>c t. s = c # t \<and> accepts a c \<and> fits (Star a # is) t)"
    by (cases u) (auto intro: fits_Star)
next
  assume "fits is s \<or> (\<exists>c t. s = c # t \<and> accepts a c \<and> fits (Star a # is) t)"
  then show "fits (Star a # is) s"
  proof (elim disjE exE conjE)
    assume "fits is s"
    then show ?thesis using fits_Star [of a "[]"] by simp
  next
    fix c t
    assume "s = c # t" "accepts a c" "fits (Star a # is) t"
    then show ?thesis by (elim fits_StarE) (use fits_Star [of a "c # u" for u] in auto)
  qed
qed

lemma fits_prefix_Star:
  "fits_prefix (Star a # is, e) s =
     (fits_prefix (is, e) s \<or> (\<exists>c t. s = c # t \<and> accepts a c \<and> fits_prefix (Star a # is, e) t))"
  (is "?l = ?r")
proof
  assume ?l
  then obtain u v where u: "s = u @ v" "fits (Star a # is) u" "v = [] \<or> \<not> e"
    by (elim fits_prefixE)
  then consider "fits is u" | c t where "u = c # t" "accepts a c" "fits (Star a # is) t"
    using fits_Star_split by blast
  then show ?r
    using u by cases (auto intro: fits_prefixI)
next
  assume ?r
  then show ?l
  proof (elim disjE exE conjE)
    assume "fits_prefix (is, e) s"
    then show ?l by (elim fits_prefixE) (metis fits_Star_split fits_prefixI)
  next
    fix c t assume c: "s = c # t" "accepts a c" and "fits_prefix (Star a # is, e) t"
    then obtain u v where "t = u @ v" "fits (Star a # is) (c # u)" "v = [] \<or> \<not> e"
      by (elim fits_prefixE) (metis fits_Star_split)
    then show ?l using c fits_prefixI [of "Star a # is" "c # u" v e] by simp
  qed
qed

lemma items_Star: "items (c # 42 # re) = (Star (atom_of c) # fst (items re), snd (items re))"
  by (simp split: prod.split)

lemma items_One: "d \<noteq> 42 \<Longrightarrow> items (c # d # re) = (One (atom_of c) # fst (items (d # re)), snd (items (d # re)))"
  by (simp split: prod.split)

lemma accepts_atom_of: "accepts (atom_of a) c = (a = 46 \<or> a = c)"
  by (auto simp: accepts_def atom_of_def)

lemma matcher_fits:
  "0 \<notin> set re \<Longrightarrow> 0 \<notin> set t \<Longrightarrow> matchhere re t = fits_prefix (items re) t"
  "0 \<notin> set re \<Longrightarrow> 0 \<notin> set t \<Longrightarrow>
     matchstar c re t = fits_prefix (Star (atom_of c) # fst (items re), snd (items re)) t"
proof (induction re t and c re t rule: matchhere_matchstar.induct)
  case (1 re t)
  show ?case
  proof (cases re rule: items.cases)
    case 1
    then show ?thesis by (simp add: matchhere.simps fits_prefix_Nil)
  next
    case (2 c)
    then show ?thesis
      using "1.prems" by (cases t) (auto simp: matchhere.simps fits_prefix_Nil fits_prefix_One accepts_atom_of)
  next
    case (3 c d re')
    show ?thesis
    proof (cases "d = 42")
      case True
      then show ?thesis
        using 3 "1.prems" "1.IH"(1) by (subst matchhere.simps) (simp add: items_Star del: items.simps)
    next
      case False
      show ?thesis
      proof (cases t)
        case Nil
        then show ?thesis
          using 3 False "1.prems" by (simp add: matchhere.simps items_One fits_prefix_One del: items.simps)
      next
        case (Cons x t')
        then show ?thesis
          using 3 False "1.prems" "1.IH"(2)
          by (subst matchhere.simps) (auto simp: items_One fits_prefix_One accepts_atom_of simp del: items.simps)
      qed
    qed
  qed
next
  case (2 c re t)
  show ?case
  proof (cases t)
    case Nil
    then show ?thesis
      using 2 by (subst matchstar.simps, subst fits_prefix_Star) simp
  next
    case (Cons x t')
    then show ?thesis
      using 2 by (subst matchstar.simps, subst fits_prefix_Star) (auto simp: accepts_atom_of)
  qed
qed


definition pattern_matches :: "u8 list \<Rightarrow> u8 list \<Rightarrow> bool" where
  "pattern_matches re s =
     (let anchored = (cur re = 94); (is, at_end) = items (if anchored then tl re else re)
      in \<exists>u v w. s = u @ v @ w \<and> fits is v \<and> (u = [] \<or> \<not> anchored) \<and> (w = [] \<or> \<not> at_end))"

lemma match_from_fits:
  "0 \<notin> set re \<Longrightarrow> 0 \<notin> set s \<Longrightarrow>
     match_from re s = (\<exists>w t. s = w @ t \<and> fits_prefix (items re) t)"
proof (induction s)
  case Nil
  then show ?case by (simp add: matcher_fits)
next
  case (Cons c s)
  have "match_from re (c # s) = (fits_prefix (items re) (c # s) \<or> (\<exists>w t. s = w @ t \<and> fits_prefix (items re) t))"
    using Cons by (simp add: matcher_fits)
  also have "\<dots> = (\<exists>w t. c # s = w @ t \<and> fits_prefix (items re) t)"
    by (auto simp: Cons_eq_append_conv)
  finally show ?case .
qed

text \<open>
  C32. The matcher of grep decides the meaning of the pattern.
\<close>

theorem match_correct:
  assumes "0 \<notin> set re" and "0 \<notin> set s"
  shows "match re s = pattern_matches re s"
proof (cases "cur re = 94")
  case True
  then have "0 \<notin> set (tl re)" using assms(1) by (cases re) auto
  then show ?thesis
    using True assms(2)
    by (auto simp: match_def pattern_matches_def matcher_fits fits_prefix_def split: prod.split)
next
  case False
  then show ?thesis
    using assms by (auto simp: match_def pattern_matches_def match_from_fits fits_prefix_def split: prod.split)
qed


subsection \<open>What grep prints\<close>

text \<open>The lines of a file: those that end in a newline, and the part behind the last newline.\<close>

fun line_split :: "u8 list \<Rightarrow> u8 list \<Rightarrow> u8 list list \<times> u8 list" where
  "line_split acc [] = ([], acc)"
| "line_split acc (c # s) =
     (if c = 10 then case line_split [] s of (ls, t) \<Rightarrow> (acc # ls, t) else line_split (acc @ [c]) s)"

definition matching_lines :: "u8 list \<Rightarrow> u8 list list \<Rightarrow> u8 list" where
  "matching_lines pattern ls = concat (map (\<lambda>l. l @ [10]) (filter (match pattern) ls))"

lemma line_split_append:
  "line_split acc (s @ t) = (fst (line_split acc s) @ fst (line_split (snd (line_split acc s)) t),
     snd (line_split (snd (line_split acc s)) t))"
  by (induction acc s rule: line_split.induct) (auto split: prod.splits)

lemma line_split_none: "10 \<notin> set s \<Longrightarrow> line_split acc s = ([], acc @ s)"
  by (induction s arbitrary: acc) auto

lemma line_split_line: "10 \<notin> set l \<Longrightarrow> line_split [] (l @ 10 # s) = (l # fst (line_split [] s), snd (line_split [] s))"
  by (simp add: line_split_append line_split_none split: prod.split)

lemma line_split_rest: "10 \<notin> set acc \<Longrightarrow> 10 \<notin> set (snd (line_split acc s))"
  by (induction acc s rule: line_split.induct) (auto split: prod.splits)

lemma line_split_set: "set (snd (line_split acc s)) \<subseteq> set acc \<union> set s"
  by (induction acc s rule: line_split.induct) (auto split: prod.splits)

lemma matching_lines_simps [simp]:
  "matching_lines pattern [] = []"
  "matching_lines pattern (l # ls) = (if match pattern l then l @ [10] else []) @ matching_lines pattern ls"
  "matching_lines pattern (ls @ ls') = matching_lines pattern ls @ matching_lines pattern ls'"
  by (simp_all add: matching_lines_def)

lemma matcher_stops:
  "matchhere re (t @ 0 # r) = matchhere re t"
  "matchstar c re (t @ 0 # r) = matchstar c re t"
proof (induction re t and c re t rule: matchhere_matchstar.induct)
  case (1 re t)
  have cur: "cur (t @ 0 # r) = cur t" by (cases t) auto
  have tl: "tl (t @ 0 # r) = tl t @ 0 # r" if "cur t \<noteq> 0" using that by (cases t) auto
  show ?case
    unfolding matchhere.simps [of re "t @ 0 # r"] matchhere.simps [of re t] cur
    by (intro if_cong refl) (use 1 tl in auto)
next
  case (2 c re t)
  have cur: "cur (t @ 0 # r) = cur t" by (cases t) auto
  have tl: "tl (t @ 0 # r) = tl t @ 0 # r" if "cur t \<noteq> 0" using that by (cases t) auto
  show ?case
    unfolding matchstar.simps [of c re "t @ 0 # r"] matchstar.simps [of c re t] cur 2(1)
    by (intro if_cong refl) (use 2(2) tl in auto)
qed

lemma match_stops: "match re (t @ 0 # r) = match re t"
proof -
  have "match_from re (t @ 0 # r) = match_from re t" 
    by (induction t) (simp_all add: matcher_stops(1) [of re "c # t" for c t, simplified] matcher_stops(1) [of re "[]", simplified])
  then show ?thesis by (simp add: match_def matcher_stops)
qed

lemma strchr_found: "10 \<notin> set l \<Longrightarrow> 0 \<notin> set l \<Longrightarrow> strchr (l @ 10 # r) 10 = Some (10 # r)"
  by (induction l) auto

lemma strchr_absent: "10 \<notin> set l \<Longrightarrow> strchr (l @ 0 # r) 10 = None"
  by (induction l) auto

lemma grep_lines_ok:
  assumes "0 \<notin> set c"
  shows "\<exists>z'. grep_lines pattern (length z) (z @ c @ 0 # r) out =
      (length z', z' @ snd (line_split [] c) @ 0 # r, out @ matching_lines pattern (fst (line_split [] c)))
    \<and> length z' + length (snd (line_split [] c)) = length z + length c
    \<and> (10 \<in> set c \<longrightarrow> length z < length z')"
  using assms
proof (induction "length c" arbitrary: c z out rule: less_induct)
  case less
  show ?case
  proof (cases "10 \<in> set c")
    case False
    then show ?thesis
      by (intro exI [of _ z]) (simp add: grep_lines.simps find_newline_def strchr_absent line_split_none)
  next
    case True
    then obtain l c' where c: "c = l @ 10 # c'" "10 \<notin> set l" by (meson split_list_first)
    define x :: u8 where "x = (if match pattern l then 10 else 0)"
    have q: "find_newline (z @ l @ 10 # c' @ 0 # r) (length z) = Some (length z + length l)"
      using c less.prems by (simp add: find_newline_def strchr_found)
    define out' where "out' = out @ (if match pattern l then l @ [10] else [])"
    have step: "grep_lines pattern (length z) (z @ c @ 0 # r) out =
        grep_lines pattern (length (z @ l @ [x])) ((z @ l @ [x]) @ c' @ 0 # r) out'"
      unfolding c(1) by (subst grep_lines.simps) (simp add: q match_stops list_update_append x_def out'_def)
    have "length c' < length c" and "0 \<notin> set c'" using c less.prems by auto
    then obtain z' where z': "grep_lines pattern (length (z @ l @ [x])) ((z @ l @ [x]) @ c' @ 0 # r) out' =
          (length z', z' @ snd (line_split [] c') @ 0 # r, out' @ matching_lines pattern (fst (line_split [] c')))"
        "length z' + length (snd (line_split [] c')) = length (z @ l @ [x]) + length c'"
        "10 \<in> set c' \<longrightarrow> length (z @ l @ [x]) < length z'"
      using less.hyps [of c' "z @ l @ [x]" out'] by blast
    have "length z < length z'"
      using z'(2,3) line_split_none [of c' "[]"] by (cases "10 \<in> set c'") auto
    then show ?thesis
      unfolding step z'(1) using c z'(2)
      by (intro exI [of _ z']) (simp add: line_split_line out'_def)
  qed
qed


lemma line_split_long:
  "k \<le> length acc \<Longrightarrow> (\<exists>l \<in> set (fst (line_split acc s)). k \<le> length l) \<or> k \<le> length (snd (line_split acc s))"
  by (induction acc s rule: line_split.induct) (auto split: prod.splits)

definition short_lines :: "u8 list list \<times> u8 list \<Rightarrow> bool" where
  "short_lines p = (list_all (\<lambda>l. length l < 1023) (fst p) \<and> length (snd p) < 1023)"

lemma short_lines_rest:
  "short_lines (line_split w (d @ f)) \<Longrightarrow> short_lines (line_split (snd (line_split w d)) f)"
  by (simp add: short_lines_def line_split_append)

lemma short_linesD: "short_lines (line_split w f) \<Longrightarrow> length w < 1023"
  unfolding short_lines_def list_all_iff by (meson line_split_long not_le)

text \<open>One round of the reading loop, for a buffer that holds the unfinished line \<open>w\<close>.\<close>

lemma grep_step:
  assumes "take (length w) buf = w" and "length buf = 1024" and "10 \<notin> set w" and "0 \<notin> set (w @ d)"
    and "d \<noteq> []" and "length (w @ d) \<le> 1023" and "rd f (1023 - length w) = (d, f')"
  shows "\<exists>buf'. length buf' = 1024 \<and> (let t = (if 10 \<in> set d then snd (line_split w d) else [])
    in take (length t) buf' = t \<and>
       grep (Suc fuel) rd pattern (length w) buf f out =
         grep fuel rd pattern (length t) buf' f' (out @ matching_lines pattern (fst (line_split w d))))"
proof -
  define r where "r = drop (Suc (length (w @ d))) buf"
  define b where "b = drop (length (w @ d)) buf ! 0"
  have put: "put_bytes (length w) d buf = w @ d @ b # r"
    using assms by (simp add: put_bytes_def r_def b_def Cons_nth_drop_Suc)
  have split: "line_split [] (w @ d) = line_split w d"
    using assms(3) by (simp add: line_split_append line_split_none)
  obtain z' where z': "grep_lines pattern 0 (w @ d @ 0 # r) out = (length z', z' @ snd (line_split w d) @ 0 # r,
        out @ matching_lines pattern (fst (line_split w d)))"
      "length z' + length (snd (line_split w d)) = length (w @ d)" "10 \<in> set (w @ d) \<longrightarrow> 0 < length z'"
    using grep_lines_ok [of "w @ d" pattern "[]" r out] assms(4) by (auto simp: split)
  define t where "t = snd (line_split w d)"
  have head: "grep (Suc fuel) rd pattern (length w) buf f out =
      (if length z' = 0 then grep fuel rd pattern 0 (z' @ t @ 0 # r) f' (out @ matching_lines pattern (fst (line_split w d)))
       else grep fuel rd pattern (length (w @ d) - length z')
         (put_bytes 0 (get_bytes (length z') (length (w @ d) - length z') (z' @ t @ 0 # r)) (z' @ t @ 0 # r))
         f' (out @ matching_lines pattern (fst (line_split w d))))"
    using assms(5,6,7) put z'(1) by (cases d) (simp_all add: t_def Let_def list_update_append aset_def)
  have len: "length (z' @ t @ 0 # r) = 1024"
    using z'(2) assms(2,6) by (simp add: t_def r_def)
  show ?thesis
  proof (cases "10 \<in> set d")
    case True
    then have "z' \<noteq> []" using z'(3) by auto
    moreover have "length (w @ d) - length z' = length t" using z'(2) by (simp add: t_def)
    ultimately show ?thesis
      using head True len
      by (intro exI [of _ "t @ drop (length t) (z' @ t @ 0 # r)"])
        (simp add: put_bytes_def get_bytes_def flip: t_def)
  next
    case False
    then have "z' = []" using z'(2) line_split_none [of d w] by simp
    then show ?thesis
      using head False len by (intro exI [of _ "z' @ t @ 0 # r"]) simp
  qed
qed

lemma grep_loop_ok:
  assumes "0 \<notin> set (w @ f)" and "10 \<notin> set w" and "take (length w) buf = w" and "length buf = 1024"
    and "short_lines (line_split w f)" and "length f < fuel"
  shows "\<exists>buf'. length buf' = 1024 \<and> grep fuel file_read pattern (length w) buf f out =
    Inr (out @ matching_lines pattern (fst (line_split w f)), buf')"
  using assms
proof (induction fuel arbitrary: w f buf out)
  case (Suc fuel)
  have w: "length w < 1023" using Suc.prems(5) by (rule short_linesD)
  show ?case
  proof (cases "f = []")
    case True
    then show ?thesis using Suc.prems(4) by (simp add: file_read_def)
  next
    case False
    define d where "d = take (1023 - length w) f"
    define f' where "f' = drop (1023 - length w) f"
    define t where "t = (if 10 \<in> set d then snd (line_split w d) else [])"
    have f: "f = d @ f'" by (simp add: d_def f'_def)
    have rd: "file_read f (1023 - length w) = (d, f')" by (simp add: file_read_def d_def f'_def)
    have zero: "0 \<notin> set (w @ d)" using Suc.prems(1) by (auto simp: d_def dest: in_set_takeD)
    have d: "d \<noteq> []" "length (w @ d) \<le> 1023" using False w by (auto simp: d_def)
    from grep_step [where rd = file_read, OF Suc.prems(3,4,2) zero d rd, of fuel pattern out]
    obtain buf' where buf': "length buf' = 1024" "take (length t) buf' = t"
        "grep (Suc fuel) file_read pattern (length w) buf f out =
         grep fuel file_read pattern (length t) buf' f' (out @ matching_lines pattern (fst (line_split w d)))"
      unfolding Let_def t_def [symmetric] by (elim exE conjE)
    have rest: "short_lines (line_split (snd (line_split w d)) f')"
      using Suc.prems(5) unfolding f by (rule short_lines_rest)
    have "f' = []" if "10 \<notin> set d"
      using short_linesD [OF rest] line_split_none [OF that, of w] by (auto simp: d_def f'_def)
    then have t: "fst (line_split t f') = fst (line_split (snd (line_split w d)) f')"
      and short: "short_lines (line_split t f')"
      using rest by (auto simp: t_def short_lines_def)
    have shorter: "length f' < fuel" 
      using Suc.prems(6) w length_greater_0_conv [of f] False unfolding f'_def length_drop by arith
    have "10 \<notin> set t" using Suc.prems(2) line_split_rest by (simp add: t_def)
    moreover have "0 \<notin> set (t @ f')" using Suc.prems(1) line_split_set [of w d] by (auto simp: f t_def)
    ultimately have ih: "\<exists>buf''. length buf'' = 1024 \<and> grep fuel file_read pattern (length t) buf' f' out' =
        Inr (out' @ matching_lines pattern (fst (line_split t f')), buf'')" for out'
      by (intro Suc.IH buf' short shorter)
    have "fst (line_split w f) = fst (line_split w d) @ fst (line_split t f')"
      by (subst f) (simp add: line_split_append t)
    then show ?thesis
      using ih [of "out @ matching_lines pattern (fst (line_split w d))"] unfolding buf'(3) by simp
  qed
qed simp


lemma grep_files_ok:
  assumes "length buf = 1024" and "\<And>a. a \<in> set argv \<Longrightarrow> \<exists>f. opn a = Some f \<and> 0 \<notin> set f \<and> length f < fuel
    \<and> short_lines (line_split [] f)"
  shows "grep_files fuel opn file_read pattern argv buf out = Inr (out @
    concat (map (\<lambda>a. matching_lines pattern (fst (line_split [] (the (opn a))))) argv))"
  using assms
proof (induction argv arbitrary: buf out)
  case (Cons a argv)
  obtain f where f: "opn a = Some f" "0 \<notin> set f" "length f < fuel" "short_lines (line_split [] f)"
    using Cons.prems(2) [of a] by auto
  then obtain buf' where "length buf' = 1024" "grep fuel file_read pattern 0 buf f out =
      Inr (out @ matching_lines pattern (fst (line_split [] f)), buf')"
    using grep_loop_ok [of "[]" f buf fuel pattern out] Cons.prems(1) by auto
  then show ?case using Cons.IH [of buf'] Cons.prems(2) f(1) by simp
qed simp

text \<open>
  C33. Run on files without NUL bytes whose lines have fewer than 1023 bytes, grep ends and prints, file by file and in order,
  exactly the lines that match the pattern; a last line without a newline is not printed. A read returns as much as is
  wanted, up to the end of the file.
\<close>

theorem grep_prints:
  assumes "\<And>a. a \<in> set argv \<Longrightarrow> \<exists>f. opn a = Some f \<and> 0 \<notin> set f \<and> length f < fuel
    \<and> short_lines (line_split [] f)" and "argv \<noteq> []"
  shows "grep_main fuel opn file_read con (prog # pattern # argv) =
    Inr (concat (map (\<lambda>a. matching_lines pattern (fst (line_split [] (the (opn a))))) argv), [])"
  using grep_files_ok [of "replicate 1024 0" argv opn fuel pattern "[]"] assms by (simp add: grep_main_def Suc_le_eq)

text \<open>
  C34. A read that returns bytes without any newline while nothing is carried over from before, as from a pipe that is filled in the middle of a
  line, makes grep forget these bytes: the loop goes on as if they had not been read.
\<close>

theorem grep_forgets:
  assumes "rd f 1023 = (d, f')" and "d \<noteq> []" and "length d \<le> 1023" and "0 \<notin> set d" and "10 \<notin> set d" and "length buf = 1024"
  shows "\<exists>buf'. length buf' = 1024 \<and> grep (Suc fuel) rd pattern 0 buf f out = grep fuel rd pattern 0 buf' f' out"
  using grep_step [of "[]" buf d rd f f' fuel pattern out] assms by (simp add: line_split_none)

subsection \<open>Witnesses\<close>

theorem match_correct_witness:
  "0 \<notin> set (ascii ''^a.*d$'') \<and> 0 \<notin> set (ascii ''abcd'') \<and> pattern_matches (ascii ''^a.*d$'') (ascii ''abcd'')"
proof -
  have "match (ascii ''^a.*d$'') (ascii ''abcd'')" by code_simp
  moreover have "0 \<notin> set (ascii ''^a.*d$'')" "0 \<notin> set (ascii ''abcd'')" by code_simp+
  ultimately show ?thesis using match_correct [of "ascii ''^a.*d$''" "ascii ''abcd''"] by simp
qed

definition small_file :: "u8 list" where
  "small_file = ascii ''aa'' @ [10] @ ascii ''bc'' @ [10] @ ascii ''xab''"

theorem grep_prints_witness:
  "grep_main 20 (\<lambda>_. Some small_file) file_read [] [ascii ''grep'', ascii ''b'', ascii ''f''] = Inr (ascii ''bc'' @ [10], [])"
proof -
  have "0 \<notin> set small_file" and "length small_file < 20" and "short_lines (line_split [] small_file)"
    by code_simp+
  then have "grep_main 20 (\<lambda>_. Some small_file) file_read [] [ascii ''grep'', ascii ''b'', ascii ''f''] =
      Inr (concat (map (\<lambda>a. matching_lines (ascii ''b'') (fst (line_split [] (the (Some small_file))))) [ascii ''f'']), [])"
    by (intro grep_prints) auto
  moreover have "matching_lines (ascii ''b'') (fst (line_split [] small_file)) = ascii ''bc'' @ [10]"
    by code_simp
  ultimately show ?thesis by simp
qed

theorem grep_forgets_witness:
  "\<exists>buf'. length buf' = 1024 \<and> grep (Suc 5) (\<lambda>f n. (hd f, tl f)) (ascii ''ab'') 0 (replicate 1024 0) [ascii ''a'', ascii ''b'' @ [10], []] [] =
     grep 5 (\<lambda>f n. (hd f, tl f)) (ascii ''ab'') 0 buf' [ascii ''b'' @ [10], []] []"
  by (rule grep_forgets [of _ _ "ascii ''a''"]) code_simp+

end
