(* ===== verification/Rwlock_Spec.thy ===== *)
theory Rwlock_Spec
  imports Kernel_Prelude
begin

text \<open>
  The specification that the reader-writer lock of \<open>xem.c\<close> is shown to implement: its four functions with each of the semaphores
  \<open>in\<close>, \<open>mx\<close> and \<open>wrt\<close> as a flag that is taken and given back in one step. An invariant over all interleavings shows
  that a writer excludes the readers and the other writers, and that a semaphore is given back by a thread only while it is taken. It is
  \<open>Rwlock\<close> that models the code, with the semaphores of \<open>Xem\<close>, and that relates it to this specification.
\<close>

section \<open>The specification of the reader-writer locks\<close>

subsection \<open>The lock\<close>

datatype rwsem = In_sem | Mx_sem | Wrt_sem

text \<open>
  The program counters: \<open>A_\<close> and \<open>E_\<close> are the statements of \<open>rwlock_acquire_readlock\<close> and \<open>rwlock_release_readlock\<close>, \<open>B_\<close> and \<open>D_\<close> those of
  \<open>rwlock_acquire_writelock\<close> and \<open>rwlock_release_writelock\<close>; a \<open>u\<close> marks the release of a semaphore.
\<close>

datatype rwpc = Apart | A_in | A_mx | A_inc | A_test | A_wrt | A_umx | A_uin | Reading
  | E_mx | E_dec | E_test | E_uwrt | E_umx | B_in | B_wrt | Writing | D_uwrt | D_uin

record rwspec =
  taken :: "rwsem \<Rightarrow> bool"
  readers :: int
  spc :: "int \<Rightarrow> rwpc"

definition sgoto :: "int \<Rightarrow> rwpc \<Rightarrow> rwspec \<Rightarrow> rwspec" where
  "sgoto t p s = s\<lparr>spc := (spc s)(t := p)\<rparr>"

definition spec_wait :: "rwsem \<Rightarrow> int \<Rightarrow> rwpc \<Rightarrow> rwspec \<Rightarrow> rwspec option" where
  "spec_wait k t p s = (if taken s k then None else Some (sgoto t p (s\<lparr>taken := (taken s)(k := True)\<rparr>)))"

definition spec_unlock :: "rwsem \<Rightarrow> int \<Rightarrow> rwpc \<Rightarrow> rwspec \<Rightarrow> rwspec option" where
  "spec_unlock k t p s = Some (sgoto t p (s\<lparr>taken := (taken s)(k := False)\<rparr>))"

definition spec_acquire_readlock :: "int \<Rightarrow> rwspec \<Rightarrow> rwspec option" where
  "spec_acquire_readlock t s =
     (case spc s t of
        Apart \<Rightarrow> Some (sgoto t A_in s)
      | A_in \<Rightarrow> spec_wait In_sem t A_mx s
      | A_mx \<Rightarrow> spec_wait Mx_sem t A_inc s
      | A_inc \<Rightarrow> Some (sgoto t A_test (s\<lparr>readers := readers s + 1\<rparr>))
      | A_test \<Rightarrow> Some (sgoto t (if readers s = 1 then A_wrt else A_umx) s)
      | A_wrt \<Rightarrow> spec_wait Wrt_sem t A_umx s
      | A_umx \<Rightarrow> spec_unlock Mx_sem t A_uin s
      | A_uin \<Rightarrow> spec_unlock In_sem t Reading s
      | _ \<Rightarrow> None)"

definition spec_acquire_writelock :: "int \<Rightarrow> rwspec \<Rightarrow> rwspec option" where
  "spec_acquire_writelock t s =
     (case spc s t of
        Apart \<Rightarrow> Some (sgoto t B_in s)
      | B_in \<Rightarrow> spec_wait In_sem t B_wrt s
      | B_wrt \<Rightarrow> spec_wait Wrt_sem t Writing s
      | _ \<Rightarrow> None)"

definition spec_release_readlock :: "int \<Rightarrow> rwspec \<Rightarrow> rwspec option" where
  "spec_release_readlock t s =
     (case spc s t of
        Reading \<Rightarrow> Some (sgoto t E_mx s)
      | E_mx \<Rightarrow> spec_wait Mx_sem t E_dec s
      | E_dec \<Rightarrow> Some (sgoto t E_test (s\<lparr>readers := readers s - 1\<rparr>))
      | E_test \<Rightarrow> Some (sgoto t (if readers s = 0 then E_uwrt else E_umx) s)
      | E_uwrt \<Rightarrow> spec_unlock Wrt_sem t E_umx s
      | E_umx \<Rightarrow> spec_unlock Mx_sem t Apart s
      | _ \<Rightarrow> None)"

definition spec_release_writelock :: "int \<Rightarrow> rwspec \<Rightarrow> rwspec option" where
  "spec_release_writelock t s =
     (case spc s t of
        Writing \<Rightarrow> Some (sgoto t D_uwrt s)
      | D_uwrt \<Rightarrow> spec_unlock Wrt_sem t D_uin s
      | D_uin \<Rightarrow> spec_unlock In_sem t Apart s
      | _ \<Rightarrow> None)"

inductive spec_step :: "rwspec \<Rightarrow> rwspec \<Rightarrow> bool" where
  acquire_read: "spec_acquire_readlock t s = Some s' \<Longrightarrow> spec_step s s'"
| acquire_write: "spec_acquire_writelock t s = Some s' \<Longrightarrow> spec_step s s'"
| release_read: "spec_release_readlock t s = Some s' \<Longrightarrow> spec_step s s'"
| release_write: "spec_release_writelock t s = Some s' \<Longrightarrow> spec_step s s'"

definition spec_fresh :: rwspec where
  "spec_fresh = \<lparr>taken = (\<lambda>_. False), readers = 0, spc = (\<lambda>_. Apart)\<rparr>"

subsection \<open>The invariant\<close>

definition has_mx :: "rwpc \<Rightarrow> bool" where
  "has_mx p = (p \<in> {A_inc, A_test, A_wrt, A_umx, E_dec, E_test, E_uwrt, E_umx})"

definition rcounted :: "rwpc \<Rightarrow> bool" where
  "rcounted p = (p \<in> {A_test, A_wrt, A_umx, A_uin, Reading, E_mx, E_dec})"

definition rholds :: "rwpc \<Rightarrow> bool" where
  "rholds p = (p \<in> {A_umx, A_uin, Reading, E_mx, E_dec, E_test, E_uwrt})"

definition wholds :: "rwpc \<Rightarrow> bool" where
  "wholds p = (p \<in> {Writing, D_uwrt})"

definition mx_ok :: "(rwsem \<Rightarrow> bool) \<Rightarrow> (int \<Rightarrow> rwpc) \<Rightarrow> bool" where
  "mx_ok k p = ((\<forall>t. has_mx (p t) \<longrightarrow> k Mx_sem) \<and> (\<forall>t u. has_mx (p t) \<longrightarrow> has_mx (p u) \<longrightarrow> t = u))"

definition ctr_ok :: "int \<Rightarrow> (int \<Rightarrow> rwpc) \<Rightarrow> bool" where
  "ctr_ok n p = (finite {t. rcounted (p t)} \<and> n = int (card {t. rcounted (p t)}))"

definition wrt_ok :: "(rwsem \<Rightarrow> bool) \<Rightarrow> int \<Rightarrow> (int \<Rightarrow> rwpc) \<Rightarrow> bool" where
  "wrt_ok k n p = ((\<forall>t. rholds (p t) \<longrightarrow> k Wrt_sem \<and> (\<forall>u. \<not> wholds (p u))) \<and> (\<forall>t. wholds (p t) \<longrightarrow> k Wrt_sem) \<and>
     (\<forall>t u. wholds (p t) \<longrightarrow> wholds (p u) \<longrightarrow> t = u) \<and> (\<forall>t. p t = E_uwrt \<longrightarrow> n = 0))"

definition spec_inv :: "rwspec \<Rightarrow> bool" where
  "spec_inv s = (mx_ok (taken s) (spc s) \<and> ctr_ok (readers s) (spc s) \<and> wrt_ok (taken s) (readers s) (spc s))"

lemmas rwpc_defs = has_mx_def rcounted_def rholds_def wholds_def

lemma sgoto_sel [simp]: "taken (sgoto t p s) = taken s" "readers (sgoto t p s) = readers s" "spc (sgoto t p s) = (spc s)(t := p)"
  by (simp_all add: sgoto_def)

lemma mx_upd:
  assumes "mx_ok k p"
  shows "has_mx r \<longrightarrow> has_mx (p t) \<Longrightarrow> k' Mx_sem = k Mx_sem \<Longrightarrow> mx_ok k' (p(t := r))"
    and "\<not> k Mx_sem \<Longrightarrow> k' Mx_sem \<Longrightarrow> mx_ok k' (p(t := r))"
    and "has_mx (p t) \<Longrightarrow> \<not> has_mx r \<Longrightarrow> mx_ok k' (p(t := r))"
  using assms by (auto simp: mx_ok_def)

lemma ctr_upd:
  assumes "ctr_ok n p"
  shows "rcounted (p t) = rcounted r \<Longrightarrow> ctr_ok n (p(t := r))"
    and "\<not> rcounted (p t) \<Longrightarrow> rcounted r \<Longrightarrow> ctr_ok (n + 1) (p(t := r))"
    and "rcounted (p t) \<Longrightarrow> \<not> rcounted r \<Longrightarrow> ctr_ok (n - 1) (p(t := r))"
  using assms card_where_upd [of rcounted p t r] by (simp_all add: ctr_ok_def del: fun_upd_apply)

lemma wrt_upd:
  assumes "wrt_ok k n p" and "k' Wrt_sem = k Wrt_sem"
    and "rholds r \<Longrightarrow> rholds (p t) \<or> (\<exists>u. u \<noteq> t \<and> rholds (p u))" and "wholds r \<Longrightarrow> wholds (p t)"
    and "\<And>u. (p(t := r)) u = E_uwrt \<Longrightarrow> n' = 0"
  shows "wrt_ok k' n' (p(t := r))"
  using assms unfolding wrt_ok_def by (smt (verit) fun_upd_apply)


lemma rw_in [simp]: "spec_inv (s\<lparr>taken := (taken s)(In_sem := b)\<rparr>) = spec_inv s"
  by (simp add: spec_inv_def mx_ok_def wrt_ok_def)

lemma rw_goto:
  assumes "spec_inv s" and "has_mx r \<longrightarrow> has_mx (spc s t)" and "rcounted (spc s t) = rcounted r"
    and "rholds r \<longrightarrow> rholds (spc s t)" and "wholds r \<longrightarrow> wholds (spc s t)" and "r = E_uwrt \<longrightarrow> readers s = 0"
  shows "spec_inv (sgoto t r s)"
proof -
  have "mx_ok (taken s) ((spc s)(t := r))" using assms(1,2) by (intro mx_upd(1)) (auto simp: spec_inv_def)
  moreover have "ctr_ok (readers s) ((spc s)(t := r))" using assms(1,3) by (intro ctr_upd(1)) (auto simp: spec_inv_def)
  moreover have "wrt_ok (taken s) (readers s) ((spc s)(t := r))"
  proof (rule wrt_upd [of "taken s" "readers s"])
    show "readers s = 0" if "((spc s)(t := r)) u = E_uwrt" for u
      using assms(1,6) that unfolding spec_inv_def wrt_ok_def by (metis fun_upd_apply)
  qed (use assms in \<open>auto simp: spec_inv_def\<close>)
  ultimately show ?thesis by (simp add: spec_inv_def)
qed

lemma mx_only:
  assumes "spec_inv s" and "has_mx (spc s t)"
  shows "has_mx (spc s u) \<Longrightarrow> u = t" and "spc s u = E_uwrt \<Longrightarrow> u = t"
proof -
  show u: "u = t" if "has_mx (spc s u)" for u
    using that assms unfolding spec_inv_def mx_ok_def by blast
  show "u = t" if "spc s u = E_uwrt" using that by (intro u) (simp add: has_mx_def)
qed

lemma rw_count_step:
  assumes "spec_inv s" and "has_mx (spc s t)" and "has_mx r" and "rholds r = rholds (spc s t)" and "\<not> wholds r" and "r \<noteq> E_uwrt"
    and "ctr_ok n ((spc s)(t := r))"
  shows "spec_inv (sgoto t r (s\<lparr>readers := n\<rparr>))"
proof -
  have "mx_ok (taken s) ((spc s)(t := r))" using assms(1-3) by (intro mx_upd(1)) (auto simp: spec_inv_def)
  moreover have "wrt_ok (taken s) n ((spc s)(t := r))"
  proof (rule wrt_upd [of "taken s" "readers s"])
    show "n = 0" if "((spc s)(t := r)) u = E_uwrt" for u
      using mx_only(2) [OF assms(1,2), of u] assms(6) that by (auto split: if_splits)
  qed (use assms in \<open>auto simp: spec_inv_def\<close>)
  ultimately show ?thesis using assms(7) by (simp add: spec_inv_def)
qed

lemma rw_take_mx:
  assumes "spec_inv s" and "spec_wait Mx_sem t r s = Some s'"
    and "rcounted (spc s t) = rcounted r" and "rholds r = rholds (spc s t)" and "\<not> wholds r" and "r \<noteq> E_uwrt"
  shows "spec_inv s'"
proof -
  have free: "\<not> taken s Mx_sem" and s': "s' = sgoto t r (s\<lparr>taken := (taken s)(Mx_sem := True)\<rparr>)"
    using assms(2) by (auto simp: spec_wait_def split: if_splits)
  have "mx_ok ((taken s)(Mx_sem := True)) ((spc s)(t := r))"
    using assms(1) free by (intro mx_upd(2) [of "taken s"]) (auto simp: spec_inv_def)
  moreover have "ctr_ok (readers s) ((spc s)(t := r))" using assms(1,3) by (intro ctr_upd(1)) (auto simp: spec_inv_def)
  moreover have "wrt_ok ((taken s)(Mx_sem := True)) (readers s) ((spc s)(t := r))"
  proof (rule wrt_upd [of "taken s" "readers s"])
    show "readers s = 0" if "((spc s)(t := r)) u = E_uwrt" for u
      using assms(1,6) that unfolding spec_inv_def wrt_ok_def by (metis fun_upd_apply)
  qed (use assms in \<open>auto simp: spec_inv_def\<close>)
  ultimately show ?thesis by (simp add: spec_inv_def s')
qed


text \<open>The steps that change who holds \<open>wrt\<close>.\<close>

lemma join_readers:
  assumes "spec_inv s" and "spc s t = A_test" and "readers s \<noteq> 1"
  shows "spec_inv (sgoto t A_umx s)"
proof -
  have mx: "has_mx (spc s t)" using assms(2) by (simp add: has_mx_def)
  have fin: "finite {u. rcounted (spc s u)}" and "card {u. rcounted (spc s u)} \<noteq> 1"
    using assms(1,3) by (auto simp: spec_inv_def ctr_ok_def)
  then have "{u. rcounted (spc s u)} \<noteq> {t}" by auto
  moreover have "rcounted (spc s t)" using assms(2) by (simp add: rcounted_def)
  ultimately obtain u where u: "rcounted (spc s u)" "u \<noteq> t" by auto
  then have "rholds (spc s u)" using mx_only(1) [OF assms(1) mx, of u] by (auto simp: rwpc_defs)
  then have "wrt_ok (taken s) (readers s) ((spc s)(t := A_umx))"
    using assms(1) u mx_only(2) [OF assms(1) mx] assms(2)
    by (intro wrt_upd [of "taken s" "readers s"]) (auto simp: spec_inv_def rwpc_defs split: if_splits)
  moreover have "mx_ok (taken s) ((spc s)(t := A_umx))" "ctr_ok (readers s) ((spc s)(t := A_umx))"
    using assms(1,2) by (auto simp: spec_inv_def rwpc_defs intro!: mx_upd(1) ctr_upd(1))
  ultimately show ?thesis by (simp add: spec_inv_def)
qed

lemma take_wrt:
  assumes "spec_inv s" and "spec_wait Wrt_sem t r s = Some s'" and "spc s t = A_wrt \<and> r = A_umx \<or> spc s t = B_wrt \<and> r = Writing"
  shows "spec_inv s'"
proof -
  have free: "\<not> taken s Wrt_sem" and s': "s' = sgoto t r (s\<lparr>taken := (taken s)(Wrt_sem := True)\<rparr>)"
    using assms(2) by (auto simp: spec_wait_def split: if_splits)
  have none: "\<not> rholds (spc s u)" "\<not> wholds (spc s u)" for u
    using assms(1) free unfolding spec_inv_def wrt_ok_def by blast+
  have "mx_ok ((taken s)(Wrt_sem := True)) ((spc s)(t := r))"
    using assms(1,3) by (intro mx_upd(1) [of "taken s"]) (auto simp: spec_inv_def rwpc_defs)
  moreover have "ctr_ok (readers s) ((spc s)(t := r))"
    using assms(1,3) by (intro ctr_upd(1)) (auto simp: spec_inv_def rwpc_defs)
  moreover have "wrt_ok ((taken s)(Wrt_sem := True)) (readers s) ((spc s)(t := r))"
    using none assms(3) by (auto simp: wrt_ok_def rwpc_defs)
  ultimately show ?thesis by (simp add: spec_inv_def s')
qed

lemma free_wrt:
  assumes "spec_inv s" and "\<And>u. u \<noteq> t \<Longrightarrow> \<not> rholds (spc s u) \<and> \<not> wholds (spc s u)"
    and "spc s t = E_uwrt \<and> r = E_umx \<or> spc s t = D_uwrt \<and> r = D_uin"
  shows "spec_inv (sgoto t r (s\<lparr>taken := (taken s)(Wrt_sem := False)\<rparr>))"
proof -
  have "mx_ok ((taken s)(Wrt_sem := False)) ((spc s)(t := r))"
    using assms(1,3) by (intro mx_upd(1) [of "taken s"]) (auto simp: spec_inv_def rwpc_defs)
  moreover have "ctr_ok (readers s) ((spc s)(t := r))"
    using assms(1,3) by (intro ctr_upd(1)) (auto simp: spec_inv_def rwpc_defs)
  moreover have "wrt_ok ((taken s)(Wrt_sem := False)) (readers s) ((spc s)(t := r))"
    using assms(2,3) by (auto simp: wrt_ok_def rwpc_defs)
  ultimately show ?thesis by (simp add: spec_inv_def)
qed

lemma last_reader:
  assumes "spec_inv s" and "spc s t = E_uwrt" and "u \<noteq> t"
  shows "\<not> rholds (spc s u) \<and> \<not> wholds (spc s u)"
proof -
  have mx: "has_mx (spc s t)" using assms(2) by (simp add: has_mx_def)
  have "readers s = 0" using assms(1,2) unfolding spec_inv_def wrt_ok_def by blast
  then have "{u. rcounted (spc s u)} = {}" using assms(1) by (auto simp: spec_inv_def ctr_ok_def card_eq_0_iff)
  then have "\<not> rcounted (spc s u)" by blast
  moreover have "\<not> has_mx (spc s u)" using mx_only(1) [OF assms(1) mx] assms(3) by blast
  moreover have "\<not> wholds (spc s u)"
    using assms(1,2) unfolding spec_inv_def wrt_ok_def by (metis insertI1 insertI2 rholds_def)
  ultimately show ?thesis by (auto simp: rwpc_defs)
qed

lemma only_writer:
  assumes "spec_inv s" and "spc s t = D_uwrt" and "u \<noteq> t"
  shows "\<not> rholds (spc s u) \<and> \<not> wholds (spc s u)"
  using assms unfolding spec_inv_def wrt_ok_def by (metis insertI1 insertI2 wholds_def)

lemma free_mx:
  assumes "spec_inv s" and "has_mx (spc s t)" and "\<not> has_mx r" and "rcounted (spc s t) = rcounted r"
    and "rholds r \<longrightarrow> rholds (spc s t)" and "\<not> wholds r" and "r \<noteq> E_uwrt"
  shows "spec_inv (sgoto t r (s\<lparr>taken := (taken s)(Mx_sem := False)\<rparr>))"
proof -
  have "mx_ok ((taken s)(Mx_sem := False)) ((spc s)(t := r))"
    using assms(1-3) by (intro mx_upd(3) [of "taken s"]) (auto simp: spec_inv_def)
  moreover have "ctr_ok (readers s) ((spc s)(t := r))" using assms(1,4) by (intro ctr_upd(1)) (auto simp: spec_inv_def)
  moreover have "wrt_ok ((taken s)(Mx_sem := False)) (readers s) ((spc s)(t := r))"
  proof (rule wrt_upd [of "taken s" "readers s"])
    show "readers s = 0" if "((spc s)(t := r)) u = E_uwrt" for u
      using assms(1,7) that unfolding spec_inv_def wrt_ok_def by (metis fun_upd_apply)
  qed (use assms in \<open>auto simp: spec_inv_def\<close>)
  ultimately show ?thesis by (simp add: spec_inv_def)
qed

lemma acquire_read_inv:
  assumes "spec_inv s" and "spec_acquire_readlock t s = Some s'"
  shows "spec_inv s'"
proof (cases "spc s t")
  case A_mx
  then show ?thesis
    using assms rw_take_mx [OF assms(1), of t A_inc s'] by (auto simp: spec_acquire_readlock_def rwpc_defs)
next
  case A_inc
  then have "ctr_ok (readers s + 1) ((spc s)(t := A_test))"
    using assms(1) by (intro ctr_upd(2)) (auto simp: spec_inv_def rwpc_defs)
  then show ?thesis
    using assms A_inc rw_count_step [OF assms(1), of t A_test] by (auto simp: spec_acquire_readlock_def rwpc_defs)
next
  case A_test
  then show ?thesis
    using assms join_readers [OF assms(1) A_test] rw_goto [OF assms(1), of A_wrt t]
    by (auto simp: spec_acquire_readlock_def rwpc_defs split: if_splits)
next
  case A_wrt
  then show ?thesis using assms take_wrt [OF assms(1)] by (auto simp: spec_acquire_readlock_def)
next
  case A_umx
  then show ?thesis
    using assms free_mx [OF assms(1), of t A_uin] by (auto simp: spec_acquire_readlock_def spec_unlock_def rwpc_defs)
qed (use assms in \<open>auto simp: spec_acquire_readlock_def spec_wait_def spec_unlock_def rwpc_defs intro!: rw_goto split: if_splits\<close>)

lemma release_read_inv:
  assumes "spec_inv s" and "spec_release_readlock t s = Some s'"
  shows "spec_inv s'"
proof (cases "spc s t")
  case E_mx
  then show ?thesis
    using assms rw_take_mx [OF assms(1), of t E_dec s'] by (auto simp: spec_release_readlock_def rwpc_defs)
next
  case E_dec
  then have "ctr_ok (readers s - 1) ((spc s)(t := E_test))"
    using assms(1) by (intro ctr_upd(3)) (auto simp: spec_inv_def rwpc_defs)
  then show ?thesis
    using assms E_dec rw_count_step [OF assms(1), of t E_test] by (auto simp: spec_release_readlock_def rwpc_defs)
next
  case E_uwrt
  then show ?thesis
    using assms free_wrt [OF assms(1) last_reader [OF assms(1) E_uwrt], where r = E_umx]
    by (auto simp: spec_release_readlock_def spec_unlock_def)
next
  case E_umx
  then show ?thesis
    using assms free_mx [OF assms(1), of t Apart] by (auto simp: spec_release_readlock_def spec_unlock_def rwpc_defs)
qed (use assms in \<open>auto simp: spec_release_readlock_def rwpc_defs intro!: rw_goto split: if_splits\<close>)

lemma acquire_write_inv:
  assumes "spec_inv s" and "spec_acquire_writelock t s = Some s'"
  shows "spec_inv s'"
proof (cases "spc s t")
  case B_wrt
  then show ?thesis using assms take_wrt [OF assms(1)] by (auto simp: spec_acquire_writelock_def)
qed (use assms in \<open>auto simp: spec_acquire_writelock_def spec_wait_def rwpc_defs intro!: rw_goto split: if_splits\<close>)

lemma release_write_inv:
  assumes "spec_inv s" and "spec_release_writelock t s = Some s'"
  shows "spec_inv s'"
proof (cases "spc s t")
  case D_uwrt
  then show ?thesis
    using assms free_wrt [OF assms(1) only_writer [OF assms(1) D_uwrt], where r = D_uin]
    by (auto simp: spec_release_writelock_def spec_unlock_def)
qed (use assms in \<open>auto simp: spec_release_writelock_def spec_unlock_def rwpc_defs intro!: rw_goto\<close>)

lemma spec_fresh_inv: "spec_inv spec_fresh"
  by (simp add: spec_fresh_def spec_inv_def mx_ok_def ctr_ok_def wrt_ok_def rwpc_defs)

lemma spec_reach_inv: "spec_step\<^sup>*\<^sup>* spec_fresh s \<Longrightarrow> spec_inv s"
  by (induction rule: rtranclp_induct)
    (auto simp: spec_fresh_inv elim!: spec_step.cases
      intro: acquire_read_inv acquire_write_inv release_read_inv release_write_inv)


text \<open>The same for the semaphore \<open>in\<close>.\<close>

definition has_in :: "rwpc \<Rightarrow> bool" where
  "has_in p = (p \<in> {A_mx, A_inc, A_test, A_wrt, A_umx, A_uin, B_wrt, Writing, D_uwrt, D_uin})"

definition in_inv :: "rwspec \<Rightarrow> bool" where
  "in_inv s = ((\<forall>t. has_in (spc s t) \<longrightarrow> taken s In_sem) \<and> (\<forall>t u. has_in (spc s t) \<longrightarrow> has_in (spc s u) \<longrightarrow> t = u))"

lemma in_goto:
  assumes "in_inv s"
  shows "\<not> taken s In_sem \<Longrightarrow> f In_sem \<Longrightarrow> in_inv (sgoto t p (s\<lparr>taken := f\<rparr>))"
    and "has_in (spc s t) \<Longrightarrow> \<not> has_in p \<Longrightarrow> in_inv (sgoto t p (s\<lparr>taken := f\<rparr>))"
  using assms by (auto simp: in_inv_def)

lemma in_keep:
  assumes "in_inv s" and "has_in p \<longrightarrow> has_in (spc s t)"
  shows "in_inv (sgoto t p s)" and "in_inv (sgoto t p (s\<lparr>readers := n\<rparr>))" and "f In_sem = taken s In_sem \<Longrightarrow> in_inv (sgoto t p (s\<lparr>taken := f\<rparr>))"
  using assms by (auto simp: in_inv_def)

lemma spec_step_in:
  assumes "in_inv s" and "spec_step s s'"
  shows "in_inv s'"
  using assms(2)
proof cases
  case (acquire_read t)
  then show ?thesis
    using assms(1) by (auto simp: spec_acquire_readlock_def spec_wait_def spec_unlock_def has_in_def
        intro: in_keep in_goto split: rwpc.splits if_splits)
next
  case (acquire_write t)
  then show ?thesis
    using assms(1) by (auto simp: spec_acquire_writelock_def spec_wait_def spec_unlock_def has_in_def
        intro: in_keep in_goto split: rwpc.splits if_splits)
next
  case (release_read t)
  then show ?thesis
    using assms(1) by (auto simp: spec_release_readlock_def spec_wait_def spec_unlock_def has_in_def
        intro: in_keep in_goto split: rwpc.splits if_splits)
next
  case (release_write t)
  then show ?thesis
    using assms(1) by (auto simp: spec_release_writelock_def spec_wait_def spec_unlock_def has_in_def
        intro: in_keep in_goto split: rwpc.splits if_splits)
qed

lemma spec_reach_in: "spec_step\<^sup>*\<^sup>* spec_fresh s \<Longrightarrow> in_inv s"
proof (induction rule: rtranclp_induct)
  case base
  show ?case by (simp add: spec_fresh_def in_inv_def has_in_def)
qed (rule spec_step_in)

subsection \<open>What the specification promises\<close>

text \<open>The semaphore that the statement at a counter gives back.\<close>

fun unlock_sem :: "rwpc \<Rightarrow> rwsem option" where
  "unlock_sem A_umx = Some Mx_sem"
| "unlock_sem A_uin = Some In_sem"
| "unlock_sem E_uwrt = Some Wrt_sem"
| "unlock_sem E_umx = Some Mx_sem"
| "unlock_sem D_uwrt = Some Wrt_sem"
| "unlock_sem D_uin = Some In_sem"
| "unlock_sem _ = None"

lemma spec_unlocks_taken:
  assumes "spec_step\<^sup>*\<^sup>* spec_fresh s" and "unlock_sem (spc s t) = Some k"
  shows "taken s k"
proof -
  have "mx_ok (taken s) (spc s)" "wrt_ok (taken s) (readers s) (spc s)" and i: "in_inv s"
    using spec_reach_inv [OF assms(1)] spec_reach_in [OF assms(1)] by (simp_all add: spec_inv_def)
  then have "has_mx (spc s t) \<Longrightarrow> taken s Mx_sem" "rholds (spc s t) \<or> wholds (spc s t) \<Longrightarrow> taken s Wrt_sem"
    "has_in (spc s t) \<Longrightarrow> taken s In_sem"
    unfolding mx_ok_def wrt_ok_def in_inv_def by blast+
  then show ?thesis using assms(2) by (cases "spc s t") (auto simp: rwpc_defs has_in_def)
qed

lemma spec_exclusion:
  assumes "spec_step\<^sup>*\<^sup>* spec_fresh s" and "spc s t = Writing"
  shows "spc s u \<noteq> Reading \<and> (spc s u = Writing) = (u = t)"
proof -
  have "wrt_ok (taken s) (readers s) (spc s)" using spec_reach_inv [OF assms(1)] by (simp add: spec_inv_def)
  moreover have "wholds (spc s t)" "wholds Writing" "rholds Reading" using assms(2) by (simp_all add: rwpc_defs)
  ultimately show ?thesis unfolding wrt_ok_def by (metis assms(2))
qed

end
