(* ===== verification/Xem.thy ===== *)
theory Xem
  imports Kernel_Prelude
begin

text \<open>
  The semaphores of \<open>xem.c\<close>, which the user-level locks are made of: a guard word taken by an atomic exchange, a count, and a
  ring of the threads that wait in the kernel on a futex. The threads run concurrently; \<open>xem_wait\<close> and \<open>xem_unlock\<close> execute one statement
  of the C function of the same name for one thread, and \<open>xem_step\<close> lets any thread make its next step, or hand the right to unlock
  over to another. Shown, by an invariant over all interleavings: mutual exclusion; and that a wakeup can be lost, after which a
  thread sleeps forever.
\<close>

section \<open>User-level semaphores (xem.c)\<close>

subsection \<open>The ring of waiting threads\<close>

definition XEMQSZ :: nat where
  "XEMQSZ = 64"

definition UNUSED_TID :: int where
  "UNUSED_TID = -1"

record queue =
  qhead :: nat
  qrear :: nat
  slots :: "int list"

definition queue_init :: "queue \<Rightarrow> queue" where
  "queue_init q = q\<lparr>qhead := 0, qrear := 0, slots := replicate XEMQSZ UNUSED_TID\<rparr>"

definition queue_empty :: "queue \<Rightarrow> bool" where
  "queue_empty q = (qhead q = qrear q)"

text \<open>\<open>queue_add\<close> returns the address of the slot, here its index, or null.\<close>

definition queue_add :: "queue \<Rightarrow> int \<Rightarrow> nat option \<times> queue" where
  "queue_add q key =
     (let nxt = (qrear q + 1) mod XEMQSZ
      in if nxt \<noteq> qhead q
         then (Some (qrear q), q\<lparr>slots := (slots q)[qrear q := key], qrear := nxt\<rparr>)
         else (None, q))"

definition queue_head :: "queue \<Rightarrow> nat" where
  "queue_head q = qhead q"

definition queue_remove :: "queue \<Rightarrow> queue" where
  "queue_remove q = q\<lparr>slots := (slots q)[qhead q := UNUSED_TID], qhead := (qhead q + 1) mod XEMQSZ\<rparr>"

subsection \<open>The semaphore\<close>

record xem =
  guard :: int
  count :: int
  xq :: queue

definition xem_init :: "xem option \<Rightarrow> xem option \<times> int" where
  "xem_init sema =
     (case sema of
        None \<Rightarrow> (None, -1)
      | Some x \<Rightarrow> (Some (x\<lparr>guard := 0, count := 1, xq := queue_init (xq x)\<rparr>), 0))"

definition test_and_set :: "int \<Rightarrow> xem \<Rightarrow> int \<times> xem" where
  "test_and_set newval x = (guard x, x\<lparr>guard := newval\<rparr>)"

text \<open>
  The threads that share the semaphore run concurrently. The program counter of a thread says which statement it executes next:
  \<open>Outside\<close> is a thread that has not called \<open>xem_wait\<close>, or has returned from \<open>xem_unlock\<close>; \<open>Inside\<close> one
  whose \<open>xem_wait\<close> has returned 0; \<open>Failed\<close> one whose \<open>xem_wait\<close> has returned -1. The counters from \<open>W_guard\<close> on are those of
  \<open>xem_wait\<close>, in the order of the source, with the slot of the queue as an argument where the code holds it in \<open>addr\<close>;
  \<open>W_sleep\<close> is a thread that sleeps in the kernel. Those from \<open>U_guard\<close> on belong to \<open>xem_unlock\<close>.
\<close>

datatype xpc = Outside | W_guard | W_count | W_test | W_pass | W_add | W_free nat | W_futex nat | W_sleep nat
  | Inside | U_guard | U_count | U_test | U_wake | U_remove | U_free | Failed

record xsys =
  sem :: xem
  pc :: "int \<Rightarrow> xpc"
  held :: nat

definition goto :: "int \<Rightarrow> xpc \<Rightarrow> xsys \<Rightarrow> xsys" where
  "goto t p s = s\<lparr>pc := (pc s)(t := p)\<rparr>"

text \<open>
  The effect of the two futex calls on the threads that share the semaphore, each atomic because it runs under the lock of the
  futexes: \<open>futex_wait\<close> sleeps if the word still holds the value it was given, which here is the identifier of the caller, so that
  its second test (the value is the caller's identifier) holds; \<open>futex_wake\<close> wakes the thread whose identifier the word
  holds, if it sleeps. The kernel's side is modelled in \<open>Thread\<close>. In the kernel a thread sleeps on the address of its own \<open>struct proc\<close>, a
  channel that \<open>thread_exit\<close> and \<open>exit\<close> wake too; those wakeups are not part of the system below.
\<close>

definition xfutex_wait :: "int \<Rightarrow> nat \<Rightarrow> xsys \<Rightarrow> xsys" where
  "xfutex_wait t a s = goto t (if slots (xq (sem s)) ! a = t then W_sleep a else Inside) s"

definition xfutex_wake :: "nat \<Rightarrow> xsys \<Rightarrow> xsys" where
  "xfutex_wake a s =
     (let w = slots (xq (sem s)) ! a
      in case pc s w of W_sleep b \<Rightarrow> goto w Inside s | _ \<Rightarrow> s)"

definition take_guard :: "int \<Rightarrow> xpc \<Rightarrow> xsys \<Rightarrow> xsys" where
  "take_guard t p s =
     (let (r, x) = test_and_set 1 (sem s); s = s\<lparr>sem := x\<rparr>
      in if r = 1 then s else goto t p s)"

definition free_guard :: "xsys \<Rightarrow> xsys" where
  "free_guard s = s\<lparr>sem := (sem s)\<lparr>guard := 0\<rparr>\<rparr>"

definition xem_wait :: "int \<Rightarrow> xsys \<Rightarrow> xsys option" where
  "xem_wait t s =
     (case pc s t of
        Outside \<Rightarrow> Some (goto t W_guard s)
      | W_guard \<Rightarrow> Some (take_guard t W_count s)
      | W_count \<Rightarrow> Some (goto t W_test (s\<lparr>sem := (sem s)\<lparr>count := count (sem s) - 1\<rparr>\<rparr>))
      | W_test \<Rightarrow> Some (goto t (if count (sem s) \<ge> 0 then W_pass else W_add) s)
      | W_pass \<Rightarrow> Some (goto t Inside (free_guard s))
      | W_add \<Rightarrow>
          (case queue_add (xq (sem s)) t of
             (None, q) \<Rightarrow> Some (goto t Failed s)
           | (Some a, q) \<Rightarrow> Some (goto t (W_free a) (s\<lparr>sem := (sem s)\<lparr>xq := q\<rparr>\<rparr>)))
      | W_free a \<Rightarrow> Some (goto t (W_futex a) (free_guard s))
      | W_futex a \<Rightarrow> Some (xfutex_wait t a s)
      | _ \<Rightarrow> None)"

definition xem_unlock :: "int \<Rightarrow> xsys \<Rightarrow> xsys option" where
  "xem_unlock t s =
     (case pc s t of
        Inside \<Rightarrow> Some (goto t U_guard s)
      | U_guard \<Rightarrow> Some (take_guard t U_count s)
      | U_count \<Rightarrow> Some (goto t U_test (s\<lparr>sem := (sem s)\<lparr>count := count (sem s) + 1\<rparr>\<rparr>))
      | U_test \<Rightarrow> Some (goto t (if \<not> queue_empty (xq (sem s)) then U_wake else U_free) s)
      | U_wake \<Rightarrow> Some (goto t U_remove (xfutex_wake (queue_head (xq (sem s))) s))
      | U_remove \<Rightarrow> Some (goto t U_free (s\<lparr>sem := (sem s)\<lparr>xq := queue_remove (xq (sem s))\<rparr>\<rparr>))
      | U_free \<Rightarrow> Some (goto t Outside (free_guard s))
      | _ \<Rightarrow> None)"

definition fresh_xem :: xsys where
  "fresh_xem = \<lparr>sem = the (fst (xem_init (Some \<lparr>guard = 0, count = 0, xq = \<lparr>qhead = 0, qrear = 0, slots = []\<rparr>\<rparr>))),
     pc = (\<lambda>_. Outside), held = 0\<rparr>"

text \<open>
  The semaphore does not belong to a thread: one thread may return from \<open>xem_wait\<close> and another call the matching \<open>xem_unlock\<close>, which is how
  the last reader of a reader-writer lock unlocks what the first one has taken. \<open>held\<close> is auxiliary and counts the returns from
  \<open>xem_wait\<close> that are handed over in this way: \<open>give\<close> is a thread that leaves its return to the others, \<open>claim\<close> one that calls
  \<open>xem_unlock\<close> for such a return.
\<close>

definition give :: "int \<Rightarrow> xsys \<Rightarrow> xsys" where
  "give t s = goto t Outside (s\<lparr>held := held s + 1\<rparr>)"

definition claim :: "int \<Rightarrow> xsys \<Rightarrow> xsys" where
  "claim t s = goto t U_guard (s\<lparr>held := held s - 1\<rparr>)"

inductive xem_step :: "xsys \<Rightarrow> xsys \<Rightarrow> bool" where
  wait_step: "xem_wait t s = Some s' \<Longrightarrow> xem_step s s'"
| unlock_step: "xem_unlock t s = Some s' \<Longrightarrow> xem_step s s'"
| give_step: "pc s t = Inside \<Longrightarrow> xem_step s (give t s)"
| claim_step: "pc s t = Outside \<Longrightarrow> 0 < held s \<Longrightarrow> xem_step s (claim t s)"

subsection \<open>The ring as a list\<close>

definition ring_length :: "queue \<Rightarrow> nat" where
  "ring_length q = (qrear q + XEMQSZ - qhead q) mod XEMQSZ"

definition ring :: "queue \<Rightarrow> nat list" where
  "ring q = map (\<lambda>k. (qhead q + k) mod XEMQSZ) [0..<ring_length q]"

definition queue_ok :: "queue \<Rightarrow> bool" where
  "queue_ok q = (qhead q < XEMQSZ \<and> qrear q < XEMQSZ \<and> length (slots q) = XEMQSZ)"

lemma ring_length_eq:
  "queue_ok q \<Longrightarrow> ring_length q = (if qhead q \<le> qrear q then qrear q - qhead q else qrear q + 64 - qhead q)"
proof -
  assume q: "queue_ok q"
  then have "qhead q < 64" "qrear q < 64" by (simp_all add: queue_ok_def XEMQSZ_def)
  moreover have "(qrear q + 64 - qhead q) mod 64 = qrear q - qhead q" if "qhead q \<le> qrear q"
  proof -
    have "qrear q + 64 - qhead q = (qrear q - qhead q) + 64" using that by arith
    then show ?thesis using \<open>qrear q < 64\<close> by (simp only: mod_add_self2) simp
  qed
  ultimately show ?thesis by (auto simp: ring_length_def XEMQSZ_def)
qed

lemma next_slot: "(i::nat) < 64 \<Longrightarrow> (i + 1) mod 64 = (if i = 63 then 0 else i + 1)"
  by auto

lemma ring_empty: "queue_ok q \<Longrightarrow> queue_empty q = (ring q = [])"
  by (auto simp: ring_def queue_empty_def ring_length_eq queue_ok_def XEMQSZ_def)

lemma ring_bound: "a \<in> set (ring q) \<Longrightarrow> a < 64"
  by (auto simp: ring_def XEMQSZ_def)

lemma ring_length_less: "ring_length q < 64"
  by (simp add: ring_length_def XEMQSZ_def)

lemma ring_distinct: "distinct (ring q)"
proof -
  have "inj_on (\<lambda>k. (qhead q + k) mod 64) (set [0..<ring_length q])"
  proof (rule inj_onI)
    fix i j
    assume "i \<in> set [0..<ring_length q]" "j \<in> set [0..<ring_length q]" "(qhead q + i) mod 64 = (qhead q + j) mod 64"
    then show "i = j" using ring_length_less [of q] by (intro mod_shift_inj [of i 64 j "qhead q"]) auto
  qed
  then show ?thesis by (simp add: ring_def distinct_map XEMQSZ_def)
qed

lemma queue_add_ok:
  assumes "queue_ok q" and "queue_add q key = (Some a, q')"
  shows "queue_ok q'" and "ring q' = ring q @ [a]" and "a \<notin> set (ring q)" and "slots q' = (slots q)[a := key]"
    and "a < length (slots q)"
proof -
  have q': "a = qrear q" "q' = q\<lparr>slots := (slots q)[a := key], qrear := (qrear q + 1) mod 64\<rparr>" "(qrear q + 1) mod 64 \<noteq> qhead q"
    using assms(2) by (auto simp: queue_add_def Let_def XEMQSZ_def split: if_splits)
  have b: "qhead q < 64" "qrear q < 64" "length (slots q) = 64" using assms(1) by (auto simp: queue_ok_def XEMQSZ_def)
  show ok: "queue_ok q'" using b by (simp add: q' queue_ok_def XEMQSZ_def)
  have len: "ring_length q' = Suc (ring_length q)" "(qhead q + ring_length q) mod 64 = qrear q"
    using b q'(3) unfolding ring_length_eq [OF ok] ring_length_eq [OF assms(1)]
    by (auto simp: q'(2) next_slot simp del: One_nat_def)
  show app: "ring q' = ring q @ [a]"
    using len by (simp add: ring_def XEMQSZ_def q'(1)) (simp add: q'(2))
  show "a \<notin> set (ring q)" using ring_distinct [of q'] by (simp add: app)
  show "slots q' = (slots q)[a := key]" by (simp add: q'(2))
  show "a < length (slots q)" using b q'(1) by simp
qed

lemma queue_remove_ok:
  assumes "queue_ok q" and "ring q \<noteq> []"
  shows "queue_ok (queue_remove q)" and "ring (queue_remove q) = tl (ring q)" and "hd (ring q) = qhead q"
    and "slots (queue_remove q) = (slots q)[qhead q := -1]"
proof -
  have b: "qhead q < 64" "qrear q < 64" "length (slots q) = 64" using assms(1) by (auto simp: queue_ok_def XEMQSZ_def)
  have pos: "0 < ring_length q" using assms(2) by (simp add: ring_def)
  show ok: "queue_ok (queue_remove q)" using b by (simp add: queue_remove_def queue_ok_def XEMQSZ_def)
  have len: "ring_length (queue_remove q) = ring_length q - 1"
    using b pos unfolding ring_length_eq [OF ok] ring_length_eq [OF assms(1)]
    by (auto simp: queue_remove_def XEMQSZ_def next_slot simp del: One_nat_def)
  have up: "[0..<ring_length q] = 0 # map Suc [0..<ring_length q - 1]"
    using pos by (metis One_nat_def Suc_pred map_Suc_upt upt_conv_Cons)
  show "ring (queue_remove q) = tl (ring q)"
    unfolding ring_def len up by (simp add: queue_remove_def XEMQSZ_def mod_simps)
  show "hd (ring q) = qhead q" using b unfolding ring_def up by (simp add: XEMQSZ_def)
  show "slots (queue_remove q) = (slots q)[qhead q := -1]" by (simp add: queue_remove_def UNUSED_TID_def)
qed


lemma queue_add_slots:
  assumes "queue_ok q" and "queue_add q key = (Some a, q')"
  shows "b \<in> set (ring q) \<Longrightarrow> slots q' ! b = slots q ! b" and "map ((!) (slots q')) (ring q') = map ((!) (slots q)) (ring q) @ [key]"
proof -
  note q = queue_add_ok [OF assms]
  show slot: "slots q' ! b = slots q ! b" if "b \<in> set (ring q)" for b
    using q(3) that unfolding q(4) by (metis nth_list_update_neq)
  show "map ((!) (slots q')) (ring q') = map ((!) (slots q)) (ring q) @ [key]"
    using slot q(2,4,5) by simp
qed

lemma queue_remove_slots:
  assumes "queue_ok q" and "ring q \<noteq> []"
  shows "qhead q \<notin> set (tl (ring q))" and "b \<in> set (tl (ring q)) \<Longrightarrow> slots (queue_remove q) ! b = slots q ! b"
    and "map ((!) (slots q)) (ring q) = (slots q ! qhead q) # map ((!) (slots (queue_remove q))) (ring (queue_remove q))"
proof -
  note rm = queue_remove_ok [OF assms]
  show other: "qhead q \<notin> set (tl (ring q))"
    using ring_distinct [of q] rm(3) assms(2) by (cases "ring q") auto
  show slot: "slots (queue_remove q) ! b = slots q ! b" if "b \<in> set (tl (ring q))" for b
    using other that unfolding rm(4) by (metis nth_list_update_neq)
  show "map ((!) (slots q)) (ring q) = (slots q ! qhead q) # map ((!) (slots (queue_remove q))) (ring (queue_remove q))"
    using slot rm(2,3) assms(2) by (cases "ring q") auto
qed

subsection \<open>The invariant\<close>

definition guarded :: "xpc \<Rightarrow> bool" where
  "guarded p = (case p of W_count \<Rightarrow> True | W_test \<Rightarrow> True | W_pass \<Rightarrow> True | W_add \<Rightarrow> True | W_free _ \<Rightarrow> True
     | U_count \<Rightarrow> True | U_test \<Rightarrow> True | U_wake \<Rightarrow> True | U_remove \<Rightarrow> True | U_free \<Rightarrow> True | Failed \<Rightarrow> True | _ \<Rightarrow> False)"

definition counted :: "xpc \<Rightarrow> bool" where
  "counted p = (case p of W_test \<Rightarrow> True | W_pass \<Rightarrow> True | W_add \<Rightarrow> True | W_free _ \<Rightarrow> True | W_futex _ \<Rightarrow> True | W_sleep _ \<Rightarrow> True
     | Inside \<Rightarrow> True | U_guard \<Rightarrow> True | U_count \<Rightarrow> True | Failed \<Rightarrow> True | _ \<Rightarrow> False)"

definition undecided :: "xpc \<Rightarrow> bool" where
  "undecided p = (p = W_test \<or> p = W_add \<or> p = Failed)"

definition queued_at :: "nat \<Rightarrow> xpc \<Rightarrow> bool" where
  "queued_at a p = (p = W_free a \<or> p = W_futex a \<or> p = W_sleep a)"

definition waits :: "xpc \<Rightarrow> bool" where
  "waits p = (\<exists>a. queued_at a p)"

text \<open>The counters of a thread that has been woken while its entry is still in the queue: it cannot pass the guard.\<close>

definition stale :: "xpc \<Rightarrow> bool" where
  "stale p = (p = Outside \<or> p = W_guard \<or> p = Inside \<or> p = U_guard)"

definition entries :: "queue \<Rightarrow> int list" where
  "entries q = map (\<lambda>a. slots q ! a) (ring q)"

text \<open>The threads that own the semaphore; \<open>None\<close> stands for a return that has been handed over.\<close>

definition granted :: "queue \<Rightarrow> (int \<Rightarrow> xpc) \<Rightarrow> int set" where
  "granted q p = {t. counted (p t) \<and> \<not> undecided (p t) \<and> \<not> (waits (p t) \<and> t \<in> set (entries q))}"

definition owners :: "queue \<Rightarrow> (int \<Rightarrow> xpc) \<Rightarrow> nat \<Rightarrow> int option set" where
  "owners q p h = Some ` granted q p \<union> (if h = 0 then {} else {None})"

definition removing :: "(int \<Rightarrow> xpc) \<Rightarrow> bool" where
  "removing p = (\<exists>u. p u = U_remove)"

text \<open>An unlocking thread that has raised the count and has not yet passed the semaphore on.\<close>

definition passing :: "queue \<Rightarrow> (int \<Rightarrow> xpc) \<Rightarrow> int \<Rightarrow> bool" where
  "passing q p u = (p u = U_test \<or> p u = U_wake \<or> p u = U_remove \<and> waits (p (slots q ! qhead q)))"

definition ring_ok :: "queue \<Rightarrow> (int \<Rightarrow> xpc) \<Rightarrow> bool" where
  "ring_ok q p = (queue_ok q \<and> distinct (entries q) \<and>
     (\<forall>a \<in> set (ring q). queued_at a (p (slots q ! a)) \<or> a = qhead q \<and> stale (p (slots q ! a)) \<and> removing p))"

definition guard_ok :: "xem \<Rightarrow> (int \<Rightarrow> xpc) \<Rightarrow> bool" where
  "guard_ok x p = ((\<forall>t. guarded (p t) \<longrightarrow> guard x = 1) \<and> (\<forall>t u. guarded (p t) \<longrightarrow> guarded (p u) \<longrightarrow> t = u))"

definition count_ok :: "xem \<Rightarrow> (int \<Rightarrow> xpc) \<Rightarrow> nat \<Rightarrow> bool" where
  "count_ok x p h = (finite {t. counted (p t)} \<and> count x = 1 - int (card {t. counted (p t)}) - int h)"

definition one_ok :: "queue \<Rightarrow> (int \<Rightarrow> xpc) \<Rightarrow> nat \<Rightarrow> bool" where
  "one_ok q p h = (h \<le> 1 \<and> (\<forall>x \<in> owners q p h. \<forall>y \<in> owners q p h. x = y) \<and>
     (\<forall>u. passing q p u \<longrightarrow> owners q p h = {}) \<and> (\<forall>u. p u = U_wake \<or> p u = U_remove \<longrightarrow> ring q \<noteq> []))"

definition xinv :: "xsys \<Rightarrow> bool" where
  "xinv s = (guard_ok (sem s) (pc s) \<and> count_ok (sem s) (pc s) (held s) \<and> ring_ok (xq (sem s)) (pc s) \<and>
     one_ok (xq (sem s)) (pc s) (held s))"

lemmas pc_simps = guarded_def counted_def undecided_def queued_at_def stale_def

lemma waits_simps [simp]:
  "waits (W_free a)" "waits (W_futex a)" "waits (W_sleep a)" "\<not> waits Outside" "\<not> waits W_guard" "\<not> waits W_count" "\<not> waits W_test"
  "\<not> waits W_pass" "\<not> waits W_add" "\<not> waits Inside" "\<not> waits U_guard" "\<not> waits U_count" "\<not> waits U_test" "\<not> waits U_wake"
  "\<not> waits U_remove" "\<not> waits U_free" "\<not> waits Failed"
  by (auto simp: waits_def queued_at_def)

lemma count_upd:
  assumes "count_ok x p h"
  shows "counted (p t) = counted r \<Longrightarrow> count_ok x (p(t := r)) h"
    and "\<not> counted (p t) \<Longrightarrow> counted r \<Longrightarrow> count_ok (x\<lparr>count := count x - 1\<rparr>) (p(t := r)) h"
    and "counted (p t) \<Longrightarrow> \<not> counted r \<Longrightarrow> count_ok (x\<lparr>count := count x + 1\<rparr>) (p(t := r)) h"
    and "counted (p t) \<Longrightarrow> \<not> counted r \<Longrightarrow> count_ok x (p(t := r)) (h + 1)"
    and "\<not> counted (p t) \<Longrightarrow> counted r \<Longrightarrow> 0 < h \<Longrightarrow> count_ok x (p(t := r)) (h - 1)"
  using assms card_where_upd [of counted p t r] by (auto simp: count_ok_def simp del: fun_upd_apply)

lemma guard_upd:
  assumes "guard_ok x p"
  shows "guarded r \<longrightarrow> guarded (p t) \<Longrightarrow> guard y = guard x \<Longrightarrow> guard_ok y (p(t := r))"
    and "guarded (p t) \<Longrightarrow> \<not> guarded r \<Longrightarrow> guard_ok y (p(t := r))"
    and "guard x \<noteq> 1 \<Longrightarrow> guard y = 1 \<Longrightarrow> guard_ok y (p(t := r))"
  using assms by (auto simp: guard_ok_def)

lemma removing_upd: "removing p \<Longrightarrow> p t \<noteq> U_remove \<Longrightarrow> removing (p(t := r))"
  unfolding removing_def by (metis fun_upd_other)

lemma in_entries: "a \<in> set (ring q) \<Longrightarrow> slots q ! a \<in> set (entries q)"
  by (simp add: entries_def)

lemma ring_upd:
  assumes "ring_ok q p" and "\<And>a. queued_at a (p t) \<Longrightarrow> queued_at a r \<or> t \<notin> set (entries q)"
    and "stale (p t) \<Longrightarrow> stale r \<or> \<not> removing p" and "p t \<noteq> U_remove"
  shows "ring_ok q (p(t := r))"
  unfolding ring_ok_def
proof (intro conjI ballI)
  show "queue_ok q" "distinct (entries q)" using assms(1) by (simp_all add: ring_ok_def)
  fix a assume a: "a \<in> set (ring q)"
  have old: "queued_at a (p (slots q ! a)) \<or> a = qhead q \<and> stale (p (slots q ! a)) \<and> removing p"
    using assms(1) a by (simp add: ring_ok_def)
  show "queued_at a ((p(t := r)) (slots q ! a)) \<or> a = qhead q \<and> stale ((p(t := r)) (slots q ! a)) \<and> removing (p(t := r))"
    using old removing_upd [of p t r] assms(2) [of a] assms(3,4) in_entries [OF a] by auto
qed

lemma one_mono:
  assumes "one_ok q p h" and "owners q' p' h' \<subseteq> owners q p h" and "h' \<le> 1"
    and "\<And>u. passing q' p' u \<Longrightarrow> \<exists>v. passing q p v" and "\<And>u. p' u = U_wake \<or> p' u = U_remove \<Longrightarrow> ring q' \<noteq> []"
  shows "one_ok q' p' h'"
  unfolding one_ok_def
proof (intro conjI allI impI)
  show "\<forall>x \<in> owners q' p' h'. \<forall>y \<in> owners q' p' h'. x = y"
    using assms(1,2) unfolding one_ok_def by (meson subsetD)
  show "owners q' p' h' = {}" if "passing q' p' u" for u
    using assms(1,2) assms(4) [OF that] unfolding one_ok_def by (metis subset_empty)
qed (use assms in auto)

lemma one_upd:
  assumes "one_ok q p h" and "counted r \<and> \<not> undecided r \<Longrightarrow> counted (p t) \<and> \<not> undecided (p t)"
    and "waits (p t) \<Longrightarrow> waits r \<or> t \<notin> set (entries q) \<or> \<not> counted r" and "waits r \<Longrightarrow> waits (p t)"
    and "r = U_test \<or> r = U_wake \<or> r = U_remove \<Longrightarrow> passing q p t" and "r = U_wake \<or> r = U_remove \<Longrightarrow> ring q \<noteq> []"
  shows "one_ok q (p(t := r)) h"
proof (rule one_mono [OF assms(1)])
  show "owners q (p(t := r)) h \<subseteq> owners q p h" using assms(2,3) by (auto simp: owners_def granted_def)
  show "h \<le> 1" using assms(1) by (simp add: one_ok_def)
  show "\<exists>v. passing q p v" if "passing q (p(t := r)) u" for u
    using that assms(4,5) unfolding passing_def by (metis fun_upd_apply)
  show "ring q \<noteq> []" if "(p(t := r)) u = U_wake \<or> (p(t := r)) u = U_remove" for u
    using that assms(1,6) unfolding one_ok_def by (metis fun_upd_apply)
qed

lemma one_okI:
  assumes "\<And>x y. x \<in> owners q p h \<Longrightarrow> y \<in> owners q p h \<Longrightarrow> x = y" and "h \<le> 1"
    and "\<And>u. p u \<noteq> U_test \<and> p u \<noteq> U_wake \<and> p u \<noteq> U_remove"
  shows "one_ok q p h"
  using assms unfolding one_ok_def passing_def by blast

lemma one_okD: "one_ok q p h \<Longrightarrow> x \<in> owners q p h \<Longrightarrow> y \<in> owners q p h \<Longrightarrow> x = y"
  unfolding one_ok_def by blast

lemma granted_held:
  assumes "one_ok q p h" and "t \<in> granted q p"
  shows "h = 0" and "u \<in> granted q p \<Longrightarrow> u = t"
proof -
  have t: "Some t \<in> owners q p h" using assms(2) by (simp add: owners_def)
  show "h = 0" using one_okD [OF assms(1) t, of None] by (cases h) (auto simp: owners_def)
  show "u = t" if "u \<in> granted q p" using one_okD [OF assms(1) t, of "Some u"] that by (simp add: owners_def)
qed

lemma sem_fields [simp]:
  "guard_ok (x\<lparr>xq := q\<rparr>) p = guard_ok x p" "guard_ok (x\<lparr>count := n\<rparr>) p = guard_ok x p"
  "count_ok (x\<lparr>xq := q\<rparr>) p h = count_ok x p h" "count_ok (x\<lparr>guard := g\<rparr>) p h = count_ok x p h"
  by (simp_all add: guard_ok_def count_ok_def)

lemma guard_only:
  assumes "guard_ok x p" and "guarded (p t)"
  shows "guarded (p u) \<Longrightarrow> u = t" and "passing q p u \<Longrightarrow> u = t" and "removing p \<Longrightarrow> p t = U_remove" and "guard x = 1"
proof -
  show only: "u = t" if "guarded (p u)" for u using assms that unfolding guard_ok_def by blast
  show "u = t" if "passing q p u" using that by (intro only) (auto simp: passing_def guarded_def)
  show "p t = U_remove" if rm: "removing p"
  proof -
    obtain v where v: "p v = U_remove" using rm by (auto simp: removing_def)
    then have "v = t" by (intro only) (simp add: guarded_def)
    with v show ?thesis by simp
  qed
  show "guard x = 1" using assms unfolding guard_ok_def by blast
qed

lemma sole_guard:
  assumes "guard_ok x p" and "guarded (p t)" and "r \<noteq> U_test" "r \<noteq> U_wake" "r \<noteq> U_remove"
  shows "(p(t := r)) u \<noteq> U_test \<and> (p(t := r)) u \<noteq> U_wake \<and> (p(t := r)) u \<noteq> U_remove"
proof (cases "u = t")
  case False
  then have "\<not> guarded (p u)" using guard_only(1) [OF assms(1,2)] by blast
  with False show ?thesis by (auto simp: guarded_def)
qed (use assms in simp)

lemma goto_sel [simp]: "sem (goto t r s) = sem s" "pc (goto t r s) = (pc s)(t := r)" "held (goto t r s) = held s"
  "pc (s\<lparr>sem := x\<rparr>) = pc s" "sem (s\<lparr>sem := x\<rparr>) = x" "pc (free_guard s) = pc s" "sem (free_guard s) = (sem s)\<lparr>guard := 0\<rparr>"
  "held (free_guard s) = held s" "held (s\<lparr>sem := x\<rparr>) = held s"
  by (simp_all add: goto_def free_guard_def)

text \<open>What a thread must satisfy to move from its program counter to \<open>r\<close> without touching the queue or the count.\<close>

definition may_move :: "xsys \<Rightarrow> int \<Rightarrow> xpc \<Rightarrow> bool" where
  "may_move s t r = (counted (pc s t) = counted r \<and>
     ((\<forall>a. queued_at a (pc s t) \<longrightarrow> queued_at a r) \<or> t \<notin> set (entries (xq (sem s)))) \<and> (waits r \<longrightarrow> waits (pc s t)) \<and>
     (stale (pc s t) \<longrightarrow> stale r \<or> \<not> removing (pc s)) \<and> pc s t \<noteq> U_remove \<and>
     (counted r \<and> \<not> undecided r \<longrightarrow> \<not> undecided (pc s t)) \<and>
     (r = U_test \<or> r = U_wake \<or> r = U_remove \<longrightarrow> passing (xq (sem s)) (pc s) t) \<and>
     (r = U_wake \<or> r = U_remove \<longrightarrow> ring (xq (sem s)) \<noteq> []))"

lemma may_move_ok:
  assumes "xinv s" and "may_move s t r"
  shows "count_ok (sem s) ((pc s)(t := r)) (held s)" and "ring_ok (xq (sem s)) ((pc s)(t := r))"
    and "one_ok (xq (sem s)) ((pc s)(t := r)) (held s)"
proof -
  show "count_ok (sem s) ((pc s)(t := r)) (held s)" using assms unfolding xinv_def may_move_def by (blast intro: count_upd)
  show "ring_ok (xq (sem s)) ((pc s)(t := r))" using assms unfolding xinv_def may_move_def by (blast intro: ring_upd)
  show "one_ok (xq (sem s)) ((pc s)(t := r)) (held s)"
    using assms unfolding xinv_def may_move_def by (intro one_upd) (auto simp: waits_def)
qed

lemma xinv_goto: "xinv s \<Longrightarrow> may_move s t r \<Longrightarrow> guarded r \<longrightarrow> guarded (pc s t) \<Longrightarrow> xinv (goto t r s)"
  using may_move_ok [of s t r] guard_upd(1) [of "sem s" "pc s" r t "sem s"] by (simp add: xinv_def)

lemma xinv_free:
  "xinv s \<Longrightarrow> may_move s t r \<Longrightarrow> guarded (pc s t) \<Longrightarrow> \<not> guarded r \<Longrightarrow> xinv (goto t r (free_guard s))"
  using may_move_ok [of s t r] guard_upd(2) [of "sem s" "pc s" t r "(sem s)\<lparr>guard := 0\<rparr>"]
  by (simp add: xinv_def count_ok_def)

lemma xinv_take:
  assumes "xinv s" and "guard (sem s) \<noteq> 1 \<Longrightarrow> may_move s t r"
  shows "xinv (take_guard t r s)"
proof (cases "guard (sem s) = 1")
  case True
  then show ?thesis using assms(1) by (simp add: take_guard_def test_and_set_def xinv_def guard_ok_def count_ok_def)
next
  case False
  then show ?thesis
    using assms(1) may_move_ok [OF assms] guard_upd(3) [of "sem s" "pc s" "(sem s)\<lparr>guard := 1\<rparr>" t r]
    by (simp add: take_guard_def test_and_set_def xinv_def count_ok_def)
qed

lemma removing_guard:
  assumes "xinv s" and "removing (pc s)"
  shows "guard (sem s) = 1"
proof -
  obtain u where "pc s u = U_remove" using assms(2) by (auto simp: removing_def)
  then show ?thesis using guard_only(4) [of "sem s" "pc s" u] assms(1) by (simp add: xinv_def guarded_def)
qed

text \<open>The steps of \<open>xem_wait\<close>.\<close>

lemma wait_pass_ok:
  assumes "xinv s" and "pc s t = W_test" and "0 \<le> count (sem s)"
  shows "xinv (goto t W_pass s)"
proof -
  let ?p = "(pc s)(t := W_pass)"
  have inv: "guard_ok (sem s) (pc s)" "ring_ok (xq (sem s)) (pc s)" "one_ok (xq (sem s)) (pc s) (held s)"
    using assms(1) by (simp_all add: xinv_def)
  have fin: "finite {u. counted (pc s u)}" and one: "card {u. counted (pc s u)} + held s \<le> 1"
    using assms(1,3) by (auto simp: xinv_def count_ok_def)
  have t: "t \<in> {u. counted (pc s u)}" using assms(2) by (simp add: counted_def)
  then have "card {u. counted (pc s u)} \<noteq> 0" using fin by (metis card_0_eq empty_iff)
  then have "card {u. counted (pc s u)} \<le> 1" and none: "held s = 0" using one by auto
  then have only: "u = t" if "counted (pc s u)" for u
    using that t fin by (metis card_le_Suc0_iff_eq One_nat_def mem_Collect_eq)
  have "guard_ok (sem s) ?p" "count_ok (sem s) ?p (held s)"
    using assms(1,2) by (auto simp: xinv_def guarded_def counted_def intro!: guard_upd(1) count_upd(1))
  moreover have "ring_ok (xq (sem s)) ?p"
    using assms(2) by (intro ring_upd [OF inv(2)]) (auto simp: queued_at_def stale_def)
  moreover have "owners (xq (sem s)) ?p (held s) \<subseteq> {Some t}"
    using only none by (auto simp: owners_def granted_def split: if_splits)
  then have "one_ok (xq (sem s)) ?p (held s)"
    using none sole_guard [OF inv(1), of t W_pass] assms(2) by (intro one_okI) (auto simp: guarded_def simp del: fun_upd_apply)
  ultimately show ?thesis by (simp add: xinv_def)
qed

lemma not_queued:
  assumes "ring_ok q p" and "\<not> waits (p t)" and "stale (p t) \<longrightarrow> \<not> removing p"
  shows "t \<notin> set (entries q)"
  using assms unfolding ring_ok_def entries_def waits_def by auto

lemma queued_slot:
  assumes "ring_ok q p" and "queued_at a (p t)" and "slots q ! a \<noteq> t"
  shows "t \<notin> set (entries q)"
proof
  assume "t \<in> set (entries q)"
  then obtain b where b: "b \<in> set (ring q)" "slots q ! b = t" by (auto simp: entries_def)
  then have "queued_at b (p t) \<or> stale (p t)" using assms(1) unfolding ring_ok_def by metis
  then have "b = a" using assms(2) by (auto simp: queued_at_def stale_def)
  with b(2) assms(3) show False by simp
qed

lemma not_removing: "guard_ok x p \<Longrightarrow> guarded (p t) \<Longrightarrow> p t \<noteq> U_remove \<Longrightarrow> \<not> removing p"
  using guard_only(3) by blast

lemma wait_add_ok:
  assumes "xinv s" and "pc s t = W_add" and add: "queue_add (xq (sem s)) t = (Some a, q)"
  shows "xinv (goto t (W_free a) (s\<lparr>sem := (sem s)\<lparr>xq := q\<rparr>\<rparr>))"
proof -
  let ?q = "xq (sem s)" and ?p = "(pc s)(t := W_free a)"
  have inv: "guard_ok (sem s) (pc s)" "count_ok (sem s) (pc s) (held s)" "ring_ok ?q (pc s)" "one_ok ?q (pc s) (held s)"
    using assms(1) by (simp_all add: xinv_def)
  then have ok: "queue_ok ?q" by (simp add: ring_ok_def)
  note q = queue_add_ok [OF ok add]
  note slot = queue_add_slots(1) [OF ok add]
  have ent: "entries q = entries ?q @ [t]"
    unfolding entries_def by (rule queue_add_slots(2) [OF ok add])
  have new: "t \<notin> set (entries ?q)"
    using assms(2) by (intro not_queued [OF inv(3)]) (auto simp: stale_def)
  have gc: "guard_ok (sem s) ?p" "count_ok (sem s) ?p (held s)"
    using inv assms(2) by (auto simp: guarded_def counted_def intro!: guard_upd(1) count_upd(1))
  have gt: "guarded (pc s t)" using assms(2) by (simp add: guarded_def)
  then have nr: "\<not> removing (pc s)" using not_removing [OF inv(1), of t] assms(2) by simp
  then have old: "queued_at b (pc s (slots ?q ! b))" if "b \<in> set (ring ?q)" for b
    using inv(3) that by (auto simp: ring_ok_def)
  have "queued_at b (?p (slots q ! b))" if "b \<in> set (ring q)" for b
  proof (cases "b = a")
    case True
    then show ?thesis using q(4,5) by (simp add: queued_at_def)
  next
    case False
    then have b: "b \<in> set (ring ?q)" using that q(2) by simp
    then have "slots ?q ! b \<noteq> t" using new by (auto simp: entries_def)
    then show ?thesis using old [OF b] slot [OF b] by simp
  qed
  then have ring: "ring_ok q ?p"
    using q(1) new ent inv(3) by (simp add: ring_ok_def)
  have "owners q ?p (held s) \<subseteq> owners ?q (pc s) (held s)" by (auto simp: owners_def granted_def ent)
  moreover have "?p u \<noteq> U_test \<and> ?p u \<noteq> U_wake \<and> ?p u \<noteq> U_remove" for u
    using sole_guard [OF inv(1) gt] by simp
  ultimately have "one_ok q ?p (held s)"
    by (intro one_mono [OF inv(4)]) (use inv(4) in \<open>auto simp: passing_def one_ok_def simp del: fun_upd_apply\<close>)
  then show ?thesis using gc ring by (simp add: xinv_def)
qed

lemma wait_count_ok:
  assumes "xinv s" and "pc s t = W_count"
  shows "xinv (goto t W_test (s\<lparr>sem := (sem s)\<lparr>count := count (sem s) - 1\<rparr>\<rparr>))"
proof -
  have inv: "guard_ok (sem s) (pc s)" "count_ok (sem s) (pc s) (held s)" "ring_ok (xq (sem s)) (pc s)"
    "one_ok (xq (sem s)) (pc s) (held s)"
    using assms(1) by (simp_all add: xinv_def)
  have "guard_ok (sem s) ((pc s)(t := W_test))"
    using guard_upd(1) [OF inv(1)] assms(2) by (simp add: guarded_def)
  moreover have "count_ok ((sem s)\<lparr>count := count (sem s) - 1\<rparr>) ((pc s)(t := W_test)) (held s)"
    using count_upd(2) [OF inv(2)] assms(2) by (simp add: counted_def)
  moreover have "ring_ok (xq (sem s)) ((pc s)(t := W_test))"
    using assms(2) by (intro ring_upd [OF inv(3)]) (auto simp: queued_at_def stale_def)
  moreover have "one_ok (xq (sem s)) ((pc s)(t := W_test)) (held s)"
    using assms(2) by (intro one_upd [OF inv(4)]) (auto simp: undecided_def)
  ultimately show ?thesis by (simp add: xinv_def)
qed

lemma futex_wait_ok:
  assumes "xinv s" and "pc s t = W_futex a"
  shows "xinv (xfutex_wait t a s)"
proof -
  have "ring_ok (xq (sem s)) (pc s)" using assms(1) by (simp add: xinv_def)
  from queued_slot [OF this, of a t] have "slots (xq (sem s)) ! a \<noteq> t \<Longrightarrow> t \<notin> set (entries (xq (sem s)))"
    using assms(2) by (simp add: queued_at_def)
  then have "may_move s t (if slots (xq (sem s)) ! a = t then W_sleep a else Inside)"
    using assms(2) by (auto simp: may_move_def guarded_def counted_def undecided_def queued_at_def stale_def)
  then show ?thesis
    using assms unfolding xfutex_wait_def by (intro xinv_goto) (auto simp: guarded_def)
qed

lemma xem_wait_inv:
  assumes "xinv s" and "xem_wait t s = Some s'"
  shows "xinv s'"
proof (cases "pc s t")
  case Outside
  then show ?thesis
    using assms by (auto simp: xem_wait_def may_move_def pc_simps intro!: xinv_goto)
next
  case W_guard
  then show ?thesis
    using assms removing_guard [OF assms(1)] by (auto simp: xem_wait_def may_move_def pc_simps intro!: xinv_take)
next
  case W_count
  then show ?thesis using assms wait_count_ok by (auto simp: xem_wait_def)
next
  case W_test
  then show ?thesis
    using assms wait_pass_ok [OF assms(1) W_test] xinv_goto [OF assms(1), of t W_add]
    by (auto simp: xem_wait_def may_move_def pc_simps split: if_splits)
next
  case W_pass
  then show ?thesis using assms by (auto simp: xem_wait_def may_move_def pc_simps intro!: xinv_free)
next
  case W_add
  then show ?thesis
    using assms wait_add_ok [OF assms(1) W_add] xinv_goto [OF assms(1), of t Failed]
    by (auto simp: xem_wait_def may_move_def pc_simps split: prod.splits option.splits)
next
  case (W_free a)
  then show ?thesis using assms by (auto simp: xem_wait_def may_move_def pc_simps intro!: xinv_free)
next
  case (W_futex a)
  then show ?thesis using assms futex_wait_ok by (auto simp: xem_wait_def)
qed (use assms(2) in \<open>simp_all add: xem_wait_def\<close>)

text \<open>The steps of \<open>xem_unlock\<close>.\<close>

lemma unlock_count_ok:
  assumes "xinv s" and "pc s t = U_count"
  shows "xinv (goto t U_test (s\<lparr>sem := (sem s)\<lparr>count := count (sem s) + 1\<rparr>\<rparr>))"
proof -
  let ?q = "xq (sem s)" and ?p = "(pc s)(t := U_test)"
  have inv: "guard_ok (sem s) (pc s)" "count_ok (sem s) (pc s) (held s)" "ring_ok ?q (pc s)" "one_ok ?q (pc s) (held s)"
    using assms(1) by (simp_all add: xinv_def)
  have gt: "guarded (pc s t)" using assms(2) by (simp add: guarded_def)
  have "guard_ok (sem s) ?p"
    using guard_upd(1) [OF inv(1)] assms(2) by (simp add: guarded_def)
  moreover have "count_ok ((sem s)\<lparr>count := count (sem s) + 1\<rparr>) ?p (held s)"
    using count_upd(3) [OF inv(2)] assms(2) by (simp add: counted_def)
  moreover have "ring_ok ?q ?p"
    using assms(2) by (intro ring_upd [OF inv(3)]) (auto simp: queued_at_def stale_def)
  moreover have t: "t \<in> granted ?q (pc s)" using assms(2) by (simp add: granted_def counted_def undecided_def)
  have "granted ?q ?p = {}"
    using granted_held(2) [OF inv(4) t] by (auto simp: granted_def counted_def split: if_splits)
  then have "owners ?q ?p (held s) = {}" using granted_held(1) [OF inv(4) t] by (simp add: owners_def)
  moreover have "?p u \<noteq> U_wake \<and> ?p u \<noteq> U_remove" for u
    using sole_guard [OF inv(1) gt, of U_free u] by auto
  then have "one_ok ?q ?p (held s)"
    using \<open>owners ?q ?p (held s) = {}\<close> granted_held(1) [OF inv(4) t] by (simp add: one_ok_def del: fun_upd_apply)
  ultimately show ?thesis by (simp add: xinv_def)
qed

lemma ring_head:
  assumes "xinv s" and "pc s t = U_wake \<or> pc s t = U_remove"
  shows "ring (xq (sem s)) \<noteq> []" and "qhead (xq (sem s)) \<in> set (ring (xq (sem s)))"
proof -
  have one: "one_ok (xq (sem s)) (pc s) (held s)" and ok: "queue_ok (xq (sem s))"
    using assms(1) by (simp_all add: xinv_def ring_ok_def)
  show ring: "ring (xq (sem s)) \<noteq> []"
    using one assms(2) unfolding one_ok_def by blast
  show "qhead (xq (sem s)) \<in> set (ring (xq (sem s)))"
    using queue_remove_ok(3) [OF ok ring] ring by (metis hd_in_set)
qed

lemma entries_inj:
  "ring_ok q p \<Longrightarrow> a \<in> set (ring q) \<Longrightarrow> b \<in> set (ring q) \<Longrightarrow> slots q ! a = slots q ! b \<Longrightarrow> a = b"
  by (auto simp: ring_ok_def entries_def distinct_map dest: inj_onD)

text \<open>The thread at the head of the queue is woken.\<close>

lemma woken_ok:
  assumes "xinv s" and "pc s t = U_wake" and "pc s w = W_sleep b" and "w = slots (xq (sem s)) ! qhead (xq (sem s))"
  shows "xinv (goto w Inside (goto t U_remove s))"
proof -
  let ?q = "xq (sem s)" and ?p = "(pc s)(t := U_remove, w := Inside)"
  have inv: "guard_ok (sem s) (pc s)" "count_ok (sem s) (pc s) (held s)" "ring_ok ?q (pc s)" "one_ok ?q (pc s) (held s)"
    using assms(1) by (simp_all add: xinv_def)
  have head: "ring ?q \<noteq> []" "qhead ?q \<in> set (ring ?q)" using ring_head [OF assms(1)] assms(2) by blast+
  have wt: "w \<noteq> t" using assms(2,3) by auto
  have gt: "guarded (pc s t)" using assms(2) by (simp add: guarded_def)
  have "guard_ok (sem s) ?p"
    using assms(2) by (intro guard_upd(1) [OF guard_upd(1) [OF inv(1)]]) (auto simp: guarded_def)
  moreover have "count_ok (sem s) ?p (held s)"
    using assms(2,3) wt by (intro count_upd(1) [OF count_upd(1) [OF inv(2)]]) (auto simp: counted_def)
  moreover have "queued_at a (?p (slots ?q ! a))" if "a \<in> set (ring ?q)" "a \<noteq> qhead ?q" for a
  proof -
    have "slots ?q ! a \<noteq> w" using entries_inj [OF inv(3) that(1) head(2)] that(2) by (auto simp: assms(4))
    moreover have "queued_at a (pc s (slots ?q ! a))" using inv(3) that by (auto simp: ring_ok_def)
    ultimately show ?thesis using assms(2) by (auto simp: queued_at_def)
  qed
  then have "ring_ok ?q ?p"
    using inv(3) wt unfolding ring_ok_def by (metis assms(4) fun_upd_apply removing_def stale_def)
  moreover have "passing ?q (pc s) t" using assms(2) by (simp add: passing_def)
  then have none: "owners ?q (pc s) (held s) = {}" using inv(4) unfolding one_ok_def by blast
  then have own: "owners ?q ?p (held s) \<subseteq> {Some w}" "held s = 0"
    by (auto simp: owners_def granted_def counted_def split: if_splits)
  have "\<not> passing ?q ?p u" for u
    using sole_guard [OF inv(1) gt, of U_free u] by (auto simp: passing_def simp flip: assms(4) split: if_splits)
  then have "one_ok ?q ?p (held s)"
    using own head(1) unfolding one_ok_def by (metis empty_iff singletonD subsetD zero_le)
  ultimately show ?thesis by (simp add: xinv_def)
qed

lemma unlock_wake_ok:
  assumes "xinv s" and "pc s t = U_wake"
  shows "xinv (goto t U_remove (xfutex_wake (queue_head (xq (sem s))) s))"
proof -
  define w where "w = slots (xq (sem s)) ! qhead (xq (sem s))"
  show ?thesis
  proof (cases "\<exists>b. pc s w = W_sleep b")
    case False
    then have "xfutex_wake (queue_head (xq (sem s))) s = s"
      by (auto simp: xfutex_wake_def queue_head_def Let_def split: xpc.splits simp flip: w_def)
    moreover have "xinv (goto t U_remove s)"
      using assms ring_head(1) [OF assms(1)]
      by (intro xinv_goto) (auto simp: may_move_def pc_simps passing_def)
    ultimately show ?thesis by simp
  next
    case True
    then obtain b where b: "pc s w = W_sleep b" by blast
    then have "w \<noteq> t" using assms(2) by auto
    then have "goto t U_remove (xfutex_wake (queue_head (xq (sem s))) s) = goto w Inside (goto t U_remove s)"
      using b by (auto simp: xfutex_wake_def queue_head_def Let_def goto_def fun_upd_twist simp flip: w_def)
    then show ?thesis using woken_ok [OF assms b w_def] by simp
  qed
qed

lemma unlock_remove_ok:
  assumes "xinv s" and "pc s t = U_remove"
  shows "xinv (goto t U_free (s\<lparr>sem := (sem s)\<lparr>xq := queue_remove (xq (sem s))\<rparr>\<rparr>))"
proof -
  let ?q = "xq (sem s)" and ?p = "(pc s)(t := U_free)"
  let ?q' = "queue_remove ?q" and ?w = "slots ?q ! qhead ?q"
  have inv: "guard_ok (sem s) (pc s)" "count_ok (sem s) (pc s) (held s)" "ring_ok ?q (pc s)" "one_ok ?q (pc s) (held s)"
    using assms(1) by (simp_all add: xinv_def)
  have gt: "guarded (pc s t)" using assms(2) by (simp add: guarded_def)
  have head: "ring ?q \<noteq> []" "qhead ?q \<in> set (ring ?q)" using ring_head [OF assms(1)] assms(2) by blast+
  have ok: "queue_ok ?q" using inv(3) by (simp add: ring_ok_def)
  note rm = queue_remove_ok [OF ok head(1)]
  note slot = queue_remove_slots(2) [OF ok head(1)]
  have ent: "entries ?q = ?w # entries ?q'"
    unfolding entries_def by (rule queue_remove_slots(3) [OF ok head(1)])
  have gc: "guard_ok (sem s) ?p" "count_ok (sem s) ?p (held s)"
    using inv assms(2) by (auto simp: guarded_def counted_def intro!: guard_upd(1) count_upd(1))
  have "queued_at b (?p (slots ?q' ! b))" if "b \<in> set (ring ?q')" for b
  proof -
    have b: "b \<in> set (tl (ring ?q))" "b \<in> set (ring ?q)" "b \<noteq> qhead ?q"
      using that queue_remove_slots(1) [OF ok head(1)] rm(2) list.set_sel(2) [OF head(1)] by auto
    then have "queued_at b (pc s (slots ?q ! b))" using inv(3) by (auto simp: ring_ok_def)
    then show ?thesis using slot [OF b(1)] assms(2) by (auto simp: queued_at_def)
  qed
  then have r: "ring_ok ?q' ?p" using rm(1) inv(3) ent by (simp add: ring_ok_def)
  have "one_ok ?q' ?p (held s)"
  proof (rule one_okI)
    show "?p u \<noteq> U_test \<and> ?p u \<noteq> U_wake \<and> ?p u \<noteq> U_remove" for u by (rule sole_guard [OF inv(1) gt]) simp_all
    show "held s \<le> 1" using inv(4) by (simp add: one_ok_def)
    have "owners ?q' ?p (held s) \<subseteq> owners ?q (pc s) (held s)" if "\<not> waits (pc s ?w)"
      using that assms(2) by (auto simp: owners_def granted_def ent counted_def split: if_splits)
    moreover have "owners ?q' ?p (held s) \<subseteq> {Some ?w}" if "waits (pc s ?w)"
    proof -
      have "passing ?q (pc s) t" using that assms(2) by (simp add: passing_def)
      then have "owners ?q (pc s) (held s) = {}" using inv(4) unfolding one_ok_def by blast
      then show ?thesis by (auto simp: owners_def granted_def ent counted_def split: if_splits)
    qed
    ultimately show "x = y" if "x \<in> owners ?q' ?p (held s)" "y \<in> owners ?q' ?p (held s)" for x y
      using that one_okD [OF inv(4)] by blast
  qed
  then show ?thesis using gc r by (simp add: xinv_def)
qed

lemma xem_unlock_inv:
  assumes "xinv s" and "xem_unlock t s = Some s'"
  shows "xinv s'"
proof (cases "pc s t")
  case Inside
  then show ?thesis
    using assms by (auto simp: xem_unlock_def may_move_def pc_simps intro!: xinv_goto)
next
  case U_guard
  then show ?thesis
    using assms removing_guard [OF assms(1)] by (auto simp: xem_unlock_def may_move_def pc_simps intro!: xinv_take)
next
  case U_count
  then show ?thesis using assms unlock_count_ok by (auto simp: xem_unlock_def)
next
  case U_test
  have "queue_ok (xq (sem s))" using assms(1) by (simp add: xinv_def ring_ok_def)
  then have "may_move s t (if \<not> queue_empty (xq (sem s)) then U_wake else U_free)"
    using U_test ring_empty by (auto simp: may_move_def pc_simps passing_def)
  then show ?thesis
    using assms U_test by (auto simp: xem_unlock_def guarded_def intro!: xinv_goto)
next
  case U_wake
  then show ?thesis using assms unlock_wake_ok by (auto simp: xem_unlock_def)
next
  case U_remove
  then show ?thesis using assms unlock_remove_ok by (auto simp: xem_unlock_def)
next
  case U_free
  then show ?thesis using assms by (auto simp: xem_unlock_def may_move_def pc_simps intro!: xinv_free)
qed (use assms(2) in \<open>simp_all add: xem_unlock_def\<close>)

text \<open>A return that is handed over.\<close>

lemma inside_granted: "pc s t \<in> {Inside, U_guard, U_count} \<Longrightarrow> t \<in> granted (xq (sem s)) (pc s)"
  by (auto simp: granted_def counted_def undecided_def)

lemma give_inv:
  assumes "xinv s" and "pc s t = Inside"
  shows "xinv (give t s)" and "held s = 0"
proof -
  let ?q = "xq (sem s)" and ?p = "(pc s)(t := Outside)"
  have inv: "guard_ok (sem s) (pc s)" "count_ok (sem s) (pc s) (held s)" "ring_ok ?q (pc s)" "one_ok ?q (pc s) (held s)"
    using assms(1) by (simp_all add: xinv_def)
  have t: "t \<in> granted ?q (pc s)" using assms(2) by (intro inside_granted) simp
  show h: "held s = 0" using granted_held(1) [OF inv(4) t] .
  have "guard_ok (sem s) ?p" by (intro guard_upd(1) [OF inv(1)]) (auto simp: guarded_def)
  moreover have "count_ok (sem s) ?p (held s + 1)" using count_upd(4) [OF inv(2), of t Outside] assms(2) by (simp add: counted_def)
  moreover have "ring_ok ?q ?p" using assms(2) by (intro ring_upd [OF inv(3)]) (auto simp: queued_at_def stale_def)
  moreover have "granted ?q ?p = {}"
    using granted_held(2) [OF inv(4) t] by (auto simp: granted_def counted_def split: if_splits)
  moreover have "\<not> passing ?q ?p u" "?p u = U_wake \<or> ?p u = U_remove \<longrightarrow> ring ?q \<noteq> []" for u
  proof -
    have "owners ?q (pc s) (held s) \<noteq> {}" using t by (auto simp: owners_def)
    then have "\<not> passing ?q (pc s) u" using inv(4) unfolding one_ok_def by blast
    then show "\<not> passing ?q ?p u" by (auto simp: passing_def split: if_splits)
    show "?p u = U_wake \<or> ?p u = U_remove \<longrightarrow> ring ?q \<noteq> []" using inv(4) by (auto simp: one_ok_def)
  qed
  ultimately show "xinv (give t s)" using h by (auto simp: xinv_def give_def one_ok_def owners_def simp del: fun_upd_apply)
qed

lemma claim_inv:
  assumes "xinv s" and "pc s t = Outside" and "0 < held s"
  shows "xinv (claim t s)"
proof -
  let ?q = "xq (sem s)" and ?p = "(pc s)(t := U_guard)"
  have inv: "guard_ok (sem s) (pc s)" "count_ok (sem s) (pc s) (held s)" "ring_ok ?q (pc s)" "one_ok ?q (pc s) (held s)"
    using assms(1) by (simp_all add: xinv_def)
  have h: "held s = 1" using inv(4) assms(3) by (simp add: one_ok_def)
  have "guard_ok (sem s) ?p" by (intro guard_upd(1) [OF inv(1)]) (auto simp: guarded_def)
  moreover have "count_ok (sem s) ?p (held s - 1)"
    using count_upd(5) [OF inv(2), of t U_guard] assms(2,3) by (simp add: counted_def)
  moreover have "ring_ok ?q ?p" using assms(2) by (intro ring_upd [OF inv(3)]) (auto simp: queued_at_def stale_def)
  moreover have "granted ?q (pc s) = {}" using granted_held(1) [OF inv(4)] h by auto
  then have "granted ?q ?p \<subseteq> {t}" by (auto simp: granted_def split: if_splits)
  moreover have "\<not> passing ?q ?p u" "?p u = U_wake \<or> ?p u = U_remove \<longrightarrow> ring ?q \<noteq> []" for u
  proof -
    have "owners ?q (pc s) (held s) \<noteq> {}" using h by (auto simp: owners_def)
    then have "\<not> passing ?q (pc s) u" using inv(4) unfolding one_ok_def by blast
    then show "\<not> passing ?q ?p u" by (auto simp: passing_def split: if_splits)
    show "?p u = U_wake \<or> ?p u = U_remove \<longrightarrow> ring ?q \<noteq> []" using inv(4) by (auto simp: one_ok_def)
  qed
  ultimately show ?thesis using h by (auto simp: xinv_def claim_def one_ok_def owners_def simp del: fun_upd_apply)
qed

lemma fresh_xem_inv: "xinv fresh_xem"
  by (simp add: fresh_xem_def xem_init_def queue_init_def xinv_def guard_ok_def count_ok_def ring_ok_def one_ok_def
      queue_ok_def XEMQSZ_def ring_def ring_length_def entries_def owners_def granted_def guarded_def counted_def passing_def)

lemma xem_step_inv: "xem_step s s' \<Longrightarrow> xinv s \<Longrightarrow> xinv s'"
  by (erule xem_step.cases) (auto intro: xem_wait_inv xem_unlock_inv give_inv claim_inv)

lemma xem_reach_inv: "xem_step\<^sup>*\<^sup>* fresh_xem s \<Longrightarrow> xinv s"
  by (induction rule: rtranclp_induct) (auto simp: fresh_xem_inv intro: xem_step_inv)

text \<open>
  C35. Mutual exclusion. However the threads interleave, at most one of them is between the return of its \<open>xem_wait\<close> and the moment
  its \<open>xem_unlock\<close> gives the semaphore back, also when returns are handed over to other threads. The threads are woken by \<open>futex_wake\<close>
  only: wakeups that \<open>thread_exit\<close> and \<open>exit\<close> send to the same channel are not steps of this system.
\<close>

theorem xem_mutual_exclusion:
  assumes "xem_step\<^sup>*\<^sup>* fresh_xem s"
    and "pc s t \<in> {Inside, U_guard, U_count}" and "pc s u \<in> {Inside, U_guard, U_count}"
  shows "t = u"
proof -
  have "one_ok (xq (sem s)) (pc s) (held s)" using xem_reach_inv [OF assms(1)] by (simp add: xinv_def)
  from granted_held(2) [OF this] show ?thesis using assms(2,3) inside_granted by metis
qed

subsection \<open>A lost wakeup\<close>

definition run_xem :: "(bool \<times> int) list \<Rightarrow> xsys \<Rightarrow> xsys option" where
  "run_xem ts s = fold (\<lambda>(w, t) r. Option.bind r (if w then xem_wait t else xem_unlock t)) ts (Some s)"

lemma run_xem_reach: "run_xem ts s = Some s' \<Longrightarrow> xem_step\<^sup>*\<^sup>* s s'"
proof (induction ts arbitrary: s' rule: rev_induct)
  case (snoc x ts)
  obtain w t where x: "x = (w, t)" by (cases x)
  obtain s1 where "run_xem ts s = Some s1" "(if w then xem_wait t else xem_unlock t) s1 = Some s'"
    using snoc.prems by (auto simp: run_xem_def x bind_eq_Some_conv)
  moreover from this have "xem_step s1 s'" by (cases w) (auto intro: wait_step unlock_step)
  ultimately show ?case using snoc.IH by (meson rtranclp.rtrancl_into_rtrancl)
qed (simp add: run_xem_def)

text \<open>
  Thread 1 is inside; thread 2 has put itself into the queue and has freed the guard, but has not yet called \<open>futex_wait\<close>; thread 1
  unlocks and calls \<open>futex_wake\<close>, which finds thread 2 awake; then thread 2 calls \<open>futex_wait\<close> before thread 1 removes its entry.
\<close>

definition race :: "(bool \<times> int) list" where
  "race = replicate 5 (True, 1) @ replicate 6 (True, 2) @ replicate 5 (False, 1) @ [(True, 2)] @ replicate 2 (False, 1)"

definition stranded :: xsys where
  "stranded = the (run_xem race fresh_xem)"

lemma race_runs: "run_xem race fresh_xem \<noteq> None" "pc stranded 2 = W_sleep 0" "entries (xq (sem stranded)) = []"
  by code_simp+

text \<open>A thread that sleeps without an entry in the queue is never woken.\<close>

lemma asleep_wait:
  assumes "xinv s" and "pc s t = W_sleep a" and "t \<notin> set (entries (xq (sem s)))" and "xem_wait u s = Some s'"
  shows "pc s' t = W_sleep a" and "t \<notin> set (entries (xq (sem s')))"
proof -
  have ut: "u \<noteq> t" using assms(2,4) by (auto simp: xem_wait_def)
  have ok: "queue_ok (xq (sem s))" using assms(1) by (simp add: xinv_def ring_ok_def)
  show "pc s' t = W_sleep a"
    using assms(2,4) ut by (auto simp: xem_wait_def take_guard_def test_and_set_def xfutex_wait_def Let_def
        split: xpc.splits if_splits prod.splits option.splits)
  show "t \<notin> set (entries (xq (sem s')))"
  proof (cases "pc s u = W_add")
    case True
    then show ?thesis
      using assms(3,4) ut queue_add_slots(2) [OF ok, of u]
      by (auto simp: xem_wait_def entries_def simp flip: set_map split: prod.splits option.splits)
  next
    case False
    then have "xq (sem s') = xq (sem s)"
      using assms(4) by (auto simp: xem_wait_def take_guard_def test_and_set_def xfutex_wait_def Let_def
        split: xpc.splits if_splits)
    then show ?thesis using assms(3) by simp
  qed
qed

lemma asleep_unlock:
  assumes "xinv s" and "pc s t = W_sleep a" and "t \<notin> set (entries (xq (sem s)))" and "xem_unlock u s = Some s'"
  shows "pc s' t = W_sleep a" and "t \<notin> set (entries (xq (sem s')))"
proof -
  have ut: "u \<noteq> t" using assms(2,4) by (auto simp: xem_unlock_def)
  have ok: "queue_ok (xq (sem s))" using assms(1) by (simp add: xinv_def ring_ok_def)
  have w: "slots (xq (sem s)) ! queue_head (xq (sem s)) \<noteq> t" if "pc s u = U_wake"
    using ring_head(2) [OF assms(1), of u] that assms(3) by (auto simp: entries_def queue_head_def)
  show "pc s' t = W_sleep a"
    using assms(2,4) ut w by (auto simp: xem_unlock_def take_guard_def test_and_set_def xfutex_wake_def Let_def
        split: xpc.splits if_splits)
  show "t \<notin> set (entries (xq (sem s')))"
  proof (cases "pc s u = U_remove")
    case True
    then show ?thesis
      using assms(3,4) queue_remove_slots(3) [OF ok] ring_head(1) [OF assms(1), of u]
      by (auto simp: xem_unlock_def entries_def simp flip: set_map)
  next
    case False
    then have "xq (sem s') = xq (sem s)"
      using assms(4) by (auto simp: xem_unlock_def take_guard_def test_and_set_def xfutex_wake_def Let_def
        split: xpc.splits if_splits)
    then show ?thesis using assms(3) by simp
  qed
qed

lemma asleep_step:
  assumes "xem_step s s'" and "xinv s" and "pc s t = W_sleep a" and "t \<notin> set (entries (xq (sem s)))"
  shows "pc s' t = W_sleep a \<and> t \<notin> set (entries (xq (sem s')))"
  using assms(1)
proof cases
  case (wait_step u)
  with asleep_wait [OF assms(2-4)] show ?thesis by blast
next
  case (unlock_step u)
  with asleep_unlock [OF assms(2-4)] show ?thesis by blast
qed (use assms in \<open>auto simp: give_def claim_def\<close>)

lemma asleep_forever:
  assumes "xem_step\<^sup>*\<^sup>* s s'" and "xinv s" and "pc s t = W_sleep a" and "t \<notin> set (entries (xq (sem s)))"
  shows "xinv s' \<and> pc s' t = W_sleep a \<and> t \<notin> set (entries (xq (sem s')))"
  using assms
proof (induction rule: rtranclp_induct)
  case (step y z)
  then show ?case using asleep_step xem_step_inv by blast
qed simp

text \<open>
  C36. A wakeup can be lost. There is an interleaving of two threads after which the guard of the semaphore is free, its queue is empty
  and thread 1 has returned from \<open>xem_unlock\<close>, but thread 2 sleeps in \<open>xem_wait\<close> (the count is 0, since it has counted itself) and
  stays asleep whatever the threads do from then on.
\<close>

theorem xem_lost_wakeup:
  "\<exists>s. xem_step\<^sup>*\<^sup>* fresh_xem s \<and> queue_empty (xq (sem s)) \<and> guard (sem s) = 0 \<and> pc s 1 = Outside \<and>
     {s'. xem_step\<^sup>*\<^sup>* s s'} \<subseteq> {s'. \<exists>a. pc s' 2 = W_sleep a}"
proof -
  have run: "run_xem race fresh_xem = Some stranded" using race_runs(1) by (auto simp: stranded_def)
  have "xem_step\<^sup>*\<^sup>* fresh_xem stranded" by (rule run_xem_reach [OF run])
  moreover have "queue_empty (xq (sem stranded))" "guard (sem stranded) = 0" "pc stranded 1 = Outside" by code_simp+
  ultimately show ?thesis
    using asleep_forever [of stranded _ 2 0] race_runs(2,3) xem_reach_inv [of stranded] by (intro exI [of _ stranded]) auto
qed


definition one_inside :: xsys where
  "one_inside = the (run_xem (replicate 5 (True, 1) @ replicate 7 (True, 2)) fresh_xem)"

lemma one_inside_run: "run_xem (replicate 5 (True, 1) @ replicate 7 (True, 2)) fresh_xem = Some one_inside"
proof -
  have "run_xem (replicate 5 (True, 1) @ replicate 7 (True, 2)) fresh_xem \<noteq> None" by code_simp
  then show ?thesis by (auto simp: one_inside_def)
qed

theorem xem_mutual_exclusion_witness:
  "xem_step\<^sup>*\<^sup>* fresh_xem one_inside \<and> pc one_inside 1 = Inside \<and> pc one_inside 2 = W_sleep 0 \<and> (1::int) = 1"
proof -
  have reach: "xem_step\<^sup>*\<^sup>* fresh_xem one_inside" by (rule run_xem_reach [OF one_inside_run])
  have pcs: "pc one_inside 1 = Inside" "pc one_inside 2 = W_sleep 0" by code_simp+
  have "(1::int) = 1" by (rule xem_mutual_exclusion [OF reach]) (simp_all add: pcs)
  with reach pcs show ?thesis by blast
qed

subsection \<open>What a step leaves alone\<close>

lemma xem_wait_frame:
  assumes "xem_wait t x = Some x'"
  shows "u \<noteq> t \<Longrightarrow> pc x' u = pc x u" and "held x' = held x"
  using assms by (auto simp: xem_wait_def take_guard_def test_and_set_def xfutex_wait_def Let_def
      split: xpc.splits if_splits prod.splits option.splits)

lemma xem_unlock_frame:
  assumes "xem_unlock t x = Some x'"
  shows "u \<noteq> t \<Longrightarrow> pc x' u = pc x u \<or> waits (pc x u) \<and> pc x' u = Inside" and "held x' = held x"
  using assms by (auto simp: xem_unlock_def take_guard_def test_and_set_def xfutex_wake_def Let_def
      split: xpc.splits if_splits)


end
