(* ===== verification/Rwlock.thy ===== *)
theory Rwlock
  imports Rwlock_Spec Xem
begin

text \<open>
  The reader-writer lock of \<open>xem.c\<close>, built from three semaphores: \<open>in\<close> admits one thread at a time to the entry, \<open>mx\<close> protects the
  number of readers, and \<open>wrt\<close> is held by the writer or by the readers together, so that the thread that gives it back need not be
  the one that has taken it. The semaphores are those of \<open>Xem\<close>, statement by statement, and the threads interleave at every statement of the
  four functions and of \<open>xem_wait\<close> and \<open>xem_unlock\<close>. The system is shown to implement the specification of \<open>Rwlock_Spec\<close>, which
  gives the exclusion of readers and writers. As in \<open>Xem\<close>, a sleeping thread is woken by \<open>futex_wake\<close> only.
\<close>

section \<open>Reader-writer locks (xem.c)\<close>

subsection \<open>The lock\<close>

text \<open>
  The state of the lock: the semaphores \<open>in\<close>, \<open>mx\<close> and \<open>wrt\<close>, each with the program counters that the threads have in its
  \<open>xem_wait\<close> and \<open>xem_unlock\<close>; the number of readers; the program counter of every thread in the functions of the lock; and the threads
  whose call has returned -1, which make no further step.
\<close>

record rwlock =
  sems :: "rwsem \<Rightarrow> xsys"
  ctr :: int
  rpc :: "int \<Rightarrow> rwpc"
  refused :: "int set"

definition rgoto :: "int \<Rightarrow> rwpc \<Rightarrow> rwlock \<Rightarrow> rwlock" where
  "rgoto t p s = s\<lparr>rpc := (rpc s)(t := p)\<rparr>"

definition set_sem :: "rwsem \<Rightarrow> xsys \<Rightarrow> rwlock \<Rightarrow> rwlock" where
  "set_sem k x s = s\<lparr>sems := (sems s)(k := x)\<rparr>"

text \<open>
  A call of \<open>xem_wait\<close> on a semaphore of the lock, one step at a time: it goes on to \<open>p\<close> when \<open>xem_wait\<close> has returned 0, with the right
  to unlock left to whoever does, and returns -1 when \<open>xem_wait\<close> has. A call of \<open>xem_unlock\<close> goes on to \<open>p\<close> with the last step of
  \<open>xem_unlock\<close>, which returns 0 on every path.
\<close>

definition wait_on :: "rwsem \<Rightarrow> int \<Rightarrow> rwpc \<Rightarrow> rwlock \<Rightarrow> rwlock option" where
  "wait_on k t p s =
     (case pc (sems s k) t of
        Inside \<Rightarrow> Some (rgoto t p (set_sem k (give t (sems s k)) s))
      | Failed \<Rightarrow> Some (s\<lparr>refused := insert t (refused s)\<rparr>)
      | _ \<Rightarrow> map_option (\<lambda>x. set_sem k x s) (xem_wait t (sems s k)))"

definition unlock_on :: "rwsem \<Rightarrow> int \<Rightarrow> rwpc \<Rightarrow> rwlock \<Rightarrow> rwlock option" where
  "unlock_on k t p s =
     (case pc (sems s k) t of
        Outside \<Rightarrow> Some (set_sem k (claim t (sems s k)) s)
      | U_free \<Rightarrow> map_option (\<lambda>x. rgoto t p (set_sem k x s)) (xem_unlock t (sems s k))
      | _ \<Rightarrow> map_option (\<lambda>x. set_sem k x s) (xem_unlock t (sems s k)))"

text \<open>\<open>in\<close> is the first member of the structure: with a null pointer to the lock it is the pointer to \<open>in\<close> that \<open>xem_init\<close> refuses.\<close>

definition init_sem :: "rwsem \<Rightarrow> rwlock option \<Rightarrow> rwlock option \<times> int" where
  "init_sem k l =
     (case xem_init (map_option (\<lambda>l. sem (sems l k)) l) of
        (None, r) \<Rightarrow> (l, r)
      | (Some x, r) \<Rightarrow> (map_option (\<lambda>l. set_sem k ((sems l k)\<lparr>sem := x\<rparr>) l) l, r))"

definition rwlock_init :: "rwlock option \<Rightarrow> rwlock option \<times> int" where
  "rwlock_init l =
     (let (l, r) = init_sem In_sem l in if r < 0 then (l, -1) else
      let (l, r) = init_sem Mx_sem l in if r < 0 then (l, -1) else
      let (l, r) = init_sem Wrt_sem l in if r < 0 then (l, -1) else
      (map_option (\<lambda>l. l\<lparr>ctr := 0\<rparr>) l, 0))"

definition rwlock_acquire_readlock :: "int \<Rightarrow> rwlock \<Rightarrow> rwlock option" where
  "rwlock_acquire_readlock t s =
     (if t \<in> refused s then None
      else case rpc s t of
        Apart \<Rightarrow> Some (rgoto t A_in s)
      | A_in \<Rightarrow> wait_on In_sem t A_mx s
      | A_mx \<Rightarrow> wait_on Mx_sem t A_inc s
      | A_inc \<Rightarrow> Some (rgoto t A_test (s\<lparr>ctr := ctr s + 1\<rparr>))
      | A_test \<Rightarrow> Some (rgoto t (if ctr s = 1 then A_wrt else A_umx) s)
      | A_wrt \<Rightarrow> wait_on Wrt_sem t A_umx s
      | A_umx \<Rightarrow> unlock_on Mx_sem t A_uin s
      | A_uin \<Rightarrow> unlock_on In_sem t Reading s
      | _ \<Rightarrow> None)"

definition rwlock_acquire_writelock :: "int \<Rightarrow> rwlock \<Rightarrow> rwlock option" where
  "rwlock_acquire_writelock t s =
     (if t \<in> refused s then None
      else case rpc s t of
        Apart \<Rightarrow> Some (rgoto t B_in s)
      | B_in \<Rightarrow> wait_on In_sem t B_wrt s
      | B_wrt \<Rightarrow> wait_on Wrt_sem t Writing s
      | _ \<Rightarrow> None)"

definition rwlock_release_readlock :: "int \<Rightarrow> rwlock \<Rightarrow> rwlock option" where
  "rwlock_release_readlock t s =
     (if t \<in> refused s then None
      else case rpc s t of
        Reading \<Rightarrow> Some (rgoto t E_mx s)
      | E_mx \<Rightarrow> wait_on Mx_sem t E_dec s
      | E_dec \<Rightarrow> Some (rgoto t E_test (s\<lparr>ctr := ctr s - 1\<rparr>))
      | E_test \<Rightarrow> Some (rgoto t (if ctr s = 0 then E_uwrt else E_umx) s)
      | E_uwrt \<Rightarrow> unlock_on Wrt_sem t E_umx s
      | E_umx \<Rightarrow> unlock_on Mx_sem t Apart s
      | _ \<Rightarrow> None)"

definition rwlock_release_writelock :: "int \<Rightarrow> rwlock \<Rightarrow> rwlock option" where
  "rwlock_release_writelock t s =
     (if t \<in> refused s then None
      else case rpc s t of
        Writing \<Rightarrow> Some (rgoto t D_uwrt s)
      | D_uwrt \<Rightarrow> unlock_on Wrt_sem t D_uin s
      | D_uin \<Rightarrow> unlock_on In_sem t Apart s
      | _ \<Rightarrow> None)"

inductive rw_step :: "rwlock \<Rightarrow> rwlock \<Rightarrow> bool" where
  acquire_read: "rwlock_acquire_readlock t s = Some s' \<Longrightarrow> rw_step s s'"
| acquire_write: "rwlock_acquire_writelock t s = Some s' \<Longrightarrow> rw_step s s'"
| release_read: "rwlock_release_readlock t s = Some s' \<Longrightarrow> rw_step s s'"
| release_write: "rwlock_release_writelock t s = Some s' \<Longrightarrow> rw_step s s'"

definition raw_xsys :: xsys where
  "raw_xsys = \<lparr>sem = \<lparr>guard = 0, count = 0, xq = \<lparr>qhead = 0, qrear = 0, slots = []\<rparr>\<rparr>, pc = (\<lambda>_. Outside), held = 0\<rparr>"

definition fresh_rwlock :: rwlock where
  "fresh_rwlock = the (fst (rwlock_init (Some \<lparr>sems = (\<lambda>_. raw_xsys), ctr = 7, rpc = (\<lambda>_. Apart), refused = {}\<rparr>)))"

subsection \<open>The view of the specification\<close>

fun wait_sem :: "rwpc \<Rightarrow> rwsem option" where
  "wait_sem A_in = Some In_sem"
| "wait_sem A_mx = Some Mx_sem"
| "wait_sem A_wrt = Some Wrt_sem"
| "wait_sem E_mx = Some Mx_sem"
| "wait_sem B_in = Some In_sem"
| "wait_sem B_wrt = Some Wrt_sem"
| "wait_sem _ = None"

text \<open>The counter that follows the release of a semaphore.\<close>

fun after_unlock :: "rwpc \<Rightarrow> rwpc" where
  "after_unlock A_umx = A_uin"
| "after_unlock A_uin = Reading"
| "after_unlock E_uwrt = E_umx"
| "after_unlock E_umx = Apart"
| "after_unlock D_uwrt = D_uin"
| "after_unlock D_uin = Apart"
| "after_unlock p = p"

text \<open>
  To the specification a semaphore is taken while the right to unlock it waits for a thread to use it, and a thread has given it back as
  soon as it has entered \<open>xem_unlock\<close>.
\<close>

definition rview :: "(rwsem \<Rightarrow> xpc) \<Rightarrow> rwpc \<Rightarrow> rwpc" where
  "rview x p = (case unlock_sem p of None \<Rightarrow> p | Some k \<Rightarrow> if x k = Outside then p else after_unlock p)"

definition rabs :: "rwlock \<Rightarrow> rwspec" where
  "rabs s = \<lparr>taken = (\<lambda>k. held (sems s k) = 1), readers = ctr s, spc = (\<lambda>t. rview (\<lambda>k. pc (sems s k) t) (rpc s t))\<rparr>"

text \<open>Where a thread can be in a semaphore, given its counter in the lock.\<close>

definition unlocking :: "xpc \<Rightarrow> bool" where
  "unlocking x = (x \<in> {U_guard, U_count, U_test, U_wake, U_remove, U_free})"

definition loc_ok :: "rwsem \<Rightarrow> rwpc \<Rightarrow> xpc \<Rightarrow> bool" where
  "loc_ok k p x = (x = Outside \<or> wait_sem p = Some k \<and> \<not> unlocking x \<or> unlock_sem p = Some k \<and> unlocking x)"

definition rloc :: "rwlock \<Rightarrow> bool" where
  "rloc s = (\<forall>k t. loc_ok k (rpc s t) (pc (sems s k) t))"

text \<open>What a step of the lock is to the specification and to its semaphores.\<close>

definition rsim :: "rwlock \<Rightarrow> rwlock \<Rightarrow> bool" where
  "rsim s s' = ((rabs s' = rabs s \<or> spec_step (rabs s) (rabs s')) \<and> rloc s' \<and> (\<forall>k. sems s' k = sems s k \<or> xem_step (sems s k) (sems s' k)))"

lemma rw_sel [simp]:
  "sems (rgoto t p s) = sems s" "ctr (rgoto t p s) = ctr s" "rpc (rgoto t p s) = (rpc s)(t := p)"
  "sems (set_sem k x s) = (sems s)(k := x)" "ctr (set_sem k x s) = ctr s" "rpc (set_sem k x s) = rpc s"
  by (simp_all add: rgoto_def set_sem_def)

lemma give_claim_sel [simp]:
  "pc (give t x) = (pc x)(t := Outside)" "held (give t x) = held x + 1"
  "pc (claim t x) = (pc x)(t := U_guard)" "held (claim t x) = held x - 1"
  by (simp_all add: give_def claim_def)

lemma rabs_sel [simp]:
  "taken (rabs s) = (\<lambda>k. held (sems s k) = 1)" "readers (rabs s) = ctr s"
  "spc (rabs s) = (\<lambda>t. rview (\<lambda>k. pc (sems s k) t) (rpc s t))"
  by (simp_all add: rabs_def)

lemma rview_outside: "(\<And>k. x k = Outside) \<Longrightarrow> rview x p = p"
  by (simp add: rview_def split: option.splits)

lemma rview_wait: "wait_sem p = Some k \<Longrightarrow> rview x p = p"
  by (cases p) (simp_all add: rview_def)

lemma rlocD:
  assumes "rloc s"
  shows "wait_sem (rpc s t) = Some k \<Longrightarrow> j \<noteq> k \<Longrightarrow> pc (sems s j) t = Outside"
    and "unlock_sem (rpc s t) = Some k \<Longrightarrow> j \<noteq> k \<Longrightarrow> pc (sems s j) t = Outside"
    and "wait_sem (rpc s t) = None \<Longrightarrow> unlock_sem (rpc s t) = None \<Longrightarrow> pc (sems s j) t = Outside"
    and "wait_sem (rpc s t) = Some k \<Longrightarrow> \<not> unlocking (pc (sems s k) t)"
    and "unlock_sem (rpc s t) = Some k \<Longrightarrow> pc (sems s k) t = Outside \<or> unlocking (pc (sems s k) t)"
    and "waits (pc (sems s k) u) \<Longrightarrow> wait_sem (rpc s u) = Some k"
proof -
  have l: "loc_ok j (rpc s u) (pc (sems s j) u)" for j u using assms by (simp add: rloc_def)
  have w: "unlock_sem p = None" if "wait_sem p = Some i" for p i using that by (cases p) simp_all
  show "pc (sems s j) t = Outside" if "wait_sem (rpc s t) = Some k" "j \<noteq> k"
    using that l [of j t] w [OF that(1)] by (simp add: loc_ok_def)
  show "pc (sems s j) t = Outside" if "unlock_sem (rpc s t) = Some k" "j \<noteq> k"
    using that l [of j t] w [of "rpc s t"] by (cases "wait_sem (rpc s t)") (auto simp: loc_ok_def)
  show "pc (sems s j) t = Outside" if "wait_sem (rpc s t) = None" "unlock_sem (rpc s t) = None"
    using that l [of j t] by (simp add: loc_ok_def)
  show "\<not> unlocking (pc (sems s k) t)" if "wait_sem (rpc s t) = Some k"
    using that l [of k t] w [OF that(1)] by (auto simp: loc_ok_def unlocking_def)
  show "pc (sems s k) t = Outside \<or> unlocking (pc (sems s k) t)" if "unlock_sem (rpc s t) = Some k"
    using that l [of k t] w [of "rpc s t"] by (cases "wait_sem (rpc s t)") (auto simp: loc_ok_def)
  show "wait_sem (rpc s u) = Some k" if "waits (pc (sems s k) u)"
    using that l [of k u] by (auto simp: loc_ok_def unlocking_def)
qed


lemma xem_wait_pc: "xem_wait t x = Some x' \<Longrightarrow> \<not> unlocking (pc x' t)"
  by (auto simp: xem_wait_def take_guard_def test_and_set_def xfutex_wait_def Let_def unlocking_def
      split: xpc.splits if_splits prod.splits option.splits)

lemma xem_unlock_pc: "xem_unlock t x = Some x' \<Longrightarrow> pc x t \<noteq> U_free \<Longrightarrow> unlocking (pc x' t)"
  by (auto simp: xem_unlock_def take_guard_def test_and_set_def Let_def unlocking_def split: xpc.splits if_splits)

lemma rlocI:
  assumes "rloc s" and "\<And>j. loc_ok j (rpc s' t) (pc (sems s' j) t)"
    and "\<And>j u. u \<noteq> t \<Longrightarrow> rpc s' u = rpc s u"
    and "\<And>j u. u \<noteq> t \<Longrightarrow> pc (sems s' j) u = pc (sems s j) u \<or> waits (pc (sems s j) u) \<and> pc (sems s' j) u = Inside"
  shows "rloc s'"
  unfolding rloc_def
proof (intro allI)
  fix k u
  show "loc_ok k (rpc s' u) (pc (sems s' k) u)"
  proof (cases "u = t")
    case False
    have "loc_ok k (rpc s u) (pc (sems s k) u)" using assms(1) by (simp add: rloc_def)
    then show ?thesis
      using assms(4) [OF False, of k] assms(3) [OF False] rlocD(6) [OF assms(1), of k u] by (auto simp: loc_ok_def unlocking_def)
  qed (use assms(2) in simp)
qed

lemma rview_other:
  assumes "rloc s" and "pc x u = pc (sems s k) u \<or> waits (pc (sems s k) u) \<and> pc x u = Inside"
  shows "rview (\<lambda>j. pc (((sems s)(k := x)) j) u) (rpc s u) = rview (\<lambda>j. pc (sems s j) u) (rpc s u)"
proof (cases "waits (pc (sems s k) u)")
  case True
  then show ?thesis using rview_wait [OF rlocD(6) [OF assms(1) True]] by simp
next
  case False
  then have "(\<lambda>j. pc (((sems s)(k := x)) j) u) = (\<lambda>j. pc (sems s j) u)" using assms(2) by (auto simp: fun_eq_iff)
  then show ?thesis by simp
qed

lemma rabs_eqI:
  assumes "\<And>k. (held (sems s' k) = 1) = taken a k" and "ctr s' = readers a"
    and "\<And>u. rview (\<lambda>k. pc (sems s' k) u) (rpc s' u) = spc a u"
  shows "rabs s' = a"
  using assms by (simp add: rabs_def fun_eq_iff)

text \<open>A step that does not touch the semaphores.\<close>

lemma goto_sim:
  assumes "rloc s" and "\<And>j. pc (sems s j) t = Outside" and "spec_step (rabs s) (sgoto t p ((rabs s)\<lparr>readers := n\<rparr>))"
  shows "rsim s (rgoto t p (s\<lparr>ctr := n\<rparr>))"
proof -
  have "rabs (rgoto t p (s\<lparr>ctr := n\<rparr>)) = sgoto t p ((rabs s)\<lparr>readers := n\<rparr>)"
    using assms(2) by (intro rabs_eqI) (auto simp: sgoto_def intro: rview_outside)
  moreover have "rloc (rgoto t p (s\<lparr>ctr := n\<rparr>))"
    using assms(2) by (intro rlocI [OF assms(1), of _ t]) (auto simp: loc_ok_def)
  ultimately show ?thesis using assms(3) by (simp add: rsim_def)
qed

lemma wait_sim:
  assumes loc: "rloc s" and "xinv (sems s k)" and at: "wait_sem (rpc s t) = Some k" and w: "wait_on k t p s = Some s'"
    and spec: "\<And>a. spec_wait k t p (rabs s) = Some a \<Longrightarrow> spec_step (rabs s) a"
  shows "rsim s s'"
proof -
  let ?x = "sems s k"
  have out: "pc (sems s j) t = Outside" if "j \<noteq> k" for j using rlocD(1) [OF loc at that] .
  consider (ret) "pc ?x t = Inside" | (refuse) "pc ?x t = Failed" | (step) x where "xem_wait t ?x = Some x" "s' = set_sem k x s"
    using w by (cases "pc ?x t") (auto simp: wait_on_def)
  then show ?thesis
  proof cases
    case ret
    then have s': "s' = rgoto t p (set_sem k (give t ?x) s)" using w by (simp add: wait_on_def)
    have h: "held ?x = 0" using give_inv(2) [OF assms(2) ret] .
    let ?a = "sgoto t p ((rabs s)\<lparr>taken := (taken (rabs s))(k := True)\<rparr>)"
    have "rabs s' = ?a"
    proof (rule rabs_eqI)
      show "rview (\<lambda>j. pc (sems s' j) u) (rpc s' u) = spc ?a u" for u
        using out rview_other [OF loc, of "give t ?x" u k] by (cases "u = t") (auto simp: s' sgoto_def intro: rview_outside)
    qed (simp_all add: s' h sgoto_def)
    moreover have "spec_wait k t p (rabs s) = Some ?a" using h by (simp add: spec_wait_def)
    moreover have "rloc s'" using out by (intro rlocI [OF loc, of _ t]) (auto simp: s' loc_ok_def)
    ultimately show ?thesis using spec give_step [OF ret] by (simp add: rsim_def s')
  next
    case refuse
    then have "s' = s\<lparr>refused := insert t (refused s)\<rparr>" using w by (simp add: wait_on_def)
    then show ?thesis using loc by (simp add: rsim_def rabs_def rloc_def)
  next
    case (step x)
    note fr = xem_wait_frame [OF step(1)]
    have "rabs s' = rabs s"
    proof (rule rabs_eqI)
      show "rview (\<lambda>j. pc (sems s' j) u) (rpc s' u) = spc (rabs s) u" for u
        using rview_other [OF loc, of x u k] fr(1) [of u] rview_wait [OF at] by (cases "u = t") (auto simp: step(2))
    qed (simp_all add: step(2) fr(2))
    moreover have "rloc s'"
      using out fr(1) xem_wait_pc [OF step(1)] at by (intro rlocI [OF loc, of _ t]) (auto simp: step(2) loc_ok_def)
    ultimately show ?thesis using wait_step [OF step(1)] by (simp add: rsim_def step(2))
  qed
qed

lemma unlock_sim:
  assumes loc: "rloc s" and at: "unlock_sem (rpc s t) = Some k" and w: "unlock_on k t (after_unlock (rpc s t)) s = Some s'"
    and held: "pc (sems s k) t = Outside \<Longrightarrow> held (sems s k) = 1"
    and spec: "\<And>a. pc (sems s k) t = Outside \<Longrightarrow> spec_unlock k t (after_unlock (rpc s t)) (rabs s) = Some a \<Longrightarrow> spec_step (rabs s) a"
  shows "rsim s s'"
proof -
  let ?x = "sems s k" and ?p = "after_unlock (rpc s t)"
  have out: "pc (sems s j) t = Outside" if "j \<noteq> k" for j using rlocD(2) [OF loc at that] .
  consider (call) "pc ?x t = Outside" | (ret) x where "pc ?x t = U_free" "xem_unlock t ?x = Some x" "s' = rgoto t ?p (set_sem k x s)"
    | (step) x where "pc ?x t \<noteq> U_free" "pc ?x t \<noteq> Outside" "xem_unlock t ?x = Some x" "s' = set_sem k x s"
    using w by (cases "pc ?x t") (auto simp: unlock_on_def)
  then show ?thesis
  proof cases
    case call
    then have s': "s' = set_sem k (claim t ?x) s" using w by (simp add: unlock_on_def)
    let ?a = "sgoto t ?p ((rabs s)\<lparr>taken := (taken (rabs s))(k := False)\<rparr>)"
    have "rabs s' = ?a"
    proof (rule rabs_eqI)
      show "rview (\<lambda>j. pc (sems s' j) u) (rpc s' u) = spc ?a u" for u
        using rview_other [OF loc, of "claim t ?x" u k] at by (cases "u = t") (auto simp: s' sgoto_def rview_def)
    qed (simp_all add: s' held [OF call] sgoto_def)
    moreover have "rloc s'" using out at by (intro rlocI [OF loc, of _ t]) (auto simp: s' loc_ok_def unlocking_def)
    moreover have "0 < held ?x" using held [OF call] by simp
    ultimately show ?thesis using spec [OF call] claim_step [OF call] by (simp add: rsim_def s' spec_unlock_def)
  next
    case (ret x)
    have x: "pc x = (pc ?x)(t := Outside)" using ret(1,2) by (auto simp: xem_unlock_def)
    have "rabs s' = rabs s"
    proof (rule rabs_eqI)
      show "rview (\<lambda>j. pc (sems s' j) u) (rpc s' u) = spc (rabs s) u" for u
      proof (cases "u = t")
        case True
        have "rview (\<lambda>j. pc (sems s' j) t) ?p = ?p" using out x by (intro rview_outside) (auto simp: ret(3))
        then show ?thesis using True at ret(1) by (simp add: ret(3) rview_def)
      next
        case False
        then show ?thesis using rview_other [OF loc, of x u k] x by (simp add: ret(3))
      qed
    qed (simp_all add: ret(3) xem_unlock_frame(2) [OF ret(2)])
    moreover have "rloc s'" using out x by (intro rlocI [OF loc, of _ t]) (auto simp: ret(3) loc_ok_def)
    ultimately show ?thesis using unlock_step [OF ret(2)] by (simp add: rsim_def ret(3))
  next
    case (step x)
    note fr = xem_unlock_frame [OF step(3)]
    have u: "unlocking (pc x t)" using xem_unlock_pc [OF step(3,1)] .
    then have "pc x t \<noteq> Outside" by (auto simp: unlocking_def)
    have "rabs s' = rabs s"
    proof (rule rabs_eqI)
      show "rview (\<lambda>j. pc (sems s' j) u) (rpc s' u) = spc (rabs s) u" for u
        using rview_other [OF loc, of x u k] fr(1) [of u] at step(2) \<open>pc x t \<noteq> Outside\<close>
        by (cases "u = t") (auto simp: step(4) rview_def)
    qed (simp_all add: step(4) fr(2))
    moreover have "rloc s'"
      using out fr(1) u at by (intro rlocI [OF loc, of _ t]) (auto simp: step(4) loc_ok_def)
    ultimately show ?thesis using unlock_step [OF step(3)] by (simp add: rsim_def step(4))
  qed
qed


subsection \<open>The lock implements the specification\<close>

definition rw_ok :: "rwlock \<Rightarrow> bool" where
  "rw_ok s = ((\<forall>k. xem_step\<^sup>*\<^sup>* fresh_xem (sems s k)) \<and> rloc s \<and> spec_step\<^sup>*\<^sup>* spec_fresh (rabs s))"

lemma rw_okD:
  assumes "rw_ok s"
  shows "rloc s" and "xinv (sems s k)"
    and "unlock_sem (rpc s t) = Some k \<Longrightarrow> pc (sems s k) t = Outside \<Longrightarrow> held (sems s k) = 1"
proof -
  show "rloc s" "xinv (sems s k)" using assms xem_reach_inv by (auto simp: rw_ok_def)
  show "held (sems s k) = 1" if "unlock_sem (rpc s t) = Some k" "pc (sems s k) t = Outside"
    using spec_unlocks_taken [of "rabs s" t k] assms that by (simp add: rw_ok_def rview_def)
qed

text \<open>The three kinds of steps, at the counter \<open>r\<close> of the thread.\<close>

lemma move_sim:
  assumes "rw_ok s" and "rpc s t = r" and "wait_sem r = None" "unlock_sem r = None"
    and "spc (rabs s) t = r \<Longrightarrow> spec_step (rabs s) (sgoto t p ((rabs s)\<lparr>readers := n\<rparr>))"
  shows "rsim s (rgoto t p (s\<lparr>ctr := n\<rparr>))"
  using assms rw_okD(1) [OF assms(1)] rlocD(3) [OF rw_okD(1) [OF assms(1)], of t]
  by (intro goto_sim) (auto simp: rview_def)

lemma wait_sim_at:
  assumes "rw_ok s" and "rpc s t = r" and "wait_sem r = Some k" and "wait_on k t p s = Some s'"
    and "\<And>a. spc (rabs s) t = r \<Longrightarrow> spec_wait k t p (rabs s) = Some a \<Longrightarrow> spec_step (rabs s) a"
  shows "rsim s s'"
proof -
  have "spc (rabs s) t = r" using rview_wait [OF assms(3)] assms(2) by simp
  note spec = assms(5) [OF this]
  show ?thesis
    by (rule wait_sim [OF rw_okD(1) [OF assms(1)] rw_okD(2) [OF assms(1)], of t k p]) (use assms(2-4) in \<open>auto intro: spec\<close>)
qed

lemma unlock_sim_at:
  assumes "rw_ok s" and "rpc s t = r" and "unlock_sem r = Some k" and "p = after_unlock r" and "unlock_on k t p s = Some s'"
    and "\<And>a. spc (rabs s) t = r \<Longrightarrow> spec_unlock k t p (rabs s) = Some a \<Longrightarrow> spec_step (rabs s) a"
  shows "rsim s s'"
proof (rule unlock_sim [OF rw_okD(1) [OF assms(1)], of t k])
  show "spec_step (rabs s) a" if "pc (sems s k) t = Outside" "spec_unlock k t (after_unlock (rpc s t)) (rabs s) = Some a" for a
    using that assms(2-4) by (intro assms(6)) (simp_all add: rview_def)
  show "held (sems s k) = 1" if "pc (sems s k) t = Outside" using rw_okD(3) [OF assms(1), of t k] assms(2,3) that by simp
qed (use assms in simp_all)

lemma readers_same [simp]: "(rabs s)\<lparr>readers := ctr s\<rparr> = rabs s"
  by (simp add: rabs_def)

lemma move_sim':
  assumes "rw_ok s" and "rpc s t = r" and "wait_sem r = None" "unlock_sem r = None"
    and "spc (rabs s) t = r \<Longrightarrow> spec_step (rabs s) (sgoto t p (rabs s))"
  shows "rsim s (rgoto t p s)"
  using move_sim [of s t r p "ctr s"] assms by simp

lemma acquire_read_sim:
  assumes "rw_ok s" and "rwlock_acquire_readlock t s = Some s'"
  shows "rsim s s'"
proof -
  have "t \<notin> refused s" using assms(2) by (auto simp: rwlock_acquire_readlock_def split: if_splits)
  then show ?thesis
    using assms(2) spec_step.acquire_read [of t "rabs s"]
    by (cases "rpc s t") (auto simp: rwlock_acquire_readlock_def spec_acquire_readlock_def simp del: rabs_sel(3)
        intro!: move_sim [OF assms(1)] move_sim' [OF assms(1)] intro: wait_sim_at [OF assms(1)] unlock_sim_at [OF assms(1)])
qed

lemma acquire_write_sim:
  assumes "rw_ok s" and "rwlock_acquire_writelock t s = Some s'"
  shows "rsim s s'"
proof -
  have "t \<notin> refused s" using assms(2) by (auto simp: rwlock_acquire_writelock_def split: if_splits)
  then show ?thesis
    using assms(2) spec_step.acquire_write [of t "rabs s"]
    by (cases "rpc s t") (auto simp: rwlock_acquire_writelock_def spec_acquire_writelock_def simp del: rabs_sel(3)
        intro!: move_sim [OF assms(1)] move_sim' [OF assms(1)] intro: wait_sim_at [OF assms(1)] unlock_sim_at [OF assms(1)])
qed

lemma release_read_sim:
  assumes "rw_ok s" and "rwlock_release_readlock t s = Some s'"
  shows "rsim s s'"
proof -
  have "t \<notin> refused s" using assms(2) by (auto simp: rwlock_release_readlock_def split: if_splits)
  then show ?thesis
    using assms(2) spec_step.release_read [of t "rabs s"]
    by (cases "rpc s t") (auto simp: rwlock_release_readlock_def spec_release_readlock_def simp del: rabs_sel(3)
        intro!: move_sim [OF assms(1)] move_sim' [OF assms(1)] intro: wait_sim_at [OF assms(1)] unlock_sim_at [OF assms(1)])
qed

lemma release_write_sim:
  assumes "rw_ok s" and "rwlock_release_writelock t s = Some s'"
  shows "rsim s s'"
proof -
  have "t \<notin> refused s" using assms(2) by (auto simp: rwlock_release_writelock_def split: if_splits)
  then show ?thesis
    using assms(2) spec_step.release_write [of t "rabs s"]
    by (cases "rpc s t") (auto simp: rwlock_release_writelock_def spec_release_writelock_def simp del: rabs_sel(3)
        intro!: move_sim [OF assms(1)] move_sim' [OF assms(1)] intro: wait_sim_at [OF assms(1)] unlock_sim_at [OF assms(1)])
qed

lemma rw_step_sim: "rw_ok s \<Longrightarrow> rw_step s s' \<Longrightarrow> rsim s s'"
  by (erule rw_step.cases) (auto intro: acquire_read_sim acquire_write_sim release_read_sim release_write_sim)

lemma rw_ok_step:
  assumes "rw_ok s" and "rw_step s s'"
  shows "rw_ok s'"
proof -
  have sim: "rsim s s'" using assms by (rule rw_step_sim)
  have "xem_step\<^sup>*\<^sup>* fresh_xem (sems s' k)" for k
    using assms(1) sim unfolding rw_ok_def rsim_def by (metis rtranclp.rtrancl_into_rtrancl)
  moreover have "spec_step\<^sup>*\<^sup>* spec_fresh (rabs s')"
    using assms(1) sim unfolding rw_ok_def rsim_def by (metis rtranclp.rtrancl_into_rtrancl)
  ultimately show ?thesis using sim by (simp add: rw_ok_def rsim_def)
qed

lemma fresh_rwlock_sel: "sems fresh_rwlock = (\<lambda>_. fresh_xem)" "ctr fresh_rwlock = 0" "rpc fresh_rwlock = (\<lambda>_. Apart)"
proof -
  have "sems fresh_rwlock k = fresh_xem" for k
    by (cases k) (simp_all add: fresh_rwlock_def rwlock_init_def init_sem_def xem_init_def raw_xsys_def fresh_xem_def)
  then show "sems fresh_rwlock = (\<lambda>_. fresh_xem)" by blast
qed (simp_all add: fresh_rwlock_def rwlock_init_def init_sem_def xem_init_def)

lemma fresh_rwlock_ok: "rw_ok fresh_rwlock"
proof -
  have "pc fresh_xem = (\<lambda>_. Outside)" "held fresh_xem = 0" by (simp_all add: fresh_xem_def)
  then show ?thesis
    by (simp add: rw_ok_def fresh_rwlock_sel rloc_def loc_ok_def rabs_def spec_fresh_def rview_def)
qed

lemma rw_reach_ok: "rw_step\<^sup>*\<^sup>* fresh_rwlock s \<Longrightarrow> rw_ok s"
  by (induction rule: rtranclp_induct) (auto simp: fresh_rwlock_ok intro: rw_ok_step)

text \<open>
  C38. While a thread holds the lock for writing, no thread holds it for reading and no other thread for writing, however the
  threads interleave at the statements of the lock and of its three semaphores.
\<close>

theorem rwlock_exclusion:
  assumes "rw_step\<^sup>*\<^sup>* fresh_rwlock s" and "rpc s t = Writing"
  shows "rpc s u \<noteq> Reading \<and> (rpc s u = Writing) = (u = t)"
proof -
  have "spec_step\<^sup>*\<^sup>* spec_fresh (rabs s)" using rw_reach_ok [OF assms(1)] by (simp add: rw_ok_def)
  then have spec: "spc (rabs s) u \<noteq> Reading \<and> (spc (rabs s) u = Writing) = (u = t)"
    using assms(2) by (intro spec_exclusion) (simp_all add: rview_def)
  have "rpc s u = Reading \<longrightarrow> spc (rabs s) u = Reading" "rpc s u = Writing \<longrightarrow> spc (rabs s) u = Writing"
    by (simp_all add: rview_def)
  then show ?thesis using spec assms(2) by auto
qed

text \<open>
  C40. The lock implements its specification. In every reachable state, a step of a thread in one of the four functions either changes nothing
  that the specification sees or is a step of the specification, in which a semaphore is a flag that is taken and given back at once;
  and to each of the three semaphores it is a step of \<open>xem_step\<close>, if it touches it.
\<close>

theorem rwlock_refines:
  assumes "rw_step\<^sup>*\<^sup>* fresh_rwlock s" and "rw_step s s'"
  shows "(rabs s' = rabs s \<or> spec_step (rabs s) (rabs s')) \<and> (\<forall>k. sems s' k = sems s k \<or> xem_step (sems s k) (sems s' k))"
  using rw_step_sim [OF rw_reach_ok [OF assms(1)] assms(2)] by (simp add: rsim_def)

datatype rwcall = Read_lock | Write_lock | Read_unlock | Write_unlock

primrec rw_call :: "rwcall \<Rightarrow> int \<Rightarrow> rwlock \<Rightarrow> rwlock option" where
  "rw_call Read_lock = rwlock_acquire_readlock"
| "rw_call Write_lock = rwlock_acquire_writelock"
| "rw_call Read_unlock = rwlock_release_readlock"
| "rw_call Write_unlock = rwlock_release_writelock"

definition run_rw :: "(rwcall \<times> int) list \<Rightarrow> rwlock \<Rightarrow> rwlock option" where
  "run_rw ts s = fold (\<lambda>(c, t) r. Option.bind r (rw_call c t)) ts (Some s)"

lemma rw_call_step: "rw_call c t s = Some s' \<Longrightarrow> rw_step s s'"
  by (cases c) (auto intro: rw_step.intros)

lemma run_rw_reach: "run_rw ts s = Some s' \<Longrightarrow> rw_step\<^sup>*\<^sup>* s s'"
proof (induction ts arbitrary: s' rule: rev_induct)
  case (snoc x ts)
  then obtain s1 where "run_rw ts s = Some s1" "rw_call (fst x) (snd x) s1 = Some s'"
    by (auto simp: run_rw_def bind_eq_Some_conv split: prod.splits)
  with snoc.IH rw_call_step show ?case by (meson rtranclp.rtrancl_into_rtrancl)
qed (simp add: run_rw_def)

text \<open>
  Thread 1 acquires the lock for reading and thread 2 too; thread 1, which has taken \<open>wrt\<close>, releases it first, so that thread 2 gives \<open>wrt\<close> back;
  then thread 3 acquires the lock for writing.
\<close>

definition passage :: "(rwcall \<times> int) list" where
  "passage = replicate 31 (Read_lock, 1) @ replicate 25 (Read_lock, 2) @ replicate 14 (Read_unlock, 1) @ replicate 9 (Read_unlock, 2)"

definition last_out :: rwlock where
  "last_out = the (run_rw passage fresh_rwlock)"

definition wrt_back :: rwlock where
  "wrt_back = the (rwlock_release_readlock 2 last_out)"

definition one_writing :: rwlock where
  "one_writing = the (run_rw (replicate 9 (Read_unlock, 2) @ replicate 13 (Write_lock, 3) @ [(Read_lock, 1)]) wrt_back)"

lemma passage_runs:
  "run_rw passage fresh_rwlock \<noteq> None" "rwlock_release_readlock 2 last_out \<noteq> None"
  "run_rw (replicate 9 (Read_unlock, 2) @ replicate 13 (Write_lock, 3) @ [(Read_lock, 1)]) wrt_back \<noteq> None"
  by code_simp+

lemma passage_reach:
  "rw_step\<^sup>*\<^sup>* fresh_rwlock last_out" "rw_step last_out wrt_back" "rw_step\<^sup>*\<^sup>* fresh_rwlock one_writing"
proof -
  show l: "rw_step\<^sup>*\<^sup>* fresh_rwlock last_out"
    using passage_runs(1) by (intro run_rw_reach [of passage]) (auto simp: last_out_def)
  show b: "rw_step last_out wrt_back"
    using passage_runs(2) by (intro rw_step.release_read [of 2]) (auto simp: wrt_back_def)
  have "rw_step\<^sup>*\<^sup>* wrt_back one_writing"
    unfolding one_writing_def using passage_runs(3) by (intro run_rw_reach) (rule option.collapse [symmetric])
  then show "rw_step\<^sup>*\<^sup>* fresh_rwlock one_writing" using l b by (meson rtranclp.rtrancl_into_rtrancl rtranclp_trans)
qed

theorem rwlock_exclusion_witness:
  "rw_step\<^sup>*\<^sup>* fresh_rwlock one_writing \<and> rpc one_writing 3 = Writing \<and> rpc one_writing 1 \<noteq> Reading"
proof -
  have w: "rpc one_writing 3 = Writing" by code_simp
  then show ?thesis using passage_reach(3) rwlock_exclusion [OF passage_reach(3) w, of 1] by blast
qed

theorem rwlock_refines_witness:
  "rw_step last_out wrt_back \<and> spec_step (rabs last_out) (rabs wrt_back) \<and> xem_step (sems last_out Wrt_sem) (sems wrt_back Wrt_sem) \<and>
   sems wrt_back Mx_sem = sems last_out Mx_sem"
proof -
  have taken: "taken (rabs last_out) Wrt_sem" "\<not> taken (rabs wrt_back) Wrt_sem" by code_simp+
  moreover have "held (sems last_out Wrt_sem) \<noteq> held (sems wrt_back Wrt_sem)" using taken by auto
  moreover have "sems wrt_back Mx_sem = sems last_out Mx_sem"
  proof -
    have "rpc last_out 2 = E_uwrt" "2 \<notin> refused last_out" "pc (sems last_out Wrt_sem) 2 = Outside" by code_simp+
    then show ?thesis by (simp add: wrt_back_def rwlock_release_readlock_def unlock_on_def)
  qed
  ultimately show ?thesis using rwlock_refines [OF passage_reach(1,2)] passage_reach(2) by metis
qed

end
