(* ===== verification/Shell.thy ===== *)
theory Shell
  imports Ulib
begin

text \<open>
  The shell: the tokenizer and the recursive-descent parser of \<open>sh.c\<close> on the bytes of the command line, the termination of the strings in
  place, and what running a command does, as a tree of system calls. Shown: the parser ends on every line, and the strings of a
  parsed command are the words of the line.
\<close>

section \<open>The shell (sh.c)\<close>

subsection \<open>Commands\<close>

text \<open>
  A parsed command. A string inside the command line is given by the index of its first byte and the index behind its last one, the
  pointers \<open>argv[i]\<close> and \<open>eargv[i]\<close>, \<open>file\<close> and \<open>efile\<close> of the source.
\<close>

text \<open>The five constructors do not fail: \<open>sh.c\<close> uses what \<open>malloc\<close> returns without a test.\<close>

type_synonym token = "nat \<times> nat"

datatype cmd = EXEC "token list" | REDIR cmd token u32 int | PIPE cmd cmd | LIST cmd cmd | BACK cmd

definition MAXARGS :: nat where
  "MAXARGS = 10"

definition execcmd :: cmd where
  "execcmd = EXEC []"

definition redircmd :: "cmd \<Rightarrow> token \<Rightarrow> u32 \<Rightarrow> int \<Rightarrow> cmd" where
  "redircmd subcmd f mode fd = REDIR subcmd f mode fd"

definition pipecmd :: "cmd \<Rightarrow> cmd \<Rightarrow> cmd" where
  "pipecmd left right = PIPE left right"

definition listcmd :: "cmd \<Rightarrow> cmd \<Rightarrow> cmd" where
  "listcmd left right = LIST left right"

definition backcmd :: "cmd \<Rightarrow> cmd" where
  "backcmd subcmd = BACK subcmd"

text \<open>\<open>parseexec\<close> keeps a pointer to the \<open>execcmd\<close> it has made, around which redirections are put while its arguments are still added.\<close>

fun add_arg :: "token \<Rightarrow> cmd \<Rightarrow> cmd" where
  "add_arg t (EXEC argv) = EXEC (argv @ [t])"
| "add_arg t (REDIR c f mode fd) = REDIR (add_arg t c) f mode fd"
| "add_arg t c = c"

subsection \<open>Tokens\<close>

definition byte_at :: "u8 list \<Rightarrow> nat \<Rightarrow> u8" where
  "byte_at buf s = (if s < length buf then buf ! s else 0)"

definition whitespace :: "u8 list" where
  "whitespace = [32, 9, 13, 10, 11]"

definition symbols :: "u8 list" where
  "symbols = [60, 124, 62, 38, 59, 40, 41]"

definition in_str :: "u8 list \<Rightarrow> u8 \<Rightarrow> bool" where
  "in_str cs c = (strchr cs c \<noteq> None)"

function skip_white :: "u8 list \<Rightarrow> nat \<Rightarrow> nat \<Rightarrow> nat" where
  "skip_white buf es s = (if s < es \<and> in_str whitespace (byte_at buf s) then skip_white buf es (s + 1) else s)"
  by pat_completeness auto
termination by (relation "measure (\<lambda>(buf, es, s). es - s)") auto

function skip_word :: "u8 list \<Rightarrow> nat \<Rightarrow> nat \<Rightarrow> nat" where
  "skip_word buf es s =
     (if s < es \<and> \<not> in_str whitespace (byte_at buf s) \<and> \<not> in_str symbols (byte_at buf s) then skip_word buf es (s + 1) else s)"
  by pat_completeness auto
termination by (relation "measure (\<lambda>(buf, es, s). es - s)") auto

declare skip_white.simps [simp del] skip_word.simps [simp del]

text \<open>\<open>gettoken\<close> returns the kind of the token, the token itself, and the position behind it and the white space after it.\<close>

definition gettoken :: "u8 list \<Rightarrow> nat \<Rightarrow> nat \<Rightarrow> u8 \<times> token \<times> nat" where
  "gettoken buf es ps =
     (let s = skip_white buf es ps;
          q = s;
          c = byte_at buf s;
          (ret, s) =
            (if c = 0 then (c, s)
             else if c \<in> {124, 40, 41, 59, 38, 60} then (c, s + 1)
             else if c = 62 then (if byte_at buf (s + 1) = 62 then (43, s + 2) else (c, s + 1))
             else (97, skip_word buf es s));
          eq = s;
          s = skip_white buf es s
      in (ret, (q, eq), s))"

definition peek :: "u8 list \<Rightarrow> nat \<Rightarrow> nat \<Rightarrow> u8 list \<Rightarrow> bool \<times> nat" where
  "peek buf es ps toks =
     (let s = skip_white buf es ps
      in (byte_at buf s \<noteq> 0 \<and> in_str toks (byte_at buf s), s))"

subsection \<open>The parser\<close>

text \<open>
  The functions of the parser return the command and the new position \<open>ps\<close>. They call each other and themselves behind
  bytes they have consumed; \<open>fuel\<close> counts the calls and the rounds of the loops.
\<close>

fun parseredirs :: "nat \<Rightarrow> u8 list \<Rightarrow> nat \<Rightarrow> cmd \<Rightarrow> nat \<Rightarrow> (cmd \<times> nat) res" where
  "parseredirs 0 buf es cmd ps = Inl Diverges"
| "parseredirs (Suc fuel) buf es cmd ps =
     (let (found, ps) = peek buf es ps [60, 62]
      in if \<not> found then Inr (cmd, ps)
         else let (tok, _, ps) = gettoken buf es ps;
                  (kind, f, ps) = gettoken buf es ps
              in if kind \<noteq> 97 then Inl (Panic ''missing file for redirection'')
                 else let cmd = (if tok = 60 then redircmd cmd f 0 0
                                 else if tok = 62 then redircmd cmd f (1 OR 0x200) 1
                                 else if tok = 43 then redircmd cmd f (1 OR 0x200) 1
                                 else cmd)
                      in parseredirs fuel buf es cmd ps)"

fun parseargs :: "nat \<Rightarrow> u8 list \<Rightarrow> nat \<Rightarrow> cmd \<Rightarrow> nat \<Rightarrow> nat \<Rightarrow> (cmd \<times> nat) res" where
  "parseargs 0 buf es ret argc ps = Inl Diverges"
| "parseargs (Suc fuel) buf es ret argc ps =
     (let (found, ps) = peek buf es ps [124, 41, 38, 59]
      in if found then Inr (ret, ps)
         else let (tok, t, ps) = gettoken buf es ps
              in if tok = 0 then Inr (ret, ps)
                 else if tok \<noteq> 97 then Inl (Panic ''syntax'')
                 else let ret = add_arg t ret; argc = argc + 1
                      in if argc \<ge> MAXARGS then Inl (Panic ''too many args'')
                         else rbind (parseredirs fuel buf es ret ps) (\<lambda>(ret, ps).
                              parseargs fuel buf es ret argc ps))"

fun parseback :: "nat \<Rightarrow> u8 list \<Rightarrow> nat \<Rightarrow> cmd \<Rightarrow> nat \<Rightarrow> (cmd \<times> nat) res" where
  "parseback 0 buf es cmd ps = Inl Diverges"
| "parseback (Suc fuel) buf es cmd ps =
     (let (found, ps) = peek buf es ps [38]
      in if found then let (_, _, ps) = gettoken buf es ps in parseback fuel buf es (backcmd cmd) ps
         else Inr (cmd, ps))"

text \<open>
  The four functions that call each other are given with open recursion: \<open>rec\<close> stands for the parser of the named part, and \<open>parse\<close> closes
  the recursion with the fuel that is left.
\<close>

datatype part = Line | Pipe | Exec | Block

type_synonym parser = "u8 list \<Rightarrow> nat \<Rightarrow> nat \<Rightarrow> (cmd \<times> nat) res"

definition parseline :: "nat \<Rightarrow> (part \<Rightarrow> parser) \<Rightarrow> parser" where
  "parseline fuel rec buf es ps =
     rbind (rec Pipe buf es ps) (\<lambda>(cmd, ps).
     rbind (parseback fuel buf es cmd ps) (\<lambda>(cmd, ps).
     let (found, ps) = peek buf es ps [59]
     in if found then let (_, _, ps) = gettoken buf es ps
                      in rbind (rec Line buf es ps) (\<lambda>(right, ps). Inr (listcmd cmd right, ps))
        else Inr (cmd, ps)))"

definition parsepipe :: "(part \<Rightarrow> parser) \<Rightarrow> parser" where
  "parsepipe rec buf es ps =
     rbind (rec Exec buf es ps) (\<lambda>(cmd, ps).
     let (found, ps) = peek buf es ps [124]
     in if found then let (_, _, ps) = gettoken buf es ps
                      in rbind (rec Pipe buf es ps) (\<lambda>(right, ps). Inr (pipecmd cmd right, ps))
        else Inr (cmd, ps))"

definition parseexec :: "nat \<Rightarrow> (part \<Rightarrow> parser) \<Rightarrow> parser" where
  "parseexec fuel rec buf es ps =
     (let (found, ps) = peek buf es ps [40]
      in if found then rec Block buf es ps
         else rbind (parseredirs fuel buf es execcmd ps) (\<lambda>(ret, ps).
              parseargs fuel buf es ret 0 ps))"

definition parseblock :: "nat \<Rightarrow> (part \<Rightarrow> parser) \<Rightarrow> parser" where
  "parseblock fuel rec buf es ps =
     (let (found, ps) = peek buf es ps [40]
      in if \<not> found then Inl (Panic ''parseblock'')
         else let (_, _, ps) = gettoken buf es ps
              in rbind (rec Line buf es ps) (\<lambda>(cmd, ps).
                 let (found, ps) = peek buf es ps [41]
                 in if \<not> found then Inl (Panic ''syntax - missing )'')
                    else let (_, _, ps) = gettoken buf es ps
                         in parseredirs fuel buf es cmd ps))"

primrec parse :: "nat \<Rightarrow> part \<Rightarrow> parser" where
  "parse 0 = (\<lambda>k buf es ps. Inl Diverges)"
| "parse (Suc fuel) = (\<lambda>k.
     case k of Line \<Rightarrow> parseline fuel (parse fuel) | Pipe \<Rightarrow> parsepipe (parse fuel)
     | Exec \<Rightarrow> parseexec fuel (parse fuel) | Block \<Rightarrow> parseblock fuel (parse fuel))"

text \<open>
  \<open>nulterminate\<close> writes a zero byte behind every string of the command. The line is an array of bytes with its terminator at \<open>length\<close>;
  a string that ends there is terminated already. (The rest of the line that \<open>parsecmd\<close> prints before a syntax error is left out.)
\<close>

fun nulterminate :: "cmd \<Rightarrow> u8 list \<Rightarrow> u8 list" where
  "nulterminate (EXEC argv) buf = fold (\<lambda>(q, eq) buf. buf[eq := 0]) argv buf"
| "nulterminate (REDIR c (q, eq) mode fd) buf = (nulterminate c buf)[eq := 0]"
| "nulterminate (PIPE l r) buf = nulterminate r (nulterminate l buf)"
| "nulterminate (LIST l r) buf = nulterminate r (nulterminate l buf)"
| "nulterminate (BACK c) buf = nulterminate c buf"

text \<open>When something is left of the line, \<open>parsecmd\<close> prints it before its panic; the message is the one of the panic here.\<close>

definition parsecmd :: "u8 list \<Rightarrow> (cmd \<times> u8 list) res" where
  "parsecmd buf =
     (let es = ustrlen buf
      in rbind (parse (6 * es + 6) Line buf es 0) (\<lambda>(cmd, ps).
         let (_, s) = peek buf es ps []
         in if s \<noteq> es then Inl (Panic ''syntax'')
            else Inr (cmd, nulterminate cmd buf)))"


subsection \<open>Running a command\<close>

text \<open>
  What a process that runs a command does is a tree of system calls: the calls it makes in order, with a branch for each outcome the code
  distinguishes. A fork has the action of the child and that of the parent. The two ends of the pipe a process has just made are \<open>Read_end\<close> and
  \<open>Write_end\<close>, the entries of the array \<open>p\<close>.
\<close>

datatype fdref = Fd int | Read_end | Write_end

datatype action = Exit
  | Print int "u8 list" action
  | Exec_call "u8 list" "u8 list list" action
  | Open_call "u8 list" u32 action action
  | Close_call fdref action
  | Dup_call fdref action
  | Pipe_call action action
  | Fork_call action action action
  | Wait_call action
  | Chdir_call "u8 list" action action

definition ascii_line :: "string \<Rightarrow> u8 list" where
  "ascii_line s = map of_char s @ [10]"

definition sh_panic :: "string \<Rightarrow> action" where
  "sh_panic s = Print 2 (ascii_line s) Exit"

text \<open>\<open>fork1\<close> panics when fork fails; the child runs the first action, the parent the second.\<close>

definition fork1 :: "action \<Rightarrow> action \<Rightarrow> action" where
  "fork1 child parent = Fork_call (sh_panic ''fork'') child parent"

definition cstring :: "u8 list \<Rightarrow> nat \<Rightarrow> u8 list" where
  "cstring buf q = takeWhile (\<lambda>c. c \<noteq> 0) (drop q buf)"

fun runcmd :: "u8 list \<Rightarrow> cmd \<Rightarrow> action" where
  "runcmd buf (EXEC argv) =
     (case argv of
        [] \<Rightarrow> Exit
      | (q, _) # _ \<Rightarrow> Exec_call (cstring buf q) (map (cstring buf \<circ> fst) argv)
          (Print 2 (map of_char ''exec '' @ cstring buf q @ ascii_line '' failed'') Exit))"
| "runcmd buf (REDIR c (q, _) mode fd) =
     Close_call (Fd fd) (Open_call (cstring buf q) mode
       (Print 2 (map of_char ''open '' @ cstring buf q @ ascii_line '' failed'') Exit)
       (runcmd buf c))"
| "runcmd buf (LIST l r) = fork1 (runcmd buf l) (Wait_call (runcmd buf r))"
| "runcmd buf (PIPE l r) =
     Pipe_call (sh_panic ''pipe'')
       (fork1 (Close_call (Fd 1) (Dup_call Write_end (Close_call Read_end (Close_call Write_end (runcmd buf l)))))
       (fork1 (Close_call (Fd 0) (Dup_call Read_end (Close_call Read_end (Close_call Write_end (runcmd buf r)))))
       (Close_call Read_end (Close_call Write_end (Wait_call (Wait_call Exit))))))"
| "runcmd buf (BACK c) = fork1 (runcmd buf c) Exit"

definition getcmd :: "('f \<Rightarrow> u8 option \<times> 'f) \<Rightarrow> nat \<Rightarrow> 'f \<Rightarrow> (int \<times> u8 list \<times> 'f) res" where
  "getcmd rd nbuf f =
     rbind (gets rd (replicate nbuf 0) (int nbuf) f) (\<lambda>(buf, f).
     Inr (if cur buf = 0 then -1 else 0, buf, f))"

text \<open>One round of the loop of \<open>main\<close>, on the line \<open>getcmd\<close> has read; \<open>nxt\<close> is what the shell does afterwards.\<close>

definition run_line :: "u8 list \<Rightarrow> action \<Rightarrow> action" where
  "run_line buf nxt =
     (if byte_at buf 0 = 99 \<and> byte_at buf 1 = 100 \<and> byte_at buf 2 = 32
      then let buf = buf[ustrlen buf - 1 := 0]
           in Chdir_call (cstring buf 3) (Print 2 (map of_char ''cannot cd '' @ cstring buf 3 @ [10]) nxt) nxt
      else fork1
        (case parsecmd buf of
           Inl (Panic m) \<Rightarrow> sh_panic m
         | Inl _ \<Rightarrow> Exit
         | Inr (cmd, buf) \<Rightarrow> runcmd buf cmd)
        (Wait_call nxt))"

subsection \<open>Positions and words\<close>

text \<open>\<open>es\<close> is the end of the line: the first zero byte.\<close>

definition line_end :: "u8 list \<Rightarrow> nat \<Rightarrow> bool" where
  "line_end buf es = (es \<le> length buf \<and> (\<forall>i<es. byte_at buf i \<noteq> 0) \<and> byte_at buf es = 0)"

definition wordchar :: "u8 \<Rightarrow> bool" where
  "wordchar c = (c \<noteq> 0 \<and> \<not> in_str whitespace c \<and> \<not> in_str symbols c)"

definition is_word :: "u8 list \<Rightarrow> token \<Rightarrow> bool" where
  "is_word buf t = (case t of (q, e) \<Rightarrow> q < e \<and> e \<le> length buf \<and> (\<forall>i. q \<le> i \<and> i < e \<longrightarrow> wordchar (byte_at buf i)) \<and>
     \<not> wordchar (byte_at buf e))"

fun tokens :: "cmd \<Rightarrow> token list" where
  "tokens (EXEC argv) = argv"
| "tokens (REDIR c f mode fd) = tokens c @ [f]"
| "tokens (PIPE l r) = tokens l @ tokens r"
| "tokens (LIST l r) = tokens l @ tokens r"
| "tokens (BACK c) = tokens c"

lemma ustrlen_line_end: "line_end buf (ustrlen buf)"
proof (induction buf)
  case Nil
  then show ?case by (simp add: line_end_def byte_at_def)
next
  case (Cons c buf)
  have "byte_at (c # buf) i = (case i of 0 \<Rightarrow> c | Suc j \<Rightarrow> byte_at buf j)" for i
    by (simp add: byte_at_def split: nat.split)
  then show ?case using Cons by (auto simp: line_end_def split: nat.splits)
qed

lemma skip_white_bounds: "s \<le> es \<Longrightarrow> s \<le> skip_white buf es s \<and> skip_white buf es s \<le> es"
  by (induction buf es s rule: skip_white.induct) (subst (1 2) skip_white.simps, auto)

lemma skip_word_bounds: "s \<le> es \<Longrightarrow> s \<le> skip_word buf es s \<and> skip_word buf es s \<le> es"
  by (induction buf es s rule: skip_word.induct) (subst (1 2) skip_word.simps, auto)

lemma skip_word_chars:
  "line_end buf es \<Longrightarrow> s \<le> i \<Longrightarrow> i < skip_word buf es s \<Longrightarrow> wordchar (byte_at buf i)"
proof (induction buf es s rule: skip_word.induct)
  case (1 buf es s)
  have word: "s < es" "\<not> in_str whitespace (byte_at buf s)" "\<not> in_str symbols (byte_at buf s)"
    using "1.prems"(2,3) by (subst (asm) skip_word.simps, auto split: if_splits)+
  then have "skip_word buf es s = skip_word buf es (s + 1)" by (subst skip_word.simps) simp
  then show ?case
    using 1 word by (cases "i = s") (auto simp: wordchar_def line_end_def)
qed

lemma skip_word_end: "line_end buf es \<Longrightarrow> s \<le> es \<Longrightarrow> \<not> wordchar (byte_at buf (skip_word buf es s))"
proof (induction buf es s rule: skip_word.induct)
  case (1 buf es s)
  show ?case
  proof (cases "s < es \<and> \<not> in_str whitespace (byte_at buf s) \<and> \<not> in_str symbols (byte_at buf s)")
    case True
    then show ?thesis using 1 by (subst skip_word.simps) simp
  next
    case False
    then show ?thesis using 1 by (subst skip_word.simps) (auto simp: wordchar_def line_end_def)
  qed
qed

lemma peek_ok:
  assumes "line_end buf es" and "ps \<le> es" and "peek buf es ps toks = (found, s)"
  shows "ps \<le> s" and "s \<le> es" and "found \<Longrightarrow> s < es \<and> in_str toks (byte_at buf s)"
  using assms skip_white_bounds [OF assms(2), of buf]
  by (auto simp: peek_def line_end_def Let_def nat_less_le)

lemma skip_white_stop: "skip_white buf es s < es \<Longrightarrow> \<not> in_str whitespace (byte_at buf (skip_white buf es s))"
proof (induction buf es s rule: skip_white.induct)
  case (1 buf es s)
  show ?case
  proof (cases "s < es \<and> in_str whitespace (byte_at buf s)")
    case True
    then have "skip_white buf es s = skip_white buf es (s + 1)" by (subst skip_white.simps) simp
    then show ?thesis using 1 True by simp
  next
    case False
    then have "skip_white buf es s = s" by (subst skip_white.simps) auto
    then show ?thesis using 1 False by simp
  qed
qed

lemma skip_word_progress:
  assumes "s < es" and "wordchar (byte_at buf s)"
  shows "s < skip_word buf es s"
proof -
  have "skip_word buf es s = skip_word buf es (s + 1)"
    using assms by (subst skip_word.simps) (simp add: wordchar_def)
  then show ?thesis using skip_word_bounds [of "s + 1" es buf] assms(1) by simp
qed

lemma in_symbols: "in_str symbols c = (c \<in> {60, 124, 62, 38, 59, 40, 41})"
  by (auto simp: in_str_def symbols_def)

lemma gettoken_word:
  assumes "line_end buf es" and "s < es" and "wordchar (byte_at buf s)"
  shows "is_word buf (s, skip_word buf es s)"
  using skip_word_chars [OF assms(1), of s] skip_word_end [OF assms(1), of s] skip_word_progress [OF assms(2,3)]
    skip_word_bounds [of s es buf] assms(1,2)
  by (simp add: is_word_def line_end_def)

lemma gettoken_ok:
  assumes "line_end buf es" and "ps \<le> es" and "gettoken buf es ps = (tok, (q, e), s)"
  shows "ps \<le> s \<and> s \<le> es \<and> (tok \<noteq> 0 \<longrightarrow> ps < s) \<and> (tok = 97 \<longrightarrow> is_word buf (q, e)) \<and> (tok = 0 \<longrightarrow> skip_white buf es ps = es)"
proof -
  define s0 where "s0 = skip_white buf es ps"
  define c where "c = byte_at buf s0"
  have s0: "ps \<le> s0" "s0 \<le> es" using skip_white_bounds [OF assms(2)] by (simp_all add: s0_def)
  have fin: "tok = r \<Longrightarrow> q = s0 \<Longrightarrow> e = s1 \<Longrightarrow> s = skip_white buf es s1 \<Longrightarrow> s0 \<le> s1 \<Longrightarrow> s1 \<le> es \<Longrightarrow>
      (r \<noteq> 0 \<Longrightarrow> s0 < s1) \<Longrightarrow> (r = 97 \<Longrightarrow> is_word buf (s0, s1)) \<Longrightarrow> (r = 0 \<Longrightarrow> s0 = es) \<Longrightarrow> ?thesis" for r s1
    using s0 skip_white_bounds [of s1 es buf] by (auto simp: s0_def [symmetric])
  have tok: "gettoken buf es ps =
      (let (r, s1) = (if c = 0 then (c, s0)
             else if c \<in> {124, 40, 41, 59, 38, 60} then (c, s0 + 1)
             else if c = 62 then (if byte_at buf (s0 + 1) = 62 then (43, s0 + 2) else (c, s0 + 1))
             else (97, skip_word buf es s0))
       in (r, (s0, s1), skip_white buf es s1))"
    by (simp add: gettoken_def s0_def c_def Let_def)
  show ?thesis
  proof (cases "c = 0")
    case True
    then have "s0 = es" using assms(1) s0(2) by (metis c_def line_end_def nat_less_le)
    then show ?thesis using assms(3) True tok by (intro fin [of 0 s0]) auto
  next
    case False
    then have lt: "s0 < es" using s0(2) assms(1) by (metis c_def line_end_def nat_less_le)
    consider "c \<in> {124, 40, 41, 59, 38, 60} \<or> c = 62 \<and> byte_at buf (s0 + 1) \<noteq> 62" | "c = 62" "byte_at buf (s0 + 1) = 62"
      | "c \<notin> {124, 40, 41, 59, 38, 60, 62}" by blast
    then show ?thesis
    proof cases
      case 1
      then show ?thesis using assms(3) False tok lt by (intro fin [of c "s0 + 1"]) auto
    next
      case 2
      then have "s0 + 1 \<noteq> es" using assms(1) by (auto simp: line_end_def)
      then show ?thesis using assms(3) False tok 2 lt by (intro fin [of 43 "s0 + 2"]) auto
    next
      case 3
      then have "wordchar c"
        using skip_white_stop [of buf es ps] lt False in_symbols [of c] by (auto simp: wordchar_def c_def s0_def)
      then show ?thesis
        using assms(3) False tok 3 lt gettoken_word [OF assms(1) lt] skip_word_progress [OF lt, of buf] skip_word_bounds [of s0 es buf]
        by (intro fin [of 97 "skip_word buf es s0"]) (auto simp: c_def)
    qed
  qed
qed

definition parsed :: "u8 list \<Rightarrow> nat \<Rightarrow> nat \<Rightarrow> (cmd \<times> nat) res \<Rightarrow> bool" where
  "parsed buf es ps r = (case r of Inl e \<Rightarrow> (\<exists>m. e = Panic m)
     | Inr (c, ps') \<Rightarrow> ps \<le> ps' \<and> ps' \<le> es \<and> list_all (is_word buf) (tokens c))"

lemma parsed_simps [simp]:
  "parsed buf es ps (Inl (Panic m))"
  "parsed buf es ps (Inr (c, ps')) = (ps \<le> ps' \<and> ps' \<le> es \<and> list_all (is_word buf) (tokens c))"
  by (simp_all add: parsed_def)

lemma parsed_mono: "parsed buf es ps r \<Longrightarrow> ps' \<le> ps \<Longrightarrow> parsed buf es ps' r"
  by (auto simp: parsed_def split: sum.splits)

lemma parsed_bind:
  assumes "parsed buf es ps r"
    and "\<And>c ps'. ps \<le> ps' \<Longrightarrow> ps' \<le> es \<Longrightarrow> list_all (is_word buf) (tokens c) \<Longrightarrow> parsed buf es ps (f (c, ps'))"
  shows "parsed buf es ps (rbind r f)"
  using assms by (cases r) (auto simp: parsed_def)


lemma consume:
  assumes "line_end buf es" and "ps \<le> es" and "peek buf es ps toks = (True, p1)" and "gettoken buf es p1 = (tok, t, p2)"
  shows "ps < p2" and "p2 \<le> es"
proof -
  have p1: "ps \<le> p1" "p1 < es" using peek_ok [OF assms(1-3)] by auto
  have "p1 = skip_white buf es ps" using assms(3) by (simp add: peek_def Let_def)
  then have "\<not> in_str whitespace (byte_at buf p1)" using skip_white_stop p1(2) by metis
  then have "skip_white buf es p1 = p1" by (subst skip_white.simps) simp
  then show "ps < p2" "p2 \<le> es"
    using gettoken_ok [OF assms(1), of p1 tok "fst t" "snd t" p2] assms(4) p1 by auto
qed

lemma parseredirs_ok:
  assumes "line_end buf es" and "ps \<le> es" and "es - ps < fuel" and "list_all (is_word buf) (tokens c)"
  shows "parsed buf es ps (parseredirs fuel buf es c ps)"
  using assms(2-4)
proof (induction fuel arbitrary: c ps)
  case (Suc fuel)
  obtain found p1 where pk: "peek buf es ps [60, 62] = (found, p1)" by fastforce
  obtain tok t p2 where g1: "gettoken buf es p1 = (tok, t, p2)" by (metis prod_cases3)
  obtain kind f p3 where g2: "gettoken buf es p2 = (kind, f, p3)" by (metis prod_cases3)
  show ?case
  proof (cases found)
    case False
    then show ?thesis using pk peek_ok [OF assms(1) Suc.prems(1) pk] Suc.prems by simp
  next
    case True
    have p2: "ps < p2" "p2 \<le> es"
      using consume [OF assms(1) Suc.prems(1)] pk g1 True by auto
    have p3: "p2 \<le> p3" "p3 \<le> es" "kind = 97 \<longrightarrow> is_word buf f"
      using gettoken_ok [OF assms(1) p2(2), of kind "fst f" "snd f" p3] g2 by auto
    have "parsed buf es ps (parseredirs fuel buf es c' p3)" if "kind = 97" "c' = c \<or> (\<exists>mode fd. c' = REDIR c f mode fd)" for c'
      by (rule parsed_mono [OF Suc.IH]) (use p2 p3 that Suc.prems in auto)
    then show ?thesis
      using True pk g1 g2 by (auto simp: Let_def redircmd_def)
  qed
qed simp

lemma tokens_add_arg: "set (tokens (add_arg t c)) \<subseteq> insert t (set (tokens c))"
  by (induction t c rule: add_arg.induct) auto

lemma parseargs_ok:
  assumes "line_end buf es" and "ps \<le> es" and "es - ps < fuel" and "list_all (is_word buf) (tokens c)"
  shows "parsed buf es ps (parseargs fuel buf es c argc ps)"
  using assms(2-4)
proof (induction fuel arbitrary: c argc ps)
  case (Suc fuel)
  obtain found p1 where pk: "peek buf es ps [124, 41, 38, 59] = (found, p1)" by fastforce
  obtain tok t p2 where g: "gettoken buf es p1 = (tok, t, p2)" by (metis prod_cases3)
  have p1: "ps \<le> p1" "p1 \<le> es" using peek_ok [OF assms(1) Suc.prems(1) pk] by auto
  have p2: "p1 \<le> p2" "p2 \<le> es" "tok \<noteq> 0 \<longrightarrow> p1 < p2" "tok = 97 \<longrightarrow> is_word buf t"
    using gettoken_ok [OF assms(1) p1(2), of tok "fst t" "snd t" p2] g by auto
  show ?case
  proof (cases "\<not> found \<and> tok = 97 \<and> argc + 1 < MAXARGS")
    case False
    then show ?thesis using pk g p1 p2 Suc.prems(3) by (auto simp: Let_def)
  next
    case True
    then have "list_all (is_word buf) (tokens (add_arg t c))"
      using tokens_add_arg [of t c] p2(4) Suc.prems(3) by (auto simp: list_all_iff)
    then have "parsed buf es p2 (rbind (parseredirs fuel buf es (add_arg t c) p2)
        (\<lambda>(ret, ps). parseargs fuel buf es ret (argc + 1) ps))"
      using True p1 p2 Suc.prems
      by (intro parsed_bind parseredirs_ok [OF assms(1)]) (auto intro!: parsed_mono [OF Suc.IH])
    then show ?thesis
      using True pk g p1 p2 by (auto simp: Let_def elim: parsed_mono)
  qed
qed simp

lemma parseback_ok:
  assumes "line_end buf es" and "ps \<le> es" and "es - ps < fuel" and "list_all (is_word buf) (tokens c)"
  shows "parsed buf es ps (parseback fuel buf es c ps)"
  using assms(2-4)
proof (induction fuel arbitrary: c ps)
  case (Suc fuel)
  obtain found p1 where pk: "peek buf es ps [38] = (found, p1)" by fastforce
  obtain tok t p2 where g: "gettoken buf es p1 = (tok, t, p2)" by (metis prod_cases3)
  show ?case
  proof (cases found)
    case False
    then show ?thesis using pk peek_ok [OF assms(1) Suc.prems(1) pk] Suc.prems by simp
  next
    case True
    have p2: "ps < p2" "p2 \<le> es" using consume [OF assms(1) Suc.prems(1)] pk g True by auto
    then show ?thesis
      using True pk g Suc.prems by (auto simp: Let_def backcmd_def intro!: parsed_mono [OF Suc.IH])
  qed
qed simp


text \<open>
  The parser needs at most six calls per byte: each of the four functions passes its position on to the next one, and a byte is consumed
  before the first one is called again.
\<close>

definition rank :: "part \<Rightarrow> nat" where
  "rank k = (case k of Line \<Rightarrow> 5 | Pipe \<Rightarrow> 4 | Exec \<Rightarrow> 3 | Block \<Rightarrow> 2)"

lemma parse_then:
  assumes "line_end buf es" and "ps \<le> ps'" and "ps' \<le> es" and "list_all (is_word buf) (tokens c)"
    and "\<And>p. ps' < p \<Longrightarrow> p \<le> es \<Longrightarrow> parsed buf es p (rec p)" and "\<And>l r. tokens (join l r) = tokens l @ tokens r"
  shows "parsed buf es ps (let (found, p) = peek buf es ps' toks
    in if found then let (_, _, p) = gettoken buf es p in rbind (rec p) (\<lambda>(right, p). Inr (join c right, p))
       else Inr (c, p))"
proof -
  obtain found p1 where pk: "peek buf es ps' toks = (found, p1)" by fastforce
  obtain tok t p2 where g: "gettoken buf es p1 = (tok, t, p2)" by (metis prod_cases3)
  show ?thesis
  proof (cases found)
    case False
    then show ?thesis using pk peek_ok [OF assms(1,3) pk] assms by simp
  next
    case True
    then have p2: "ps' < p2" "p2 \<le> es" using consume [OF assms(1,3)] pk g by auto
    have "parsed buf es p2 (rbind (rec p2) (\<lambda>(right, p). Inr (join c right, p)))"
      using assms(4,6) by (intro parsed_bind assms(5) p2) auto
    then show ?thesis using True pk g p2 assms(2) by (auto simp: Let_def elim: parsed_mono)
  qed
qed

lemma parse_bind_then:
  assumes "line_end buf es" and "parsed buf es ps r" and "\<And>l r. tokens (join l r) = tokens l @ tokens r"
    and "\<And>p. ps < p \<Longrightarrow> p \<le> es \<Longrightarrow> parsed buf es p (rec p)"
  shows "parsed buf es ps (rbind r (\<lambda>(c, ps). let (found, p) = peek buf es ps toks
    in if found then let (_, _, p) = gettoken buf es p in rbind (rec p) (\<lambda>(right, p). Inr (join c right, p))
       else Inr (c, p)))"
proof (rule parsed_bind [OF assms(2)], unfold prod.case)
  fix c p assume "ps \<le> p" "p \<le> es" "list_all (is_word buf) (tokens c)"
  then show "parsed buf es ps (let (found, p) = peek buf es p toks
    in if found then let (_, _, p) = gettoken buf es p in rbind (rec p) (\<lambda>(right, p). Inr (join c right, p))
       else Inr (c, p))"
    using assms(3,4) by (intro parse_then [OF assms(1)]) auto
qed

lemma parseblock_ok:
  assumes "line_end buf es" and "ps \<le> es" and "es - ps < fuel"
    and "\<And>p. ps < p \<Longrightarrow> p \<le> es \<Longrightarrow> parsed buf es p (rec Line buf es p)"
  shows "parsed buf es ps (parseblock fuel rec buf es ps)"
proof -
  obtain found p1 where pk: "peek buf es ps [40] = (found, p1)" by fastforce
  obtain tok t p2 where g: "gettoken buf es p1 = (tok, t, p2)" by (metis prod_cases3)
  show ?thesis
  proof (cases found)
    case False
    then show ?thesis using pk by (simp add: parseblock_def)
  next
    case True
    then have p2: "ps < p2" "p2 \<le> es" using consume [OF assms(1,2)] pk g by auto
    have "parsed buf es p2 (rbind (rec Line buf es p2) (\<lambda>(cmd, ps).
        let (found, ps) = peek buf es ps [41]
        in if \<not> found then Inl (Panic ''syntax - missing )'')
           else let (_, _, ps) = gettoken buf es ps in parseredirs fuel buf es cmd ps))"
    proof (rule parsed_bind)
      show "parsed buf es p2 (rec Line buf es p2)" by (rule assms(4) [OF p2])
      fix c p assume p: "p2 \<le> p" "p \<le> es" "list_all (is_word buf) (tokens c)"
      obtain found' p3 where pk': "peek buf es p [41] = (found', p3)" by fastforce
      obtain tok' t' p4 where g': "gettoken buf es p3 = (tok', t', p4)" by (metis prod_cases3)
      have "parsed buf es p2 (parseredirs fuel buf es c p4)" if found'
      proof -
        have "p < p4" "p4 \<le> es" using consume [OF assms(1) p(2)] pk' g' that by auto
        then show ?thesis
          using p p2 assms(3) by (intro parsed_mono [OF parseredirs_ok [OF assms(1)]]) auto
      qed
      then show "parsed buf es p2 (case (c, p) of (cmd, ps) \<Rightarrow>
          let (found, ps) = peek buf es ps [41]
          in if \<not> found then Inl (Panic ''syntax - missing )'')
             else let (_, _, ps) = gettoken buf es ps in parseredirs fuel buf es cmd ps)"
        using pk' g' by simp
    qed
    then show ?thesis using True pk g p2 by (auto simp: parseblock_def Let_def elim: parsed_mono)
  qed
qed

lemma parse_ok:
  assumes "line_end buf es"
  shows "ps \<le> es \<Longrightarrow> 6 * (es - ps) + rank k \<le> fuel \<Longrightarrow> parsed buf es ps (parse fuel k buf es ps)"
proof (induction fuel arbitrary: k ps)
  case 0
  then show ?case by (simp add: rank_def split: part.splits)
next
  case (Suc fuel)
  have ih: "parsed buf es p (parse fuel k' buf es p)" if "p \<le> es" "6 * (es - p) + rank k' \<le> fuel" for p k'
    using Suc.IH that by blast
  have later: "parsed buf es p (parse fuel k' buf es p)" if "ps < p" "p \<le> es" for p k'
  proof -
    have "rank k' \<le> 5" by (simp add: rank_def split: part.split)
    then show ?thesis using that Suc.prems by (intro ih) linarith+
  qed
  show ?case
  proof (cases k)
    case Line
    have pp: "parsed buf es ps (parse fuel Pipe buf es ps)" using Suc.prems Line by (intro ih) (auto simp: rank_def)
    have bk: "parsed buf es p (parseback fuel buf es c p)" if "ps \<le> p" "p \<le> es" "list_all (is_word buf) (tokens c)" for c p
      using that Suc.prems Line by (intro parseback_ok [OF assms]) (auto simp: rank_def)
    have "parsed buf es ps (parseline fuel (parse fuel) buf es ps)"
      unfolding parseline_def
      by (rule parsed_bind [OF pp], unfold prod.case, rule parse_bind_then [OF assms])
        (auto simp: listcmd_def intro: later parsed_mono [OF bk])
    then show ?thesis using Line by simp
  next
    case Pipe
    have "parsed buf es ps (parse fuel Exec buf es ps)" using Suc.prems Pipe by (intro ih) (auto simp: rank_def)
    then have "parsed buf es ps (parsepipe (parse fuel) buf es ps)"
      unfolding parsepipe_def by (intro parse_bind_then [OF assms]) (auto simp: pipecmd_def intro: later)
    then show ?thesis using Pipe by simp
  next
    case Exec
    obtain found p1 where pk: "peek buf es ps [40] = (found, p1)" by fastforce
    have p1: "ps \<le> p1" "p1 \<le> es" using peek_ok [OF assms Suc.prems(1) pk] by auto
    have "parsed buf es p1 (parse fuel Block buf es p1)"
      using p1 Suc.prems Exec by (intro ih) (auto simp: rank_def)
    moreover have "parsed buf es p1 (rbind (parseredirs fuel buf es execcmd p1) (\<lambda>(ret, ps). parseargs fuel buf es ret 0 ps))"
      using p1 Suc.prems Exec
      by (intro parsed_bind parseredirs_ok [OF assms]) (auto simp: rank_def execcmd_def intro!: parsed_mono [OF parseargs_ok [OF assms]])
    ultimately have "parsed buf es ps (parseexec fuel (parse fuel) buf es ps)"
      using p1(1) by (auto simp: parseexec_def pk elim: parsed_mono)
    then show ?thesis using Exec by simp
  next
    case Block
    have "parsed buf es ps (parseblock fuel (parse fuel) buf es ps)"
      using Suc.prems Block later by (intro parseblock_ok [OF assms]) (auto simp: rank_def)
    then show ?thesis using Block by simp
  qed
qed


subsection \<open>The strings of a command\<close>

definition end_tokens :: "token list \<Rightarrow> u8 list \<Rightarrow> u8 list" where
  "end_tokens ts buf = fold (\<lambda>(q, eq) buf. buf[eq := 0]) ts buf"

lemma end_tokens_append: "end_tokens (ts @ us) buf = end_tokens us (end_tokens ts buf)"
  by (simp add: end_tokens_def)

lemma nulterminate_tokens: "nulterminate c buf = end_tokens (tokens c) buf"
  by (induction c buf rule: nulterminate.induct) (simp_all add: end_tokens_append, simp_all add: end_tokens_def)

lemma end_tokens_nth:
  "length (end_tokens ts buf) = length buf"
  "i < length buf \<Longrightarrow> end_tokens ts buf ! i = (if i \<in> snd ` set ts then 0 else buf ! i)"
  by (induction ts arbitrary: buf) (auto simp: end_tokens_def nth_list_update split: prod.splits)

lemma cstring_token:
  assumes "list_all (is_word buf) ts" and "(q, e) \<in> set ts"
  shows "cstring (end_tokens ts buf) q = take (e - q) (drop q buf)"
proof -
  have w: "q < e" "e \<le> length buf" "\<And>i. q \<le> i \<Longrightarrow> i < e \<Longrightarrow> wordchar (buf ! i)"
    using assms unfolding list_all_iff is_word_def byte_at_def by (fastforce split: if_splits)+
  have keep: "end_tokens ts buf ! i = buf ! i" if "q \<le> i" "i < e" for i
  proof -
    have "i \<notin> snd ` set ts"
      using assms(1) w(2,3) that by (fastforce simp: list_all_iff is_word_def byte_at_def)
    then show ?thesis using that w(2) by (simp add: end_tokens_nth)
  qed
  have "takeWhile (\<lambda>c. c \<noteq> 0) (drop q (end_tokens ts buf)) = take (e - q) (drop q (end_tokens ts buf))"
  proof (rule takeWhile_eq_take_P_nth)
    show "drop q (end_tokens ts buf) ! i \<noteq> 0" if "i < e - q" "i < length (drop q (end_tokens ts buf))" for i
      using keep [of "q + i"] w(3) [of "q + i"] that by (auto simp: end_tokens_nth(1) wordchar_def)
    show "\<not> drop q (end_tokens ts buf) ! (e - q) \<noteq> 0" if "e - q < length (drop q (end_tokens ts buf))"
    proof -
      have "e < length buf" "e \<in> snd ` set ts" using that w(1) assms(2) by (auto simp: end_tokens_nth(1) image_iff intro!: bexI [of _ "(q, e)"])
      then show ?thesis using w(1) by (simp add: end_tokens_nth)
    qed
  qed
  also have "\<dots> = take (e - q) (drop q buf)"
    using w(1,2) keep by (intro nth_equalityI) (auto simp: end_tokens_nth(1))
  finally show ?thesis by (simp add: cstring_def)
qed

text \<open>
  C39. The parser of the shell ends on every command line. It either stops with one of its messages, or it returns a command in
  which every argument and every file name is a word of the line: the bytes from its start up to the next zero byte are, after the strings have been
  terminated in place, a non-empty sequence of characters of the line that are neither white space nor symbols.
\<close>

theorem parsecmd_total:
  "case parsecmd buf of
     Inl e \<Rightarrow> \<exists>m. e = Panic m
   | Inr (c, buf') \<Rightarrow> list_all (\<lambda>(q, e). q < e \<and> cstring buf' q = take (e - q) (drop q buf) \<and> list_all wordchar (cstring buf' q)) (tokens c)"
proof -
  define es where "es = ustrlen buf"
  have line: "line_end buf es" unfolding es_def by (rule ustrlen_line_end)
  have "parsed buf es 0 (parse (6 * es + 6) Line buf es 0)" by (rule parse_ok [OF line]) (simp_all add: rank_def)
  then consider m where "parse (6 * es + 6) Line buf es 0 = Inl (Panic m)"
    | c ps where "parse (6 * es + 6) Line buf es 0 = Inr (c, ps)" "list_all (is_word buf) (tokens c)"
    by (cases "parse (6 * es + 6) Line buf es 0") (auto simp: parsed_def)
  then show ?thesis
  proof cases
    case 1
    then show ?thesis by (simp add: parsecmd_def flip: es_def)
  next
    case 2
    have "q < e \<and> cstring (nulterminate c buf) q = take (e - q) (drop q buf) \<and> list_all wordchar (cstring (nulterminate c buf) q)"
      if "(q, e) \<in> set (tokens c)" for q e
    proof -
      have "is_word buf (q, e)" using 2(2) that by (auto simp: list_all_iff)
      then have "q < e" "list_all wordchar (take (e - q) (drop q buf))"
        by (auto simp: is_word_def byte_at_def list_all_length)
      then show ?thesis using cstring_token [OF 2(2) that] by (simp add: nulterminate_tokens)
    qed
    then show ?thesis
      using 2(1) by (auto simp: parsecmd_def list_all_iff Let_def split: prod.splits simp flip: es_def)
  qed
qed

end
