(* ===== verification/Spec2Isabelle.thy ===== *)
theory Spec2Isabelle
  imports Cstring Spinlock Log_Commit Sched_Wakeup Futex_Exit Syscall Fs_Data Grep Rwlock Shell
begin

text \<open>
  This development verifies the operating system of HYU-ELE3021, a fork of xv6 under
  \<open>src/xv6-public/\<close>: a multi-level feedback queue (MLFQ) with a stride scheduler on top,
  light-weight threads that share an address space, futexes, positioned reads and writes, and
  files with a triply indirect block. The C functions are translated one by one into HOL
  functions, with the state they work on passed explicitly, and theorems are proved about those
  functions.

  \<^bold>\<open>Conventions.\<close> Machine integers are words where their width matters (\<open>u8\<close>, \<open>u16\<close>, \<open>u32\<close> of
  \<open>Kernel_Prelude\<close>) and \<open>int\<close> or \<open>nat\<close> where the values are small by construction. A function
  that can fail to return has type \<open>'a res\<close>: \<open>Panic m\<close> is a call of \<open>panic(m)\<close>, \<open>Wild_pointer\<close> the
  use of a null pointer or an index outside an array, \<open>Diverges\<close> a loop that does not end within
  its fuel, \<open>Blocks\<close> a sleep for an event that only another thread can bring about. The kernel
  state is one extensible record that grows from theory to theory (\<open>kmem\<close>, \<open>vmem\<close>, \<open>ptable\<close>,
  \<open>blocks\<close>, \<open>fsys\<close>, \<open>files\<close>, \<open>kernel\<close>), so that an operation of a lower layer applies unchanged to
  the states of the upper ones. The buffer cache and the log have a record of their own (\<open>bio\<close>,
  \<open>log\<close>). A pointer into a fixed table (process, inode, file, buffer) is the index of its slot.

  \<^bold>\<open>Basic services.\<close>
  \<^item> \<open>Cstring\<close> (\<open>string.c\<close>, string instructions of \<open>x86.h\<close>): \<open>memmove\<close> copies correctly for overlapping
    regions, a name stored by \<open>strncpy\<close> compares equal by \<open>strncmp\<close>, \<open>safestrcpy\<close> terminates.
  \<^item> \<open>List_Head\<close> (\<open>list.h\<close>): circular lists on a store of links. The locale \<open>seq_store\<close> states the
    sequence interface, interpreted on the list operations.
  \<^item> \<open>Spinlock\<close> (\<open>spinlock.c\<close>): \<open>acquire\<close>, \<open>release\<close>, \<open>pushcli\<close>, \<open>popcli\<close>, and a step relation whose
    reachable states keep interrupts off on the CPU that holds a lock.
  \<^item> \<open>Kalloc\<close> (\<open>kalloc.c\<close>): the free list threaded through the free pages, with the locale
    \<open>page_allocator\<close>.
  \<^item> \<open>Vm\<close> (\<open>vm.c\<close>, parts of \<open>mmu.h\<close>): two-level page tables on the bytes of memory.

  \<^bold>\<open>Processes and scheduling.\<close>
  \<^item> \<open>Proc_Table\<close> (\<open>proc.h\<close>, \<open>scheduler.h\<close>, helpers of \<open>thread.c\<close>): the process table, its lists and the
    ring of threads of a process.
  \<^item> \<open>Stride_Heap\<close> (\<open>pushheap\<close>, \<open>popheap\<close>, \<open>getminpass\<close> of \<open>proc.c\<close>): the 1-based binary heap equals a
    pure array heap and implements the locale \<open>prio_queue\<close>.
  \<^item> \<open>Mlfq\<close> (the queue functions of \<open>proc.c\<close>): enqueueing keeps the threads of a process together,
    the boost lifts every process, and one equation says which thread the selection returns in every state.
  \<^item> \<open>Sched\<close>, \<open>Sched_Wakeup\<close> (\<open>allocproc\<close>, \<open>set_cpu_share\<close>, \<open>scheduler\<close>, \<open>sched\<close>, \<open>yield\<close>, \<open>sleep\<close>,
    \<open>wakeup\<close>, \<open>kill\<close> of \<open>proc.c\<close>): a wakeup makes every sleeper on its channel ready; CPU shares
    conserve tickets. A context switch ends a definition: what runs afterwards is a resume
    function (\<open>sys_sleep_resume\<close> and the like). The interrupt flag that \<open>sched\<close> saves and restores is left out, and
    \<open>myproc\<close> is the running thread \<open>cur\<close> of the one CPU of the model.
  \<^item> \<open>Sleeplock\<close> (\<open>sleeplock.c\<close>), \<open>Thread\<close> (\<open>thread.c\<close>, \<open>futex.c\<close>), \<open>Process\<close> (\<open>userinit\<close>, \<open>growproc\<close>,
    \<open>fork\<close>, \<open>exit\<close>, \<open>wait\<close> of \<open>proc.c\<close>; \<open>copyuvm\<close> of \<open>vm.c\<close>).
  \<^item> \<open>Futex_Exit\<close>: a run of the kernel in which the exit of a thread ends the \<open>futex_wait\<close> of its creator.

  \<^bold>\<open>Storage.\<close>
  \<^item> \<open>Bio\<close>, \<open>Bio_Cache\<close> (\<open>bio.c\<close>): the buffer cache with its list in order of use; it refines a
    disk of lockable blocks.
  \<^item> \<open>Log\<close>, \<open>Log_Commit\<close> (\<open>log.c\<close>): the write-ahead log on the buffer cache. A commit is a known list of disk
    writes, and recovery after a crash behind any prefix of it leaves all home blocks old or all new.
  \<^item> \<open>Block_Layer\<close>: the contract of the cache and the log the file system is written against. It is a model of its own: no
    theorem relates its operations to those of \<open>Bio\<close> and \<open>Log\<close>, whose properties are proved separately.
  \<^item> \<open>Bytes\<close>, \<open>Fs\<close>, \<open>Fs_Alloc\<close>, \<open>Fs_Inode\<close>, \<open>Fs_Data\<close> (\<open>fs.c\<close>, \<open>fs.h\<close>): block allocation, inodes, file
    contents through four levels of block maps, directories and paths.
  \<^item> \<open>File\<close> (\<open>file.c\<close>, \<open>pipe.c\<close>): open files and pipes; a pipe is a bounded queue (locale \<open>byte_channel\<close>).

  \<^bold>\<open>System calls.\<close>
  \<^item> \<open>Sysfile\<close> (\<open>sysfile.c\<close>, argument functions of \<open>syscall.c\<close>) and \<open>Syscall\<close> (\<open>sysproc.c\<close>, \<open>exec.c\<close>,
    the dispatcher of \<open>syscall.c\<close>).

  \<^bold>\<open>User programs.\<close>
  \<^item> \<open>Ulib\<close> (\<open>ulib.c\<close>, \<open>printf.c\<close>): strings, \<open>gets\<close>, \<open>atoi\<close> and \<open>printf\<close>; what \<open>printint\<close> prints, \<open>atoi\<close> reads.
  \<^item> \<open>Grep\<close> (\<open>grep.c\<close>): the matcher decides the meaning of the pattern, an inductive relation; grep prints the matching lines of its
    files, and loses input when a read returns no newline.
  \<^item> \<open>Xem\<close> (the semaphores of \<open>xem.c\<close>): a step relation at the grain of C statements; besides the steps of the threads, a thread that has got
    the semaphore may hand the right to unlock over to another one (\<open>give\<close>, \<open>claim\<close>), as the reader-writer lock does. Mutual
    exclusion holds in every reachable state, and there is a run that loses a wakeup. The futex calls enter by their effect on the
    sleeping threads. Wakeups by an exiting thread, which the kernel also delivers (\<open>Futex_Exit\<close>), are not steps of the relation, so that exclusion is
    shown for threads that do not exit while their creator waits.
  \<^item> \<open>Rwlock_Spec\<close>, \<open>Rwlock\<close> (the reader-writer lock of \<open>xem.c\<close>): the lock on three semaphores of \<open>Xem\<close>, interleaved at every
    statement, refines a specification on atomic semaphores, which gives the exclusion of readers and writers. A thread to which
    -1 is returned makes no further step.
  \<^item> \<open>Shell\<close> (\<open>sh.c\<close>): the parser, which ends on every command line, and what running a command does as a tree of system calls.

  \<^bold>\<open>Fuel.\<close> Loops over a list of the process table get one more step than there are processes
  (\<open>NPROC\<close>), loops over the buffer list one more than there are buffers, and loops over bytes one
  more than the count; the lemmas of the component (\<open>walk_dlist\<close>, \<open>wakeup1_loop_ok\<close>, \<open>bget_scan_eq\<close>,
  \<open>readi_loop_ok\<close>, \<open>writei_loop_ok\<close>) show that on well-formed states this suffices, so that \<open>Diverges\<close> does not
  occur there.

  \<^bold>\<open>Not modelled.\<close> The console, the keyboard and the serial line; the disk drivers, where \<open>iderw\<close> enters by its contract
  that the block has been read or written when it returns; the interrupt controllers and the trap entry; the boot code and the start of
  the other CPUs; \<open>mkfs.c\<close>; the allocator of the user programs (\<open>umalloc.c\<close>; the shell uses what \<open>malloc\<close> returns without a test, and the model
  lets it succeed); the remaining user programs and the tests. These are hardware accesses, assembly, build tools, or compositions of
  system calls. Simplifications inside of modelled functions are stated where they are made: among them that the CPU which \<open>mycpu\<close> looks up is an argument of the
  operations of \<open>Spinlock\<close>, that the wakeup in \<open>brelse\<close> is not part of \<open>Bio\<close>, which has no other threads, and that a null inode pointer is
  not a value of the model of \<open>fs.c\<close>.
\<close>

end
